(* ===== verification/Prelude.thy ===== *)
theory Prelude
  imports Main "HOL-Library.Word" "HOL-Library.Monad_Syntax"
begin

text \<open>
  What the components share: the names of the machine integers of the C sources, the
  conventions of the model, and generic facts on words, lists and bounded loops.

  Conventions.
  \<^item> \<open>uint8_t\<close>, \<open>uint16_t\<close>, \<open>uint32_t\<close> and \<open>size_t\<close> are words of that width, so arithmetic
    wraps as it does in C; a pointer is its 32-bit address; \<open>char\<close> is its byte.
  \<^item> An operation whose C code may leave the defined behaviour of the language (an access
    outside an array or object, a page fault) or may not return has an \<open>option\<close> result:
    \<open>None\<close> is that outcome. Error codes the code returns are ordinary values.
  \<^item> A C string is the list of the bytes before its terminator; reading one past the end
    of the list is reading the terminating 0.
  \<^item> Text written by \<open>kprintf\<close> is returned beside the state, in the order it is written.
\<close>

unbundle bit_operations_syntax

type_synonym u8 = "8 word"
type_synonym u16 = "16 word"
type_synonym u32 = "32 word"
type_synonym bytes = "8 word list"

named_theorems const_defs \<open>values of the sources' preprocessor constants\<close>
named_theorems unat_simps \<open>reading bounded word arithmetic as arithmetic on nat\<close>

subsection \<open>Words as natural numbers\<close>

lemma unat_of_nat_u32 [unat_simps]: "n < 4294967296 \<Longrightarrow> unat (of_nat n :: u32) = n"
  by (simp add: unat_of_nat)

lemma unat_of_nat_u8 [unat_simps]: "n < 256 \<Longrightarrow> unat (of_nat n :: u8) = n"
  by (simp add: unat_of_nat)

lemma unat_u32_less [simp]: "unat (x :: u32) < 4294967296"
  using unsigned_less [of x, where ?'a = nat] by simp

lemma unat_u8_less [simp]: "unat (x :: u8) < 256"
  using unsigned_less [of x, where ?'a = nat] by simp

lemma of_nat_u32_eq_iff:
  "m < 4294967296 \<Longrightarrow> n < 4294967296 \<Longrightarrow> (of_nat m = (of_nat n :: u32)) = (m = n)"
  using unat_of_nat_u32 by metis

lemma unat_add_u32 [unat_simps]:
  "unat (a :: u32) + unat b < 4294967296 \<Longrightarrow> unat (a + b) = unat a + unat b"
  using unat_add_lem [of a b] by simp

lemma unat_sub_u32 [unat_simps]:
  "unat (b :: u32) \<le> unat a \<Longrightarrow> unat (a - b) = unat a - unat b"
  by (simp add: unat_sub word_le_nat_alt)

lemma unat_mult_u32 [unat_simps]:
  "unat (a :: u32) * unat b < 4294967296 \<Longrightarrow> unat (a * b) = unat a * unat b"
  using unat_mult_lem [of a b] by simp

lemma word_eq_unat: "(a = b) = (unat a = unat (b :: 'a::len word))"
  by (simp add: word_unat_eq_iff)

text \<open>The counter of a loop \<open>for (i = ...; i < n; i++)\<close> does not wrap, and the loop ends.\<close>

lemma unat_inc_u32 [simp]: "i < (n :: u32) \<Longrightarrow> unat (i + 1) = Suc (unat i)"
  using unat_add_u32 [of i 1] unat_u32_less [of n] by (simp add: word_less_nat_alt)

lemma u32_loop_measure: "i < (n :: u32) \<Longrightarrow> unat n - unat (i + 1) < unat n - unat i"
  by (simp add: word_less_nat_alt unat_inc_u32 diff_less_mono2)

end
