(* ===== verification/Terminal.thy ===== *)
theory Terminal
  imports Prelude
begin

text \<open>
  The VGA text terminal of \<open>kernel/kernel.c\<close>: cursor position, colour and the 80 by 25
  cells at \<open>0xB8000\<close>. Before \<open>terminal_initialize\<close> the buffer pointer is null, which is
  the empty list here. Writes to the VGA ports are recorded in order in \<open>vga_ports\<close>.
\<close>

definition VGA_WIDTH :: u32 where [const_defs]: "VGA_WIDTH = 80"
definition VGA_HEIGHT :: u32 where [const_defs]: "VGA_HEIGHT = 25"
definition VGA_CTRL_PORT :: u16 where [const_defs]: "VGA_CTRL_PORT = 0x3D4"
definition VGA_DATA_PORT :: u16 where [const_defs]: "VGA_DATA_PORT = 0x3D5"

datatype vga_color =
  VGA_COLOR_BLACK | VGA_COLOR_BLUE | VGA_COLOR_GREEN | VGA_COLOR_CYAN
| VGA_COLOR_RED | VGA_COLOR_MAGENTA | VGA_COLOR_BROWN | VGA_COLOR_LIGHT_GREY
| VGA_COLOR_DARK_GREY | VGA_COLOR_LIGHT_BLUE | VGA_COLOR_LIGHT_GREEN | VGA_COLOR_LIGHT_CYAN
| VGA_COLOR_LIGHT_RED | VGA_COLOR_LIGHT_MAGENTA | VGA_COLOR_LIGHT_BROWN | VGA_COLOR_WHITE

fun color_num :: "vga_color \<Rightarrow> u8" where
  "color_num VGA_COLOR_BLACK = 0"
| "color_num VGA_COLOR_BLUE = 1"
| "color_num VGA_COLOR_GREEN = 2"
| "color_num VGA_COLOR_CYAN = 3"
| "color_num VGA_COLOR_RED = 4"
| "color_num VGA_COLOR_MAGENTA = 5"
| "color_num VGA_COLOR_BROWN = 6"
| "color_num VGA_COLOR_LIGHT_GREY = 7"
| "color_num VGA_COLOR_DARK_GREY = 8"
| "color_num VGA_COLOR_LIGHT_BLUE = 9"
| "color_num VGA_COLOR_LIGHT_GREEN = 10"
| "color_num VGA_COLOR_LIGHT_CYAN = 11"
| "color_num VGA_COLOR_LIGHT_RED = 12"
| "color_num VGA_COLOR_LIGHT_MAGENTA = 13"
| "color_num VGA_COLOR_LIGHT_BROWN = 14"
| "color_num VGA_COLOR_WHITE = 15"

definition vga_entry_color :: "vga_color \<Rightarrow> vga_color \<Rightarrow> u8" where
  "vga_entry_color fg bg = color_num fg OR push_bit 4 (color_num bg)"

definition vga_entry :: "u8 \<Rightarrow> u8 \<Rightarrow> u16" where
  "vga_entry uc color = ucast uc OR push_bit 8 (ucast color)"

record terminal =
  terminal_row :: u32
  terminal_column :: u32
  terminal_color :: u8
  terminal_buffer :: "u16 list"
  vga_ports :: "(u16 \<times> u8) list"

definition terminal_update_cursor :: "terminal \<Rightarrow> terminal" where
  "terminal_update_cursor t =
     (let pos = (ucast (terminal_row t * VGA_WIDTH + terminal_column t) :: u16)
      in t\<lparr>vga_ports := vga_ports t @
             [(VGA_CTRL_PORT, 0x0F), (VGA_DATA_PORT, ucast (pos AND 0xFF)),
              (VGA_CTRL_PORT, 0x0E), (VGA_DATA_PORT, ucast (drop_bit 8 pos AND 0xFF))]\<rparr>)"

text \<open>A store to cell \<open>i\<close>, undefined outside the buffer.\<close>

definition buffer_write :: "u32 \<Rightarrow> u16 \<Rightarrow> u16 list \<Rightarrow> u16 list option" where
  "buffer_write i e b = (if unat i < length b then Some (b[unat i := e]) else None)"

definition terminal_initialize :: "terminal \<Rightarrow> terminal" where
  "terminal_initialize t =
     (let c = vga_entry_color VGA_COLOR_LIGHT_GREY VGA_COLOR_BLACK
      in terminal_update_cursor
           (t\<lparr>terminal_row := 0, terminal_column := 0, terminal_color := c,
              terminal_buffer := replicate (unat VGA_HEIGHT * unat VGA_WIDTH) (vga_entry 32 c)\<rparr>))"

definition terminal_setcolor :: "u8 \<Rightarrow> terminal \<Rightarrow> terminal" where
  "terminal_setcolor color t = t\<lparr>terminal_color := color\<rparr>"

definition terminal_putentryat :: "u8 \<Rightarrow> u8 \<Rightarrow> u32 \<Rightarrow> u32 \<Rightarrow> terminal \<Rightarrow> terminal option" where
  "terminal_putentryat c color x y t =
     do { b \<leftarrow> buffer_write (y * VGA_WIDTH + x) (vga_entry c color) (terminal_buffer t);
          Some (t\<lparr>terminal_buffer := b\<rparr>) }"

text \<open>The two loops of \<open>terminal_scroll\<close>, over row and column numbers.\<close>

definition scroll_cell :: "nat \<Rightarrow> nat \<Rightarrow> u16 list \<Rightarrow> u16 list" where
  "scroll_cell y x b = b[y * 80 + x := b ! ((y + 1) * 80 + x)]"

definition terminal_scroll :: "terminal \<Rightarrow> terminal option" where
  "terminal_scroll t =
     (if length (terminal_buffer t) < 2000 then None
      else let b = fold (\<lambda>y. fold (scroll_cell y) [0..<80]) [0..<24] (terminal_buffer t);
               b = fold (\<lambda>x b. b[24 * 80 + x := vga_entry 32 (terminal_color t)]) [0..<80] b
           in Some (t\<lparr>terminal_buffer := b\<rparr>))"

text \<open>The statement \<open>if (++terminal_row == VGA_HEIGHT) {...}\<close>, which occurs three times.\<close>

definition advance_row :: "terminal \<Rightarrow> terminal option" where
  "advance_row t =
     (let t = t\<lparr>terminal_row := terminal_row t + 1\<rparr>
      in if terminal_row t = VGA_HEIGHT
         then do { t \<leftarrow> terminal_scroll t; Some (t\<lparr>terminal_row := VGA_HEIGHT - 1\<rparr>) }
         else Some t)"

text \<open>Where a backspace moves to: left, or to the end of the row above, or nowhere.\<close>

definition step_back :: "terminal \<Rightarrow> terminal" where
  "step_back t =
     (if 0 < terminal_column t then t\<lparr>terminal_column := terminal_column t - 1\<rparr>
      else if 0 < terminal_row t
      then t\<lparr>terminal_row := terminal_row t - 1, terminal_column := VGA_WIDTH - 1\<rparr>
      else t)"

definition terminal_putchar :: "u8 \<Rightarrow> terminal \<Rightarrow> terminal option" where
  "terminal_putchar c t =
     (if c = 10 then advance_row (t\<lparr>terminal_column := 0\<rparr>)
      else if c = 13 then Some (t\<lparr>terminal_column := 0\<rparr>)
      else if c = 9 then
        (let t = t\<lparr>terminal_column := (terminal_column t + 8) AND NOT 7\<rparr>
         in if VGA_WIDTH \<le> terminal_column t
            then advance_row (t\<lparr>terminal_column := 0\<rparr>) else Some t)
      else if c = 8 then
        (let t = step_back t
         in do { t \<leftarrow> terminal_putentryat 32 (terminal_color t) (terminal_column t) (terminal_row t) t;
                 Some (terminal_update_cursor t) })
      else
        do { t \<leftarrow> terminal_putentryat c (terminal_color t) (terminal_column t) (terminal_row t) t;
             let t = t\<lparr>terminal_column := terminal_column t + 1\<rparr>;
             t \<leftarrow> (if terminal_column t = VGA_WIDTH
                   then advance_row (t\<lparr>terminal_column := 0\<rparr>) else Some t);
             Some (terminal_update_cursor t) })"

fun terminal_write :: "bytes \<Rightarrow> terminal \<Rightarrow> terminal option" where
  "terminal_write [] t = Some t"
| "terminal_write (c # cs) t = do { t \<leftarrow> terminal_putchar c t; terminal_write cs t }"

text \<open>With C strings as lists, \<open>strlen\<close> is the length and \<open>terminal_writestring\<close> writes them.\<close>

definition terminal_writestring :: "bytes \<Rightarrow> terminal \<Rightarrow> terminal option" where
  "terminal_writestring data t = terminal_write (take (length data) data) t"

text \<open>The digits of \<open>terminal_writeuint\<close> in the order they enter \<open>buf\<close>, least first.\<close>

function writeuint_buf :: "u32 \<Rightarrow> bytes" where
  "writeuint_buf n = (if 0 < n then (48 + ucast (n mod 10)) # writeuint_buf (n div 10) else [])"
  by pat_completeness auto
termination
  by (relation "measure unat") (auto simp: word_less_nat_alt unat_div)

definition terminal_writeuint :: "u32 \<Rightarrow> terminal \<Rightarrow> terminal option" where
  "terminal_writeuint n t =
     (if n = 0 then terminal_putchar 48 t else terminal_write (rev (writeuint_buf n)) t)"

declare writeuint_buf.simps [simp del]

subsection \<open>Scrolling\<close>

lemma scroll_row:
  assumes "n \<le> 80" "y < 24" "length b = 2000"
  shows "length (fold (scroll_cell y) [0..<n] b) = 2000 \<and>
    (\<forall>i < 2000. fold (scroll_cell y) [0..<n] b ! i =
      (if y * 80 \<le> i \<and> i < y * 80 + n then b ! (i + 80) else b ! i))"
  using assms
proof (induction n)
  case 0
  then show ?case by auto
next
  case (Suc n)
  let ?b = "fold (scroll_cell y) [0..<n] b"
  have IH: "length ?b = 2000" "\<And>i. i < 2000 \<Longrightarrow> ?b ! i =
      (if y * 80 \<le> i \<and> i < y * 80 + n then b ! (i + 80) else b ! i)"
    using Suc by auto
  have "?b ! ((y + 1) * 80 + n) = b ! (y * 80 + n + 80)"
    using IH(2) [of "(y + 1) * 80 + n"] Suc.prems by (simp add: algebra_simps)
  then have "fold (scroll_cell y) [0..<Suc n] b = ?b[y * 80 + n := b ! (y * 80 + n + 80)]"
    by (simp add: scroll_cell_def)
  then show ?case
    using IH Suc.prems by (auto simp: nth_list_update)
qed

lemma scroll_rows:
  assumes "n \<le> 24" "length b = 2000"
  shows "length (fold (\<lambda>y. fold (scroll_cell y) [0..<80]) [0..<n] b) = 2000 \<and>
    (\<forall>i < 2000. fold (\<lambda>y. fold (scroll_cell y) [0..<80]) [0..<n] b ! i =
      (if i < n * 80 then b ! (i + 80) else b ! i))"
  using assms
proof (induction n)
  case 0
  then show ?case by simp
next
  case (Suc n)
  let ?b = "fold (\<lambda>y. fold (scroll_cell y) [0..<80]) [0..<n] b"
  have IH: "length ?b = 2000" "\<And>i. i < 2000 \<Longrightarrow> ?b ! i = (if i < n * 80 then b ! (i + 80) else b ! i)"
    using Suc by auto
  show ?case
    using scroll_row [of 80 n ?b] IH Suc.prems by auto
qed

lemma fill_last_row:
  assumes "n \<le> 80" "length b = 2000"
  shows "length (fold (\<lambda>x b. b[1920 + x := e]) [0..<n] b) = 2000 \<and>
    (\<forall>i < 2000. fold (\<lambda>x b. b[1920 + x := e]) [0..<n] b ! i =
      (if 1920 \<le> i \<and> i < 1920 + n then e else b ! i))"
  using assms by (induction n) (auto simp: nth_list_update)

lemma terminal_scroll_eq:
  assumes "length (terminal_buffer t) = 2000"
  shows "terminal_scroll t = Some (t\<lparr>terminal_buffer :=
    drop 80 (terminal_buffer t) @ replicate 80 (vga_entry 32 (terminal_color t))\<rparr>)"
proof -
  let ?b = "terminal_buffer t" and ?e = "vga_entry 32 (terminal_color t)"
  let ?b1 = "fold (\<lambda>y. fold (scroll_cell y) [0..<80]) [0..<24] ?b"
  note 1 = scroll_rows [of 24 ?b] and 2 = fill_last_row [of 80 ?b1 ?e]
  have "fold (\<lambda>x b. b[1920 + x := ?e]) [0..<80] ?b1 = drop 80 ?b @ replicate 80 ?e"
    using 1 2 assms by (intro nth_equalityI) (auto simp: nth_append add.commute)
  then show ?thesis using assms by (simp add: terminal_scroll_def)
qed

subsection \<open>The cursor stays on the screen\<close>

definition term_inv :: "terminal \<Rightarrow> bool" where
  "term_inv t \<longleftrightarrow> terminal_row t < VGA_HEIGHT \<and> terminal_column t < VGA_WIDTH \<and>
     length (terminal_buffer t) = 2000"

definition cell :: "u32 \<Rightarrow> u32 \<Rightarrow> nat" where
  "cell row column = unat row * 80 + unat column"

lemma unat_cell:
  "row < VGA_HEIGHT \<Longrightarrow> column < VGA_WIDTH \<Longrightarrow> unat (row * VGA_WIDTH + column) = cell row column"
  by (simp add: const_defs cell_def word_less_nat_alt unat_add_u32 unat_mult_u32)

lemma cell_less: "row < VGA_HEIGHT \<Longrightarrow> column < VGA_WIDTH \<Longrightarrow> cell row column < 2000"
  by (simp add: const_defs cell_def word_less_nat_alt)

lemma terminal_putentryat_eq:
  "length (terminal_buffer t) = 2000 \<Longrightarrow> row < VGA_HEIGHT \<Longrightarrow> column < VGA_WIDTH \<Longrightarrow>
   terminal_putentryat c color column row t =
     Some (t\<lparr>terminal_buffer := (terminal_buffer t)[cell row column := vga_entry c color]\<rparr>)"
  by (simp add: terminal_putentryat_def buffer_write_def unat_cell cell_less)

lemma term_inv_cursor [simp]: "term_inv (terminal_update_cursor t) = term_inv t"
  by (simp add: terminal_update_cursor_def term_inv_def Let_def)

lemma row_next: "row < VGA_HEIGHT \<Longrightarrow> row + 1 \<noteq> VGA_HEIGHT \<Longrightarrow> row + 1 < VGA_HEIGHT"
  by (simp add: const_defs word_less_nat_alt word_eq_unat unat_add_u32)

lemma advance_row_inv:
  "term_inv t \<Longrightarrow> \<exists>t'. advance_row t = Some t' \<and> term_inv t'"
  by (auto simp: advance_row_def term_inv_def terminal_scroll_eq row_next Let_def) (simp add: const_defs)

lemma column_next:
  "column < VGA_WIDTH \<Longrightarrow> column + 1 \<noteq> VGA_WIDTH \<Longrightarrow> column + 1 < VGA_WIDTH"
  by (simp add: const_defs word_less_nat_alt word_eq_unat unat_add_u32)

lemma pred_less: "0 < (n :: u32) \<Longrightarrow> n < m \<Longrightarrow> n - 1 < m"
  by (simp add: word_less_nat_alt unat_sub_u32 Suc_le_eq)

lemma putchar_tab_inv: "term_inv t \<Longrightarrow> \<exists>t'. terminal_putchar 9 t = Some t' \<and> term_inv t'"
  using advance_row_inv [of "t\<lparr>terminal_column := 0\<rparr>"]
  by (auto simp: terminal_putchar_def term_inv_def Let_def not_le) (simp add: const_defs)

lemma putchar_backspace_inv: "term_inv t \<Longrightarrow> \<exists>t'. terminal_putchar 8 t = Some t' \<and> term_inv t'"
proof -
  assume t: "term_inv t"
  define u where "u = step_back t"
  have "term_inv u"
    using t by (auto simp: u_def step_back_def term_inv_def pred_less) (simp add: const_defs)
  moreover from this have "terminal_putchar 8 t = Some (terminal_update_cursor (u\<lparr>terminal_buffer :=
      (terminal_buffer u)[cell (terminal_row u) (terminal_column u) := vga_entry 32 (terminal_color u)]\<rparr>))"
    by (simp add: terminal_putchar_def flip: u_def)
      (simp add: terminal_putentryat_eq term_inv_def)
  ultimately show ?thesis by (auto simp: term_inv_def [of "_\<lparr>terminal_buffer := _\<rparr>"] term_inv_def [of u])
qed

text \<open>What an ordinary character does, off and on the last column.\<close>

lemma putchar_printable:
  assumes "term_inv t" "c \<notin> {8, 9, 10, 13}"
  shows "terminal_putchar c t =
    (let t1 = t\<lparr>terminal_buffer := (terminal_buffer t)
                 [cell (terminal_row t) (terminal_column t) := vga_entry c (terminal_color t)],
               terminal_column := terminal_column t + 1\<rparr>
     in do { t2 \<leftarrow> (if terminal_column t + 1 = VGA_WIDTH
                   then advance_row (t1\<lparr>terminal_column := 0\<rparr>) else Some t1);
             Some (terminal_update_cursor t2) })"
  using assms by (simp add: terminal_putchar_def terminal_putentryat_eq term_inv_def Let_def)

lemma putchar_printable_inv:
  assumes "term_inv t" "c \<notin> {8, 9, 10, 13}"
  shows "\<exists>t'. terminal_putchar c t = Some t' \<and> term_inv t'"
proof -
  let ?t1 = "t\<lparr>terminal_buffer := (terminal_buffer t)
      [cell (terminal_row t) (terminal_column t) := vga_entry c (terminal_color t)],
    terminal_column := terminal_column t + 1\<rparr>"
  have "term_inv (?t1\<lparr>terminal_column := 0\<rparr>)"
    using assms(1) by (simp add: term_inv_def) (simp add: const_defs)
  then obtain t2 where "advance_row (?t1\<lparr>terminal_column := 0\<rparr>) = Some t2" "term_inv t2"
    using advance_row_inv by blast
  moreover have "term_inv ?t1" if "terminal_column t + 1 \<noteq> VGA_WIDTH"
    using assms(1) that by (simp add: term_inv_def column_next)
  ultimately show ?thesis
    using putchar_printable [OF assms] by (auto simp: Let_def)
qed

lemma terminal_putchar_inv:
  assumes "term_inv t"
  shows "\<exists>t'. terminal_putchar c t = Some t' \<and> term_inv t'"
proof -
  have 0: "term_inv (t\<lparr>terminal_column := 0\<rparr>)"
    using assms by (simp add: term_inv_def) (simp add: const_defs)
  consider "c = 8" | "c = 9" | "c = 10" | "c = 13" | "c \<notin> {8, 9, 10, 13}" by auto
  then show ?thesis
  proof cases
    case 3
    then show ?thesis using advance_row_inv [OF 0] by (simp add: terminal_putchar_def)
  next
    case 4
    then show ?thesis using 0 by (simp add: terminal_putchar_def)
  qed (use assms putchar_backspace_inv putchar_tab_inv putchar_printable_inv in blast)+
qed

lemma terminal_write_inv: "term_inv t \<Longrightarrow> \<exists>t'. terminal_write cs t = Some t' \<and> term_inv t'"
proof (induction cs arbitrary: t)
  case (Cons c cs)
  then obtain t' where "terminal_putchar c t = Some t'" "term_inv t'"
    using terminal_putchar_inv by blast
  with Cons.IH [of t'] show ?case by simp
qed simp

lemma terminal_initialize_inv: "term_inv (terminal_initialize t)"
  by (simp add: terminal_initialize_def term_inv_def Let_def terminal_update_cursor_def const_defs)

subsection \<open>What a character does to the screen\<close>

definition cursor :: "terminal \<Rightarrow> nat" where
  "cursor t = cell (terminal_row t) (terminal_column t)"

lemma advance_row_eq:
  assumes "term_inv t"
  shows "advance_row t = Some (if terminal_row t = 24
    then t\<lparr>terminal_row := 24, terminal_buffer :=
      drop 80 (terminal_buffer t) @ replicate 80 (vga_entry 32 (terminal_color t))\<rparr>
    else t\<lparr>terminal_row := terminal_row t + 1\<rparr>)"
proof -
  have "(terminal_row t + 1 = VGA_HEIGHT) = (terminal_row t = 24)"
    by (simp add: const_defs eq_diff_eq [symmetric])
  then show ?thesis
    using assms by (simp add: advance_row_def terminal_scroll_eq term_inv_def Let_def VGA_HEIGHT_def)
qed

lemma cursor_update [simp]:
  "cursor (terminal_update_cursor t) = cursor t"
  "terminal_buffer (terminal_update_cursor t) = terminal_buffer t"
  "terminal_row (terminal_update_cursor t) = terminal_row t"
  "terminal_column (terminal_update_cursor t) = terminal_column t"
  by (simp_all add: cursor_def terminal_update_cursor_def Let_def)

lemma last_column: "terminal_column t + 1 = VGA_WIDTH \<longleftrightarrow> terminal_column t = 79"
  by (simp add: const_defs eq_diff_eq [symmetric])



text \<open>The loops of \<open>terminal_scroll\<close> move every row up by one in place and blank the last
  row in the current colour.\<close>

theorem terminal_scroll_shifts:
  assumes "length (terminal_buffer t) = 2000"
  shows "terminal_scroll t = Some (t\<lparr>terminal_buffer :=
    drop 80 (terminal_buffer t) @ replicate 80 (vga_entry 32 (terminal_color t))\<rparr>)"
  using assms by (rule terminal_scroll_eq)

theorem terminal_scroll_shifts_witness:
  "terminal_scroll \<lparr>terminal_row = 24, terminal_column = 0, terminal_color = 7,
     terminal_buffer = replicate 80 1 @ replicate 1920 2, vga_ports = []\<rparr> =
   Some \<lparr>terminal_row = 24, terminal_column = 0, terminal_color = 7,
     terminal_buffer = replicate 1920 2 @ replicate 80 (vga_entry 32 7), vga_ports = []\<rparr>"
  by (subst terminal_scroll_shifts) simp_all

text \<open>An ordinary character is stored with the current colour at the cursor, which moves
  one cell on; on the last cell of the screen the text scrolls and the cursor goes to the
  start of the last row.\<close>

theorem terminal_putchar_printable:
  assumes "term_inv t" "c \<notin> {8, 9, 10, 13}"
  shows "\<exists>t'. terminal_putchar c t = Some t' \<and>
    (let b = (terminal_buffer t)[cursor t := vga_entry c (terminal_color t)]
     in if cursor t = 1999
        then terminal_buffer t' = drop 80 b @ replicate 80 (vga_entry 32 (terminal_color t)) \<and> cursor t' = 1920
        else terminal_buffer t' = b \<and> cursor t' = cursor t + 1)"
proof -
  have rc: "unat (terminal_row t) < 25" "unat (terminal_column t) < 80"
    using assms(1) by (simp_all add: term_inv_def const_defs word_less_nat_alt)
  let ?t1 = "t\<lparr>terminal_buffer := (terminal_buffer t)
      [cell (terminal_row t) (terminal_column t) := vga_entry c (terminal_color t)],
    terminal_column := 0\<rparr>"
  have "term_inv ?t1" using assms(1) by (simp add: term_inv_def) (simp add: const_defs)
  note adv = advance_row_eq [OF this]
  have next_: "unat (terminal_column t + 1) = unat (terminal_column t) + 1"
    "unat (terminal_row t + 1) = unat (terminal_row t) + 1"
    using rc by (simp_all add: unat_add_u32)
  have last: "cursor t = 1999 \<longleftrightarrow> terminal_row t = 24 \<and> terminal_column t = 79"
    using rc by (simp add: cursor_def cell_def word_eq_unat) presburger
  show ?thesis
  proof (cases "terminal_column t = 79")
    case True
    then show ?thesis
      using adv putchar_printable [OF assms] last next_(2)
      by (cases "terminal_row t = 24") (simp_all add: Let_def cursor_def cell_def VGA_WIDTH_def)
  next
    case False
    then show ?thesis
      using putchar_printable [OF assms] last next_(1)
      by (simp add: Let_def last_column cursor_def cell_def)
  qed
qed

theorem terminal_putchar_printable_witness:
  "\<exists>t'. terminal_putchar 65 (terminal_initialize \<lparr>terminal_row = 0, terminal_column = 0,
     terminal_color = 0, terminal_buffer = [], vga_ports = []\<rparr>) = Some t' \<and>
   terminal_buffer t' ! 0 = 0x741 \<and> cursor t' = 1"
  using terminal_putchar_printable [OF terminal_initialize_inv, of 65 "\<lparr>terminal_row = 0, terminal_column = 0,
     terminal_color = 0, terminal_buffer = [], vga_ports = []\<rparr>"]
  by (auto simp: terminal_initialize_def Let_def terminal_update_cursor_def cursor_def cell_def
      vga_entry_def vga_entry_color_def const_defs)

end
