(* ===== verification/Kprintf.thy ===== *)
theory Kprintf
  imports Terminal
begin

text \<open>
  Formatted output: \<open>drivers/serial.c\<close> and \<open>kernel/kprintf.c\<close>. Every character goes to the
  terminal and to the serial port. The UART is the environment: the successive values its
  line status register will give are the field \<open>lsr\<close>, indexed by the number of polls made.
\<close>

subsection \<open>The serial port\<close>

definition COM1 :: u16 where [const_defs]: "COM1 = 0x3F8"

record serial =
  lsr :: "nat \<Rightarrow> u8"
  polls :: nat
  com_ports :: "(u16 \<times> u8) list"

definition serial_outb :: "u16 \<Rightarrow> u8 \<Rightarrow> serial \<Rightarrow> serial" where
  "serial_outb port value s = s\<lparr>com_ports := com_ports s @ [(port, value)]\<rparr>"

definition serial_init :: "serial \<Rightarrow> serial" where
  "serial_init s =
     (let s = serial_outb (COM1 + 1) 0x00 s;
          s = serial_outb (COM1 + 3) 0x80 s;
          s = serial_outb (COM1 + 0) 0x03 s;
          s = serial_outb (COM1 + 1) 0x00 s;
          s = serial_outb (COM1 + 3) 0x03 s;
          s = serial_outb (COM1 + 2) 0xC7 s
      in serial_outb (COM1 + 4) 0x0B s)"

text \<open>The polling loop of \<open>serial_putchar\<close>; it need not end.\<close>

partial_function (option) serial_wait :: "serial \<Rightarrow> serial option" where
  "serial_wait s =
     (let status = lsr s (polls s); s = s\<lparr>polls := polls s + 1\<rparr>
      in if status AND 0x20 = 0 then serial_wait s else Some s)"

definition serial_putchar :: "u8 \<Rightarrow> serial \<Rightarrow> serial option" where
  "serial_putchar c s = do { s \<leftarrow> serial_wait s; Some (serial_outb COM1 c s) }"

fun serial_write :: "bytes \<Rightarrow> serial \<Rightarrow> serial option" where
  "serial_write [] s = Some s"
| "serial_write (c # str) s = do { s \<leftarrow> serial_putchar c s; serial_write str s }"

subsection \<open>kprintf\<close>

record console =
  tty :: terminal
  ser :: serial

definition put :: "u8 \<Rightarrow> console \<Rightarrow> console option" where
  "put c k = do { t \<leftarrow> terminal_putchar c (tty k);
                  s \<leftarrow> serial_putchar c (ser k);
                  Some (k\<lparr>tty := t, ser := s\<rparr>) }"

fun puts :: "bytes \<Rightarrow> console \<Rightarrow> console option" where
  "puts [] k = Some k"
| "puts (c # s) k = do { k \<leftarrow> put c k; puts s k }"

definition cstr :: "string \<Rightarrow> bytes" where
  "cstr s = map of_char s"

abbreviation nl :: string where "nl \<equiv> [CHR 0x0A]"

definition digits :: bytes where
  "digits = cstr ''0123456789abcdef''"

text \<open>
  The contents of \<open>buf\<close> in \<open>print_uint\<close>, in the order the loop stores them. A base below 2
  or above 16 divides by zero, does not end or reads past \<open>digits\<close>.
\<close>

function uint_buf :: "u32 \<Rightarrow> u32 \<Rightarrow> bytes" where
  "uint_buf n base =
     (if 0 < n \<and> 2 \<le> base
      then digits ! unat (n mod base) # uint_buf (n div base) base else [])"
  by pat_completeness auto
termination
  by (relation "measure (\<lambda>(n, base). unat n)")
    (auto simp: word_less_nat_alt word_le_nat_alt unat_div intro: div_less_dividend)

declare uint_buf.simps [simp del]

definition print_uint :: "u32 \<Rightarrow> u32 \<Rightarrow> console \<Rightarrow> console option" where
  "print_uint n base k =
     (if n = 0 then put 48 k
      else if base < 2 \<or> 16 < base then None
      else puts (rev (uint_buf n base)) k)"

definition print_int :: "u32 \<Rightarrow> console \<Rightarrow> console option" where
  "print_int n k =
     (if sint n < 0 then do { k \<leftarrow> put 45 k; print_uint (- n) 10 k }
      else print_uint n 10 k)"

text \<open>
  The variable arguments: a 32-bit integer, or a string (\<open>None\<close> for a null pointer).
  Fetching an argument that was not passed, or of the other kind, is undefined, and so is
  a format that ends in \<open>%\<close>: the pointer is stepped past the terminator.
\<close>

datatype karg = KInt u32 | KStr "bytes option"

fun kprintf :: "string \<Rightarrow> karg list \<Rightarrow> console \<Rightarrow> console option" where
  "kprintf [] args k = Some k"
| "kprintf (c # fmt) args k =
     (if c \<noteq> CHR ''%'' then do { k \<leftarrow> put (of_char c) k; kprintf fmt args k }
      else case fmt of
        [] \<Rightarrow> None
      | d # fmt' \<Rightarrow>
          if d = CHR ''d'' then
            (case args of KInt n # args' \<Rightarrow> do { k \<leftarrow> print_int n k; kprintf fmt' args' k } | _ \<Rightarrow> None)
          else if d = CHR ''u'' then
            (case args of KInt n # args' \<Rightarrow> do { k \<leftarrow> print_uint n 10 k; kprintf fmt' args' k } | _ \<Rightarrow> None)
          else if d = CHR ''x'' then
            (case args of KInt n # args' \<Rightarrow>
               do { k \<leftarrow> puts (cstr ''0x'') k; k \<leftarrow> print_uint n 16 k; kprintf fmt' args' k } | _ \<Rightarrow> None)
          else if d = CHR ''s'' then
            (case args of KStr s # args' \<Rightarrow>
               do { k \<leftarrow> puts (case s of Some s \<Rightarrow> s | None \<Rightarrow> cstr ''(null)'') k; kprintf fmt' args' k }
             | _ \<Rightarrow> None)
          else if d = CHR ''c'' then
            (case args of KInt n # args' \<Rightarrow> do { k \<leftarrow> put (ucast n) k; kprintf fmt' args' k } | _ \<Rightarrow> None)
          else if d = CHR ''%'' then do { k \<leftarrow> put 37 k; kprintf fmt' args k }
          else do { k \<leftarrow> put 37 k; k \<leftarrow> put (of_char d) k; kprintf fmt' args k })"

text \<open>
  An operation of another component returns its \<open>kprintf\<close> calls in order, as formats with
  arguments; \<open>say\<close> performs them on the console.
\<close>

type_synonym msg = "string \<times> karg list"

fun say :: "msg list \<Rightarrow> console \<Rightarrow> console option" where
  "say [] k = Some k"
| "say ((fmt, args) # ms) k = do { k \<leftarrow> kprintf fmt args k; say ms k }"

subsection \<open>The serial port accepts every character while the UART stays alive\<close>

definition uart_live :: "serial \<Rightarrow> bool" where
  "uart_live s \<longleftrightarrow> (\<forall>n. \<exists>m \<ge> n. lsr s m AND 0x20 \<noteq> 0)"

lemma serial_wait_ready:
  "lsr s (polls s + d) AND 0x20 \<noteq> 0 \<Longrightarrow> \<exists>p. serial_wait s = Some (s\<lparr>polls := p\<rparr>)"
proof (induction d arbitrary: s)
  case 0
  then show ?case by (subst serial_wait.simps) (auto simp: Let_def)
next
  case (Suc d)
  then have "\<exists>p. serial_wait (s\<lparr>polls := polls s + 1\<rparr>) = Some (s\<lparr>polls := polls s + 1\<rparr>\<lparr>polls := p\<rparr>)"
    by (intro Suc.IH) simp
  then show ?case by (subst serial_wait.simps) (auto simp: Let_def)
qed

lemma serial_putchar_live:
  assumes "uart_live s"
  obtains p where "serial_putchar c s = Some (s\<lparr>polls := p, com_ports := com_ports s @ [(COM1, c)]\<rparr>)"
proof -
  obtain m where "polls s \<le> m" "lsr s m AND 0x20 \<noteq> 0"
    using assms by (auto simp: uart_live_def)
  then obtain p where "serial_wait s = Some (s\<lparr>polls := p\<rparr>)"
    using serial_wait_ready [of s "m - polls s"] by auto
  then show ?thesis using that by (simp add: serial_putchar_def serial_outb_def)
qed

subsection \<open>The characters a call writes\<close>

definition fmt_uint :: "u32 \<Rightarrow> u32 \<Rightarrow> bytes" where
  "fmt_uint n base = (if n = 0 then [48] else rev (uint_buf n base))"

definition fmt_int :: "u32 \<Rightarrow> bytes" where
  "fmt_int n = (if sint n < 0 then 45 # fmt_uint (- n) 10 else fmt_uint n 10)"

text \<open>The reference: the text a format and its arguments stand for.\<close>

fun kformat :: "string \<Rightarrow> karg list \<Rightarrow> bytes option" where
  "kformat [] args = Some []"
| "kformat (c # fmt) args =
     (if c \<noteq> CHR ''%'' then map_option (Cons (of_char c)) (kformat fmt args)
      else case fmt of
        [] \<Rightarrow> None
      | d # fmt' \<Rightarrow>
          if d \<in> {CHR ''d'', CHR ''u'', CHR ''x'', CHR ''c''} then
            (case args of KInt n # args' \<Rightarrow>
               map_option ((@)
                 (if d = CHR ''d'' then fmt_int n else if d = CHR ''u'' then fmt_uint n 10
                  else if d = CHR ''x'' then cstr ''0x'' @ fmt_uint n 16 else [ucast n]))
                 (kformat fmt' args')
             | _ \<Rightarrow> None)
          else if d = CHR ''s'' then
            (case args of KStr s # args' \<Rightarrow>
               map_option ((@) (case s of Some s \<Rightarrow> s | None \<Rightarrow> cstr ''(null)'')) (kformat fmt' args')
             | _ \<Rightarrow> None)
          else map_option ((@) (if d = CHR ''%'' then [37] else [37, of_char d])) (kformat fmt' args))"

lemma puts_append: "puts (a @ b) k = do { k \<leftarrow> puts a k; puts b k }"
proof (induction a arbitrary: k)
  case (Cons c a)
  then show ?case by (cases "put c k") auto
qed simp

lemma puts_Nil [simp]: "puts [] = Some"
  by (rule ext) simp

lemma print_uint_eq: "base \<in> {10, 16} \<Longrightarrow> print_uint n base k = puts (fmt_uint n base) k"
  by (auto simp: print_uint_def fmt_uint_def)

lemma print_int_eq: "print_int n k = puts (fmt_int n) k"
  by (cases "put 45 k") (auto simp: print_int_def fmt_int_def print_uint_eq)

lemma bind_map_append:
  "Option.bind (map_option ((@) a) m) (\<lambda>out. puts out k) = do { k \<leftarrow> puts a k; do { out \<leftarrow> m; puts out k } }"
  by (cases m; cases "puts a k") (auto simp: puts_append)

lemma bind_map_cons:
  "Option.bind (map_option ((#) c) m) (\<lambda>out. puts out k) = do { k \<leftarrow> put c k; do { out \<leftarrow> m; puts out k } }"
  by (cases m; cases "put c k") auto

lemma kprintf_kformat: "kprintf fmt args k = do { out \<leftarrow> kformat fmt args; puts out k }"
proof (induction fmt arbitrary: args k rule: length_induct)
  case (1 fmt)
  show ?case
  proof (cases fmt)
    case (Cons c fmt1)
    have IH: "kprintf f args = (\<lambda>k. do { out \<leftarrow> kformat f args; puts out k })"
      if "length f \<le> length fmt1" for f args
      using "1.IH" Cons that by auto
    consider "c \<noteq> CHR ''%''" | "c = CHR ''%''" "fmt1 = []" | "c = CHR ''%''" "fmt1 \<noteq> []" by blast
    then show ?thesis
    proof cases
      case 1
      then show ?thesis using Cons IH [of fmt1] by (simp add: bind_map_cons)
    next
      case 2
      then show ?thesis using Cons by simp
    next
      case True: 3
      then obtain d fmt' where d: "fmt1 = d # fmt'" by (cases fmt1) auto
      have IH': "kprintf fmt' args = (\<lambda>k. do { out \<leftarrow> kformat fmt' args; puts out k })" for args
        using IH d by simp
      show ?thesis
      proof (cases args)
        case Nil
        then show ?thesis using Cons d True by (simp add: IH' bind_map_append)
      next
        case (Cons a args')
        then show ?thesis using \<open>fmt = c # fmt1\<close> d True
          by (cases a) (simp_all add: IH' bind_map_append print_int_eq print_uint_eq puts_append)
      qed
    qed
  qed simp
qed

subsection \<open>Output reaches both devices\<close>

definition con_inv :: "console \<Rightarrow> bool" where
  "con_inv k \<longleftrightarrow> term_inv (tty k) \<and> uart_live (ser k)"

lemma put_delivers:
  assumes "con_inv k"
  obtains k' where "put c k = Some k'" "con_inv k'" "terminal_putchar c (tty k) = Some (tty k')"
    "com_ports (ser k') = com_ports (ser k) @ [(COM1, c)]"
proof -
  obtain t where "terminal_putchar c (tty k) = Some t" "term_inv t"
    using assms terminal_putchar_inv by (auto simp: con_inv_def)
  moreover obtain p where "serial_putchar c (ser k) =
      Some ((ser k)\<lparr>polls := p, com_ports := com_ports (ser k) @ [(COM1, c)]\<rparr>)"
    using assms serial_putchar_live by (auto simp: con_inv_def)
  ultimately show ?thesis
    using assms by (intro that [of "k\<lparr>tty := t, ser := (ser k)\<lparr>polls := p,
        com_ports := com_ports (ser k) @ [(COM1, c)]\<rparr>\<rparr>"])
      (simp_all add: put_def con_inv_def uart_live_def)
qed

lemma puts_delivers:
  assumes "con_inv k"
  obtains k' where "puts out k = Some k'" "con_inv k'" "terminal_write out (tty k) = Some (tty k')"
    "com_ports (ser k') = com_ports (ser k) @ map (Pair COM1) out"
  using assms
proof (induction out arbitrary: k thesis)
  case Nil
  then show ?case by simp
next
  case (Cons c out)
  obtain k1 where k1: "put c k = Some k1" "con_inv k1" "terminal_putchar c (tty k) = Some (tty k1)"
    "com_ports (ser k1) = com_ports (ser k) @ [(COM1, c)]"
    using put_delivers [OF Cons.prems(2)] by metis
  obtain k2 where "puts out k1 = Some k2" "con_inv k2" "terminal_write out (tty k1) = Some (tty k2)"
    "com_ports (ser k2) = com_ports (ser k1) @ map (Pair COM1) out"
    using Cons.IH [OF _ k1(2)] by metis
  then show ?case using Cons.prems(1) k1 by simp
qed

text \<open>Messages that format well are always written out in full.\<close>

definition msg_ok :: "msg \<Rightarrow> bool" where
  "msg_ok m \<longleftrightarrow> kformat (fst m) (snd m) \<noteq> None"

lemma say_delivers: "con_inv k \<Longrightarrow> list_all msg_ok ms \<Longrightarrow> \<exists>k'. say ms k = Some k' \<and> con_inv k'"
proof (induction ms arbitrary: k)
  case (Cons m ms)
  obtain fmt args out where m: "m = (fmt, args)" "kformat fmt args = Some out"
    using Cons.prems(2) by (cases m) (auto simp: msg_ok_def)
  obtain k1 where "puts out k = Some k1" "con_inv k1"
    using puts_delivers [OF Cons.prems(1)] by metis
  then show ?case using Cons m by (simp add: kprintf_kformat)
qed simp

subsection \<open>Numbers\<close>

definition digit_value :: "u8 \<Rightarrow> nat" where
  "digit_value c = (if unat c < 58 then unat c - 48 else unat c - 87)"

definition parse_uint :: "nat \<Rightarrow> bytes \<Rightarrow> nat" where
  "parse_uint base ds = foldl (\<lambda>v d. v * base + digit_value d) 0 ds"

lemma digit_value_digits: "k < 16 \<Longrightarrow> digit_value (digits ! k) = k"
proof -
  have "\<forall>k \<in> set [0..<16]. digit_value (digits ! k) = k" by code_simp
  then show "k < 16 \<Longrightarrow> digit_value (digits ! k) = k" by simp
qed

lemma parse_uint_snoc: "parse_uint base (ds @ [d]) = parse_uint base ds * base + digit_value d"
  by (simp add: parse_uint_def)

lemma parse_uint_buf: "2 \<le> base \<Longrightarrow> base \<le> 16 \<Longrightarrow> parse_uint (unat base) (rev (uint_buf n base)) = unat n"
proof (induction n base rule: uint_buf.induct)
  case (1 n base)
  show ?case
  proof (cases "0 < n")
    case True
    have "unat (n mod base) < 16"
      using "1.prems" by (simp add: unat_mod word_le_nat_alt) (meson le_trans mod_less_divisor not_less
        zero_less_numeral order.strict_trans1 less_le_trans)
    then show ?thesis
      using 1 True by (subst uint_buf.simps)
        (simp add: parse_uint_snoc digit_value_digits unat_div unat_mod)
  next
    case False
    then show ?thesis by (subst uint_buf.simps) (simp add: parse_uint_def word_less_nat_alt unat_eq_zero)
  qed
qed

lemma length_uint_buf: "2 \<le> base \<Longrightarrow> unat n < unat base ^ k \<Longrightarrow> length (uint_buf n base) \<le> k"
proof (induction k arbitrary: n)
  case 0
  then show ?case by (subst uint_buf.simps) (simp add: unat_eq_zero)
next
  case (Suc k)
  have "unat (n div base) < unat base ^ k"
    using Suc.prems by (simp add: unat_div word_le_nat_alt less_mult_imp_div_less mult.commute)
  then show ?case using Suc by (subst uint_buf.simps) simp
qed

lemma uint_buf_digits: "2 \<le> base \<Longrightarrow> base \<le> 16 \<Longrightarrow> set (uint_buf n base) \<subseteq> set digits"
proof (induction n base rule: uint_buf.induct)
  case (1 n base)
  have "length digits = 16" by (simp add: digits_def cstr_def)
  moreover have "unat (n mod base) < 16"
    using "1.prems" by (simp add: unat_mod word_le_nat_alt) (meson le_trans mod_less_divisor not_less
      zero_less_numeral order.strict_trans1 less_le_trans)
  ultimately show ?case using 1 by (subst uint_buf.simps) (auto intro: nth_mem)
qed

lemma parse_fmt_uint: "2 \<le> base \<Longrightarrow> base \<le> 16 \<Longrightarrow> parse_uint (unat base) (fmt_uint n base) = unat n"
  by (simp add: fmt_uint_def parse_uint_buf) (simp add: parse_uint_def digit_value_def)

lemma fmt_uint_no_minus: "45 \<notin> set (fmt_uint n 10)"
proof -
  have "45 \<notin> set digits" by (simp add: digits_def cstr_def)
  then show ?thesis using uint_buf_digits [of 10 n] by (auto simp: fmt_uint_def)
qed

lemma fmt_uint_not_Nil: "fmt_uint n 10 \<noteq> []"
  by (simp add: fmt_uint_def) (subst uint_buf.simps, simp add: word_gt_0)

definition parse_int :: "bytes \<Rightarrow> int" where
  "parse_int ds = (if hd ds = 45 then - int (parse_uint 10 (tl ds)) else int (parse_uint 10 ds))"

lemma sint_cases:
  "sint (n :: u32) = (if unat n < 2147483648 then int (unat n) else int (unat n) - 4294967296)"
proof -
  define u where "u = int (unat n)"
  have u: "0 \<le> u" "u < 4294967296" unfolding u_def using unat_u32_less [of n] by linarith+
  have "sint n = (u + 2147483648) mod 4294967296 - 2147483648"
    by (simp add: u_def sint_uint signed_take_bit_eq_take_bit_shift take_bit_eq_mod)
  also have "(u + 2147483648) mod 4294967296 =
      (if u < 2147483648 then u + 2147483648 else u - 2147483648)"
  proof (cases "u < 2147483648")
    case False
    then have "(u + 2147483648) mod 4294967296 = (u - 2147483648 + 4294967296) mod 4294967296"
      by (simp add: add.commute)
    also have "\<dots> = u - 2147483648" using u False by (simp only: mod_add_self2) simp
    finally show ?thesis using False by simp
  qed (use u in simp)
  finally have "sint n = (if u < 2147483648 then u else u - 4294967296)" by simp
  moreover have "(u < 2147483648) = (unat n < 2147483648)" unfolding u_def by linarith
  ultimately show ?thesis unfolding u_def by presburger
qed

lemma unat_uminus: "(n :: u32) \<noteq> 0 \<Longrightarrow> unat (- n) = 4294967296 - unat n"
  using unat_sub_if' [of 0 n] by (simp add: unat_gt_0)

lemma parse_fmt_int: "parse_int (fmt_int n) = sint n"
proof (cases "sint n < 0")
  case True
  then have n: "\<not> unat n < 2147483648" by (simp add: sint_cases split: if_splits)
  then have "n \<noteq> 0" by auto
  have "int (unat (- n)) = - sint n"
    unfolding sint_cases if_not_P [OF n] unat_uminus [OF \<open>n \<noteq> 0\<close>] using unat_u32_less [of n] by linarith
  then show ?thesis
    using True parse_fmt_uint [of 10 "- n"] by (simp add: parse_int_def fmt_int_def)
next
  case False
  have "unat n < 2147483648"
  proof (rule ccontr)
    assume "\<not> unat n < 2147483648"
    then have "sint n = int (unat n) - 4294967296" by (simp only: sint_cases if_False)
    with False unat_u32_less [of n] show False by linarith
  qed
  then have "int (unat n) = sint n" by (simp only: sint_cases if_True)
  moreover have "hd (fmt_uint n 10) \<noteq> 45"
    using fmt_uint_no_minus fmt_uint_not_Nil list.set_sel(1) by metis
  ultimately show ?thesis
    using False parse_fmt_uint [of 10 n] by (simp add: parse_int_def fmt_int_def)
qed

subsection \<open>Properties\<close>

text \<open>A \<open>kprintf\<close> call writes exactly the text its format and arguments stand for, one
  character at a time through \<open>put\<close>; it is undefined exactly when the format is.\<close>

theorem kprintf_writes_format:
  "kprintf fmt args k = do { out \<leftarrow> kformat fmt args; puts out k }"
  by (rule kprintf_kformat)

text \<open>C39. On an initialised terminal and a UART that keeps becoming ready, a well-formed
  \<open>kprintf\<close> returns: the serial line receives exactly the formatted text, the terminal the
  same characters.\<close>

theorem kprintf_returns:
  assumes "con_inv k" "kformat fmt args = Some out"
  shows "\<exists>k'. kprintf fmt args k = Some k' \<and> con_inv k' \<and>
    terminal_write out (tty k) = Some (tty k') \<and>
    com_ports (ser k') = com_ports (ser k) @ map (Pair COM1) out"
  using puts_delivers [OF assms(1), of out] assms(2) by (metis Option.bind.bind_lunit kprintf_kformat)

theorem kprintf_returns_witness:
  "\<exists>k'. kprintf ''%d%%'' [KInt 42]
      \<lparr>tty = terminal_initialize \<lparr>terminal_row = 0, terminal_column = 0, terminal_color = 0,
         terminal_buffer = [], vga_ports = []\<rparr>,
       ser = \<lparr>lsr = (\<lambda>n. if even n then 0 else 0x60), polls = 0, com_ports = []\<rparr>\<rparr> = Some k' \<and>
    com_ports (ser k') = [(COM1, 52), (COM1, 50), (COM1, 37)]"
proof -
  let ?k = "\<lparr>tty = terminal_initialize \<lparr>terminal_row = 0, terminal_column = 0, terminal_color = 0,
      terminal_buffer = [], vga_ports = []\<rparr>,
    ser = \<lparr>lsr = (\<lambda>n. if even n then 0 else 0x60), polls = 0, com_ports = []\<rparr>\<rparr>"
  have "uart_live (ser ?k)"
    unfolding uart_live_def by (rule allI, rule_tac x = "2 * n + 1" in exI) simp
  then have "con_inv ?k" by (simp add: con_inv_def terminal_initialize_inv)
  moreover have "kformat ''%d%%'' [KInt 42] = Some [52, 50, 37]"
    by (simp add: fmt_int_def fmt_uint_def uint_buf.simps digits_def cstr_def)
  ultimately show ?thesis
    using kprintf_returns [of ?k "''%d%%''" "[KInt 42]" "[52, 50, 37]"] by auto
qed

text \<open>\<open>%d\<close> prints the signed value of its argument and \<open>%u\<close>, \<open>%x\<close> the unsigned one:
  reading the digits back gives the number, also for the most negative integer.\<close>

theorem number_output_roundtrip:
  "parse_int (fmt_int n) = sint n \<and> parse_uint 10 (fmt_uint n 10) = unat n \<and>
   parse_uint 16 (fmt_uint n 16) = unat n"
  using parse_fmt_int parse_fmt_uint [of 10 n] parse_fmt_uint [of 16 n] by simp

text \<open>The digits never overrun the 32-byte \<open>buf\<close> of \<open>print_uint\<close>: at most 10 in base 10
  and 8 in base 16; nor the 10-byte \<open>buf\<close> of \<open>terminal_writeuint\<close>.\<close>

theorem number_buffers_bounded:
  "length (uint_buf n 10) \<le> 10 \<and> length (uint_buf n 16) \<le> 8 \<and> length (writeuint_buf n) \<le> 10"
proof -
  have "length (writeuint_buf m) = length (uint_buf m 10)" for m
    by (induction m rule: writeuint_buf.induct) (subst writeuint_buf.simps, subst uint_buf.simps, simp)
  moreover have "unat n < unat (10 :: u32) ^ 10" "unat n < unat (16 :: u32) ^ 8"
    by (rule less_le_trans [OF unat_u32_less], simp)+
  ultimately show ?thesis
    using length_uint_buf [of 10 n 10] length_uint_buf [of 16 n 8] by simp
qed

end
