(* ===== verification/Pmm.thy ===== *)
theory Pmm
  imports Kprintf
begin

text \<open>
  The physical memory manager, \<open>kernel/pmm.c\<close>: one bit per 4 KB page frame, 1 for used.
\<close>

definition PAGE_SIZE :: u32 where "PAGE_SIZE = 4096"
definition MAX_PAGES :: u32 where "MAX_PAGES = 32768"
definition BITMAP_SIZE :: u32 where "BITMAP_SIZE = MAX_PAGES div 32"

record pmm =
  bitmap :: "u32 list"
  total_pages :: u32
  used_pages :: u32

definition bitmap_set :: "u32 \<Rightarrow> u32 list \<Rightarrow> u32 list option" where
  "bitmap_set page bm =
     (if unat (page div 32) < length bm
      then Some (bm[unat (page div 32) :=
             bm ! unat (page div 32) OR push_bit (unat (page mod 32)) 1])
      else None)"

definition bitmap_clear :: "u32 \<Rightarrow> u32 list \<Rightarrow> u32 list option" where
  "bitmap_clear page bm =
     (if unat (page div 32) < length bm
      then Some (bm[unat (page div 32) :=
             bm ! unat (page div 32) AND NOT (push_bit (unat (page mod 32)) 1)])
      else None)"

definition bitmap_test :: "u32 \<Rightarrow> u32 list \<Rightarrow> u32 option" where
  "bitmap_test page bm =
     (if unat (page div 32) < length bm
      then Some (bm ! unat (page div 32) AND push_bit (unat (page mod 32)) 1)
      else None)"

text \<open>The loop of \<open>pmm_init\<close> that frees the pages from \<open>i\<close> on.\<close>

function pmm_init_loop :: "u32 \<Rightarrow> pmm \<Rightarrow> pmm option" where
  "pmm_init_loop i s =
     (if i < total_pages s
      then do { bm \<leftarrow> bitmap_clear i (bitmap s);
                pmm_init_loop (i + 1) (s\<lparr>bitmap := bm, used_pages := used_pages s - 1\<rparr>) }
      else Some s)"
  by pat_completeness auto
termination
  by (relation "measure (\<lambda>(i, s). unat (total_pages s) - unat i)") (auto simp: word_less_nat_alt)

text \<open>
  \<open>pmm_init\<close> takes the static state the kernel boots with, \<open>mem_upper\<close> in KB and the
  linker's \<open>kernel_end\<close>.
\<close>

definition pmm_init :: "u32 \<Rightarrow> u32 \<Rightarrow> pmm \<Rightarrow> (pmm \<times> msg list) option" where
  "pmm_init kernel_end mem_upper s =
     (let tp = (mem_upper + 1024) div 4;
          tp = (if MAX_PAGES < tp then MAX_PAGES else tp);
          s = s\<lparr>total_pages := tp,
                bitmap := replicate (unat BITMAP_SIZE) 0xFFFFFFFF\<rparr>;
          kernel_end_page = (kernel_end + PAGE_SIZE - 1) div PAGE_SIZE
      in do { s \<leftarrow> pmm_init_loop kernel_end_page s;
              let s = s\<lparr>used_pages := kernel_end_page\<rparr>;
              Some (s, [(''PMM: %d pages total, %d used by kernel, %d free'' @ nl,
                         [KInt (total_pages s), KInt (used_pages s),
                          KInt (total_pages s - used_pages s)])]) })"

function pmm_alloc_loop :: "u32 \<Rightarrow> pmm \<Rightarrow> (pmm \<times> u32) option" where
  "pmm_alloc_loop i s =
     (if i < total_pages s
      then do { t \<leftarrow> bitmap_test i (bitmap s);
                if t = 0
                then do { bm \<leftarrow> bitmap_set i (bitmap s);
                          Some (s\<lparr>bitmap := bm, used_pages := used_pages s + 1\<rparr>, i * PAGE_SIZE) }
                else pmm_alloc_loop (i + 1) s }
      else Some (s, 0))"
  by pat_completeness auto
termination
  by (relation "measure (\<lambda>(i, s). unat (total_pages s) - unat i)") (auto simp: word_less_nat_alt)

definition pmm_alloc :: "pmm \<Rightarrow> (pmm \<times> u32) option" where
  "pmm_alloc s = pmm_alloc_loop 0 s"

definition pmm_free :: "u32 \<Rightarrow> pmm \<Rightarrow> pmm option" where
  "pmm_free addr s =
     (let page = addr div PAGE_SIZE
      in do { bm \<leftarrow> bitmap_clear page (bitmap s);
              Some (s\<lparr>bitmap := bm, used_pages := used_pages s - 1\<rparr>) })"

definition pmm_free_pages :: "pmm \<Rightarrow> u32" where
  "pmm_free_pages s = total_pages s - used_pages s"

declare pmm_init_loop.simps [simp del] pmm_alloc_loop.simps [simp del]

subsection \<open>The bitmap as a set of free frames\<close>

definition page_bit :: "u32 list \<Rightarrow> nat \<Rightarrow> bool" where
  "page_bit bm p = bit (bm ! (p div 32)) (p mod 32)"

definition free_frames :: "pmm \<Rightarrow> nat set" where
  "free_frames s = {p. p < unat (total_pages s) \<and> \<not> page_bit (bitmap s) p}"

text \<open>
  The invariant: the array has its declared length, page 0 is never handed out (its
  address would read as the null pointer), frames past the end of memory are marked used,
  and the counter counts the frames in use.
\<close>

definition pmm_inv :: "pmm \<Rightarrow> bool" where
  "pmm_inv s \<longleftrightarrow> length (bitmap s) = 1024 \<and> unat (total_pages s) \<le> 32768 \<and> page_bit (bitmap s) 0 \<and>
     unat (used_pages s) + card (free_frames s) = unat (total_pages s)"

lemma unat_page_index [simp]:
  "unat ((p :: u32) div 32) = unat p div 32" "unat (p mod 32) = unat p mod 32"
  by (simp_all add: unat_div unat_mod)

lemma bitmap_test_spec:
  assumes "length bm = 1024" "unat p < 32768"
  obtains t where "bitmap_test p bm = Some t" "(t = 0) = (\<not> page_bit bm (unat p))"
proof
  show "bitmap_test p bm = Some (bm ! (unat p div 32) AND push_bit (unat p mod 32) 1)"
    using assms by (simp add: bitmap_test_def)
  show "(bm ! (unat p div 32) AND push_bit (unat p mod 32) 1 = 0) = (\<not> page_bit bm (unat p))"
    by (simp add: page_bit_def and_exp_eq_0_iff_not_bit)
qed

lemma page_bit_update:
  assumes "length bm = 1024" "p < 32768" "q < 32768"
    and "\<And>i. i < 32 \<Longrightarrow> bit w i = (if i = p mod 32 then b else bit (bm ! (p div 32)) i)"
  shows "page_bit (bm[p div 32 := w]) q = (if q = p then b else page_bit bm q)"
proof (cases "q div 32 = p div 32")
  case True
  then have "(q = p) = (q mod 32 = p mod 32)" by (metis div_mult_mod_eq)
  with assms True show ?thesis by (simp add: page_bit_def)
next
  case False
  with assms show ?thesis by (auto simp: page_bit_def)
qed

lemma bitmap_set_spec:
  assumes "length bm = 1024" "unat p < 32768"
  obtains bm' where "bitmap_set p bm = Some bm'" "length bm' = 1024"
    "\<And>q. q < 32768 \<Longrightarrow> page_bit bm' q = (q = unat p \<or> page_bit bm q)"
proof
  let ?bm' = "bm[unat p div 32 := bm ! (unat p div 32) OR push_bit (unat p mod 32) 1]"
  show "bitmap_set p bm = Some ?bm'" "length ?bm' = 1024"
    using assms by (simp_all add: bitmap_set_def)
  show "page_bit ?bm' q = (q = unat p \<or> page_bit bm q)" if "q < 32768" for q
    using page_bit_update [of bm "unat p" q _ True] assms that
    by (auto simp: bit_simps)
qed

lemma bitmap_clear_spec:
  assumes "length bm = 1024" "unat p < 32768"
  obtains bm' where "bitmap_clear p bm = Some bm'" "length bm' = 1024"
    "\<And>q. q < 32768 \<Longrightarrow> page_bit bm' q = (q \<noteq> unat p \<and> page_bit bm q)"
proof
  let ?bm' = "bm[unat p div 32 := bm ! (unat p div 32) AND NOT (push_bit (unat p mod 32) 1)]"
  show "bitmap_clear p bm = Some ?bm'" "length ?bm' = 1024"
    using assms by (simp_all add: bitmap_clear_def)
  show "page_bit ?bm' q = (q \<noteq> unat p \<and> page_bit bm q)" if "q < 32768" for q
    using page_bit_update [of bm "unat p" q _ False] assms that
    by (auto simp: bit_simps)
qed

subsection \<open>Allocation and release\<close>

lemma free_frames_finite [simp]: "finite (free_frames s)"
  by (rule finite_subset [of _ "{..<unat (total_pages s)}"]) (auto simp: free_frames_def)

lemma free_frames_bound: "pmm_inv s \<Longrightarrow> p \<in> free_frames s \<Longrightarrow> 0 < p \<and> p < 32768"
  by (cases "p = 0") (auto simp: free_frames_def pmm_inv_def)

lemma unat_page_address: "unat (p :: u32) < 32768 \<Longrightarrow> unat (p * PAGE_SIZE) = unat p * 4096"
  by (simp add: PAGE_SIZE_def unat_mult_u32)

text \<open>The scan returns the first free frame at or after its start, or runs to the end.\<close>

lemma pmm_alloc_loop_spec:
  assumes "length (bitmap s) = 1024" "unat (total_pages s) \<le> 32768"
  shows "if \<exists>p \<in> free_frames s. unat i \<le> p
    then \<exists>j bm. pmm_alloc_loop i s = Some (s\<lparr>bitmap := bm, used_pages := used_pages s + 1\<rparr>, j * PAGE_SIZE) \<and>
           length bm = 1024 \<and> (\<forall>q < 32768. page_bit bm q = (q = unat j \<or> page_bit (bitmap s) q)) \<and>
           unat j \<in> free_frames s \<and> (\<forall>p \<in> free_frames s. unat i \<le> p \<longrightarrow> unat j \<le> p)
    else pmm_alloc_loop i s = Some (s, 0)"
  using assms
proof (induction i s rule: pmm_alloc_loop.induct)
  case (1 i s)
  show ?case
  proof (cases "i < total_pages s")
    case False
    then have "\<not> (\<exists>p \<in> free_frames s. unat i \<le> p)"
      by (auto simp: free_frames_def word_less_nat_alt)
    with False show ?thesis by (simp add: pmm_alloc_loop.simps [of i s])
  next
    case True
    then have i: "unat i < 32768" "unat i < unat (total_pages s)"
      using "1.prems" by (auto simp: word_less_nat_alt)
    obtain t where t: "bitmap_test i (bitmap s) = Some t" "(t = 0) = (\<not> page_bit (bitmap s) (unat i))"
      using bitmap_test_spec "1.prems"(1) i(1) by blast
    show ?thesis
    proof (cases "t = 0")
      case True
      obtain bm where bm: "bitmap_set i (bitmap s) = Some bm" "length bm = 1024"
        "\<And>q. q < 32768 \<Longrightarrow> page_bit bm q = (q = unat i \<or> page_bit (bitmap s) q)"
        using bitmap_set_spec "1.prems"(1) i(1) by blast
      have "unat i \<in> free_frames s" using True t i by (simp add: free_frames_def)
      then show ?thesis
        using True t bm \<open>i < total_pages s\<close> by (auto simp: pmm_alloc_loop.simps [of i s])
    next
      case False
      then have "(unat (i + 1) \<le> p) = (unat i \<le> p)" if "p \<in> free_frames s" for p
        using t that \<open>i < total_pages s\<close> by (auto simp: free_frames_def Suc_le_eq le_eq_less_or_eq)
      moreover have "pmm_alloc_loop i s = pmm_alloc_loop (i + 1) s"
        using False t \<open>i < total_pages s\<close> by (simp add: pmm_alloc_loop.simps [of i s])
      ultimately show ?thesis
        using "1.IH" [OF \<open>i < total_pages s\<close> t(1) False] "1.prems" by (simp cong: if_cong)
    qed
  qed
qed

lemma card_remove_free:
  assumes "\<forall>q < 32768. page_bit bm q = (q = j \<or> page_bit (bitmap s) q)"
    and "j \<in> free_frames s" "unat (total_pages s) \<le> 32768"
  shows "free_frames (s\<lparr>bitmap := bm, used_pages := u\<rparr>) = free_frames s - {j}"
  using assms by (auto simp: free_frames_def)

lemma card_add_free:
  assumes "\<forall>q < 32768. page_bit bm q = (q \<noteq> j \<and> page_bit (bitmap s) q)"
    and "j < unat (total_pages s)" "unat (total_pages s) \<le> 32768"
  shows "free_frames (s\<lparr>bitmap := bm, used_pages := u\<rparr>) = insert j (free_frames s)"
  using assms by (auto simp: free_frames_def)

lemma pmm_inv_alloc:
  assumes "pmm_inv s" "j \<in> free_frames s" "length bm = 1024"
    and "\<forall>q < 32768. page_bit bm q = (q = j \<or> page_bit (bitmap s) q)"
  shows "pmm_inv (s\<lparr>bitmap := bm, used_pages := used_pages s + 1\<rparr>)"
proof -
  let ?s' = "s\<lparr>bitmap := bm, used_pages := used_pages s + 1\<rparr>"
  have F: "free_frames ?s' = free_frames s - {j}"
    using assms by (intro card_remove_free) (simp_all add: pmm_inv_def)
  have "card (free_frames s) = Suc (card (free_frames ?s'))"
    unfolding F by (rule card.remove [OF free_frames_finite assms(2)])
  moreover have "unat (used_pages s) + card (free_frames s) = unat (total_pages s)"
    "unat (total_pages s) \<le> 32768"
    using assms(1) by (simp_all add: pmm_inv_def)
  ultimately have "unat (used_pages s + 1) + card (free_frames ?s') = unat (total_pages s)"
    using unat_add_u32 [of "used_pages s" 1] by simp
  then show ?thesis using assms by (simp add: pmm_inv_def)
qed

lemma pmm_alloc_cases:
  assumes "pmm_inv s"
  obtains (empty) "free_frames s = {}" "pmm_alloc s = Some (s, 0)"
  | (frame) s' a where "free_frames s \<noteq> {}" "pmm_alloc s = Some (s', a)" "pmm_inv s'"
      "unat a = 4096 * Min (free_frames s)" "free_frames s' = free_frames s - {Min (free_frames s)}"
      "total_pages s' = total_pages s"
proof (cases "free_frames s = {}")
  case True
  then show ?thesis
    using empty assms pmm_alloc_loop_spec [of s 0] by (simp add: pmm_alloc_def pmm_inv_def)
next
  case False
  obtain j bm where j: "pmm_alloc s = Some (s\<lparr>bitmap := bm, used_pages := used_pages s + 1\<rparr>, j * PAGE_SIZE)"
    "length bm = 1024" "\<forall>q < 32768. page_bit bm q = (q = unat j \<or> page_bit (bitmap s) q)"
    "unat j \<in> free_frames s" "\<forall>p \<in> free_frames s. unat j \<le> p"
    using pmm_alloc_loop_spec [of s 0] assms False that
    by (simp add: pmm_alloc_def pmm_inv_def ex_in_conv) blast
  have "Min (free_frames s) = unat j"
    using j(4,5) by (intro Min_eqI) auto
  then show ?thesis
    using frame [OF False j(1) pmm_inv_alloc [OF assms j(4,2,3)]] j assms
      unat_page_address [of j] free_frames_bound [OF assms j(4)]
    by (simp add: card_remove_free pmm_inv_def)
qed

lemma unat_page_of [simp]: "unat (a div PAGE_SIZE) = unat a div 4096"
  by (simp add: unat_div PAGE_SIZE_def)

lemma pmm_free_spec:
  assumes "pmm_inv s" "unat a div 4096 < unat (total_pages s)"
    "unat a div 4096 \<notin> free_frames s" "unat a div 4096 \<noteq> 0"
  obtains s' where "pmm_free a s = Some s'" "pmm_inv s'" "total_pages s' = total_pages s"
    "free_frames s' = insert (unat a div 4096) (free_frames s)"
proof -
  let ?p = "unat a div 4096"
  have p: "?p < 32768" using assms(1,2) by (simp add: pmm_inv_def)
  obtain bm where bm: "bitmap_clear (a div PAGE_SIZE) (bitmap s) = Some bm" "length bm = 1024"
    "\<forall>q < 32768. page_bit bm q = (q \<noteq> ?p \<and> page_bit (bitmap s) q)"
    using bitmap_clear_spec [of "bitmap s" "a div PAGE_SIZE"] assms(1) p
    by (auto simp: pmm_inv_def)
  let ?s' = "s\<lparr>bitmap := bm, used_pages := used_pages s - 1\<rparr>"
  have F: "free_frames ?s' = insert ?p (free_frames s)"
    using bm(3) assms(1,2) by (intro card_add_free) (simp_all add: pmm_inv_def)
  have "insert ?p (free_frames s) \<subseteq> {..<unat (total_pages s)}"
    using assms(2) by (auto simp: free_frames_def)
  then have "card (insert ?p (free_frames s)) \<le> unat (total_pages s)"
    using card_mono [of "{..<unat (total_pages s)}"] by simp
  then have "unat (used_pages s - 1) + card (free_frames ?s') = unat (total_pages s)"
    using assms(1,3) F unat_sub_u32 [of 1 "used_pages s"] by (simp add: pmm_inv_def)
  then have "pmm_inv ?s'"
    using assms bm F by (simp add: pmm_inv_def)
  then show ?thesis
    using that F bm(1) by (simp add: pmm_free_def)
qed

lemma pmm_free_pages_card: "pmm_inv s \<Longrightarrow> unat (pmm_free_pages s) = card (free_frames s)"
  by (auto simp: pmm_free_pages_def pmm_inv_def unat_sub_u32)

subsection \<open>Initialisation\<close>

lemma pmm_init_loop_spec:
  assumes "length (bitmap s) = 1024" "unat (total_pages s) \<le> 32768"
  shows "\<exists>bm u. pmm_init_loop i s = Some (s\<lparr>bitmap := bm, used_pages := u\<rparr>) \<and> length bm = 1024 \<and>
    (\<forall>q < 32768. page_bit bm q = (page_bit (bitmap s) q \<and> \<not> (unat i \<le> q \<and> q < unat (total_pages s))))"
  using assms
proof (induction i s rule: pmm_init_loop.induct)
  case (1 i s)
  show ?case
  proof (cases "i < total_pages s")
    case False
    then show ?thesis
      using "1.prems" pmm.surjective [of s]
      by (intro exI [of _ "bitmap s"] exI [of _ "used_pages s"])
        (auto simp: pmm_init_loop.simps [of i s] word_less_nat_alt)
  next
    case True
    then have i: "unat i < 32768" "unat (i + 1) = Suc (unat i)" "unat i < unat (total_pages s)"
      using "1.prems" by (auto simp: word_less_nat_alt)
    obtain bm where bm: "bitmap_clear i (bitmap s) = Some bm" "length bm = 1024"
      "\<And>q. q < 32768 \<Longrightarrow> page_bit bm q = (q \<noteq> unat i \<and> page_bit (bitmap s) q)"
      using bitmap_clear_spec "1.prems"(1) i(1) by blast
    obtain bm' u where "pmm_init_loop (i + 1) (s\<lparr>bitmap := bm, used_pages := used_pages s - 1\<rparr>) =
        Some (s\<lparr>bitmap := bm', used_pages := u\<rparr>)" "length bm' = 1024"
      "\<forall>q < 32768. page_bit bm' q = (page_bit bm q \<and> \<not> (unat (i + 1) \<le> q \<and> q < unat (total_pages s)))"
      using "1.IH" [OF True bm(1)] "1.prems" bm(2) by auto
    then show ?thesis
      using True bm i by (intro exI [of _ bm'] exI [of _ u])
        (auto simp: pmm_init_loop.simps [of i s] Suc_le_eq le_eq_less_or_eq)
  qed
qed

lemma page_bit_all_ones: "q < 32768 \<Longrightarrow> page_bit (replicate 1024 0xFFFFFFFF) q"
proof -
  assume "q < 32768"
  have "(0xFFFFFFFF :: u32) = NOT 0" by simp
  moreover have "bit (NOT (0 :: u32)) (q mod 32)" by (simp add: bit_not_iff)
  ultimately have "bit (0xFFFFFFFF :: u32) (q mod 32)" by metis
  with \<open>q < 32768\<close> show ?thesis by (simp add: page_bit_def)
qed

definition kernel_pages :: "u32 \<Rightarrow> nat" where
  "kernel_pages kernel_end = (unat kernel_end + 4095) div 4096"

definition memory_pages :: "u32 \<Rightarrow> nat" where
  "memory_pages mem_upper = min 32768 ((unat mem_upper + 1024) div 4)"

lemma unat_kernel_end_page:
  "unat k + 4095 < 4294967296 \<Longrightarrow> unat ((k + PAGE_SIZE - 1) div PAGE_SIZE) = kernel_pages k"
proof -
  assume "unat k + 4095 < 4294967296"
  then have "unat (k + 4095) = unat k + 4095" by (simp add: unat_add_u32)
  then show ?thesis by (simp add: kernel_pages_def PAGE_SIZE_def unat_div add_diff_eq [symmetric])
qed

lemma unat_init_total:
  "unat m + 1024 < 4294967296 \<Longrightarrow>
   unat (if MAX_PAGES < (m + 1024) div 4 then MAX_PAGES else (m + 1024) div 4) = memory_pages m"
  by (simp add: memory_pages_def MAX_PAGES_def word_less_nat_alt unat_div unat_add_u32 min_def)

lemma pmm_init_spec:
  assumes "0 < unat k" "unat k + 4095 < 4294967296" "unat m + 1024 < 4294967296"
    and "kernel_pages k \<le> memory_pages m"
  obtains s' ms where "pmm_init k m s = Some (s', ms)" "pmm_inv s'"
    "free_frames s' = {kernel_pages k..<memory_pages m}" "unat (total_pages s') = memory_pages m"
proof -
  let ?tp = "if MAX_PAGES < (m + 1024) div 4 then MAX_PAGES else (m + 1024) div 4"
  let ?k = "(k + PAGE_SIZE - 1) div PAGE_SIZE"
  let ?s0 = "s\<lparr>total_pages := ?tp, bitmap := replicate (unat BITMAP_SIZE) 0xFFFFFFFF\<rparr>"
  have tp: "unat ?tp = memory_pages m" "memory_pages m \<le> 32768"
    using unat_init_total [OF assms(3)] by (simp_all add: memory_pages_def)
  have ones: "length (bitmap ?s0) = 1024" "q < 32768 \<Longrightarrow> page_bit (bitmap ?s0) q" for q
    using page_bit_all_ones by (simp_all add: BITMAP_SIZE_def MAX_PAGES_def)
  obtain bm u where r: "pmm_init_loop ?k ?s0 = Some (?s0\<lparr>bitmap := bm, used_pages := u\<rparr>)" "length bm = 1024"
    "\<forall>q < 32768. page_bit bm q = (page_bit (bitmap ?s0) q \<and> \<not> (unat ?k \<le> q \<and> q < unat (total_pages ?s0)))"
    using pmm_init_loop_spec [of ?s0 ?k] ones(1) tp by auto
  let ?s = "?s0\<lparr>bitmap := bm, used_pages := ?k\<rparr>"
  note k = unat_kernel_end_page [OF assms(2)]
  have bits: "page_bit bm q = (\<not> (kernel_pages k \<le> q \<and> q < memory_pages m))" if "q < 32768" for q
    using r(3) ones(2) that k tp by simp
  have F: "free_frames ?s = {kernel_pages k..<memory_pages m}"
    using bits tp by (auto simp: free_frames_def)
  have "0 < kernel_pages k" using assms(1) by (simp add: kernel_pages_def)
  then have "pmm_inv ?s"
    using r(2) bits [of 0] tp k F assms(4) by (simp add: pmm_inv_def)
  moreover have "\<exists>ms. pmm_init k m s = Some (?s, ms)"
    using r(1) by (simp add: pmm_init_def Let_def)
  ultimately show ?thesis
    using that F tp by auto
qed

subsection \<open>What the clients of the frame allocator rely on\<close>

text \<open>
  The paging code, the heap and the program loader ask for frames one at a time and test
  the result against the null pointer. The interface states what they get: the lowest
  free frame, page aligned and never 0, or 0 when there is none; it never fails otherwise.
\<close>

locale frame_allocator =
  fixes alloc :: "'s \<Rightarrow> ('s \<times> u32) option"
    and release :: "u32 \<Rightarrow> 's \<Rightarrow> 's option"
    and inv :: "'s \<Rightarrow> bool"
    and frames :: "'s \<Rightarrow> nat set"
    and total :: "'s \<Rightarrow> nat"
  assumes frames_bound: "inv s \<Longrightarrow> p \<in> frames s \<Longrightarrow> 0 < p \<and> p < total s \<and> p < 32768"
    and alloc_empty: "inv s \<Longrightarrow> frames s = {} \<Longrightarrow> alloc s = Some (s, 0)"
    and alloc_frame: "inv s \<Longrightarrow> frames s \<noteq> {} \<Longrightarrow>
      \<exists>s' a. alloc s = Some (s', a) \<and> inv s' \<and> unat a = 4096 * Min (frames s) \<and>
        frames s' = frames s - {Min (frames s)} \<and> total s' = total s"
    and release_frame: "inv s \<Longrightarrow> unat a div 4096 < total s \<Longrightarrow> unat a div 4096 \<notin> frames s \<Longrightarrow>
      unat a div 4096 \<noteq> 0 \<Longrightarrow> \<exists>s'. release a s = Some s' \<and> inv s' \<and> total s' = total s \<and>
        frames s' = insert (unat a div 4096) (frames s)"
begin

lemma finite_frames: "inv s \<Longrightarrow> finite (frames s)"
  by (rule finite_subset [of _ "{..<32768}"]) (auto dest: frames_bound)

lemma Min_frames: "inv s \<Longrightarrow> frames s \<noteq> {} \<Longrightarrow> Min (frames s) \<in> frames s"
  by (simp add: finite_frames)

lemma alloc_returns: "inv s \<Longrightarrow> \<exists>s' a. alloc s = Some (s', a)"
  by (metis alloc_empty alloc_frame)

lemma alloc_null_iff:
  assumes "inv s" "alloc s = Some (s', a)"
  shows "(a = 0) = (frames s = {})"
proof (cases "frames s = {}")
  case True
  then show ?thesis using alloc_empty assms by simp
next
  case False
  then have "unat a = 4096 * Min (frames s)" using alloc_frame [OF assms(1)] assms(2) by auto
  moreover have "0 < Min (frames s)" using frames_bound Min_frames assms(1) False by blast
  ultimately have "unat a \<noteq> 0" by simp
  then show ?thesis using False by auto
qed

lemma alloc_inv: "inv s \<Longrightarrow> alloc s = Some (s', a) \<Longrightarrow> inv s' \<and> total s' = total s"
  using alloc_empty [of s] alloc_frame [of s] by (cases "frames s = {}") auto

lemma alloc_fresh:
  assumes "inv s" "alloc s = Some (s', a)" "a \<noteq> 0"
  shows "unat a div 4096 \<in> frames s" "unat a mod 4096 = 0"
    "frames s' = frames s - {unat a div 4096}"
proof -
  have ne: "frames s \<noteq> {}" using assms alloc_null_iff by blast
  then have "unat a = 4096 * Min (frames s)" "frames s' = frames s - {Min (frames s)}"
    using alloc_frame [OF assms(1) ne] assms(2) by auto
  then show "unat a div 4096 \<in> frames s" "unat a mod 4096 = 0"
    "frames s' = frames s - {unat a div 4096}"
    using Min_frames [OF assms(1) ne] by simp_all
qed

lemma alloc_release:
  assumes "inv s" "alloc s = Some (s', a)" "a \<noteq> 0"
  shows "\<exists>s''. release a s' = Some s'' \<and> inv s'' \<and> frames s'' = frames s"
proof -
  note f = alloc_fresh [OF assms]
  show ?thesis
    using release_frame [of s' a] alloc_inv [OF assms(1,2)] frames_bound [OF assms(1) f(1)] f
    by auto
qed

end

interpretation frames: frame_allocator pmm_alloc pmm_free pmm_inv free_frames
    "\<lambda>s. unat (total_pages s)"
proof unfold_locales
  fix s p
  assume "pmm_inv s" "p \<in> free_frames s"
  then show "0 < p \<and> p < unat (total_pages s) \<and> p < 32768"
    using free_frames_bound by (auto simp: free_frames_def)
next
  fix s
  assume "pmm_inv s" "free_frames s = {}"
  then show "pmm_alloc s = Some (s, 0)" by (metis pmm_alloc_cases)
next
  fix s
  assume "pmm_inv s" "free_frames s \<noteq> {}"
  then show "\<exists>s' a. pmm_alloc s = Some (s', a) \<and> pmm_inv s' \<and> unat a = 4096 * Min (free_frames s) \<and>
      free_frames s' = free_frames s - {Min (free_frames s)} \<and> unat (total_pages s') = unat (total_pages s)"
    by (metis pmm_alloc_cases)
next
  fix s and a :: u32
  assume "pmm_inv s" "unat a div 4096 < unat (total_pages s)" "unat a div 4096 \<notin> free_frames s"
    "unat a div 4096 \<noteq> 0"
  then show "\<exists>s'. pmm_free a s = Some s' \<and> pmm_inv s' \<and> unat (total_pages s') = unat (total_pages s) \<and>
      free_frames s' = insert (unat a div 4096) (free_frames s)"
    by (metis pmm_free_spec)
qed

text \<open>
  A concrete boot, with the memory size and kernel size of the boot log
  (\<open>serial.log\<close>: 129920 KB, 527 kernel pages, 32209 free).
\<close>

definition pmm_boot :: pmm where
  "pmm_boot = fst (the (pmm_init 2158592 129920 \<lparr>bitmap = [], total_pages = 0, used_pages = 0\<rparr>))"

lemma pmm_boot_state:
  "pmm_inv pmm_boot" "free_frames pmm_boot = {527..<32736}" "unat (total_pages pmm_boot) = 32736"
proof -
  obtain s ms where "pmm_init 2158592 129920 \<lparr>bitmap = [], total_pages = 0, used_pages = 0\<rparr> = Some (s, ms)"
    "pmm_inv s" "free_frames s = {527..<32736}" "unat (total_pages s) = 32736"
    by (rule pmm_init_spec [of 2158592 129920]) (simp_all add: kernel_pages_def memory_pages_def)
  then show "pmm_inv pmm_boot" "free_frames pmm_boot = {527..<32736}" "unat (total_pages pmm_boot) = 32736"
    by (simp_all add: pmm_boot_def)
qed

lemma pmm_boot_Min: "Min (free_frames pmm_boot) = 527"
  unfolding pmm_boot_state by (rule Min_eqI) auto

subsection \<open>Properties\<close>

text \<open>C18. \<open>pmm_init\<close> never accesses the bitmap out of range and leaves exactly the frames
  between the end of the kernel and the end of memory (at most 128 MB) free, with the
  used-page counter matching.\<close>

theorem pmm_init_establishes:
  assumes "0 < unat kernel_end" "unat kernel_end + 4095 < 4294967296"
    and "unat mem_upper + 1024 < 4294967296"
    and "kernel_pages kernel_end \<le> memory_pages mem_upper"
  shows "\<exists>s' ms. pmm_init kernel_end mem_upper s = Some (s', ms) \<and> pmm_inv s' \<and>
    free_frames s' = {kernel_pages kernel_end..<memory_pages mem_upper}"
  using assms by (metis pmm_init_spec)

theorem pmm_init_establishes_witness:
  "\<exists>s' ms. pmm_init 2158592 129920 \<lparr>bitmap = [], total_pages = 0, used_pages = 0\<rparr> = Some (s', ms) \<and>
    pmm_inv s' \<and> free_frames s' = {527..<32736}"
  using pmm_init_establishes [of 2158592 129920]
  by (simp add: kernel_pages_def memory_pages_def)

text \<open>C17. \<open>pmm_alloc\<close> implements first-fit allocation over the set of free frames: it
  always returns, gives the address of the lowest free frame and takes exactly that frame
  out of the set, or gives 0 and changes nothing when no frame is free.\<close>

theorem pmm_alloc_first_fit:
  assumes "pmm_inv s"
  shows "if free_frames s = {} then pmm_alloc s = Some (s, 0)
    else \<exists>s' a. pmm_alloc s = Some (s', a) \<and> pmm_inv s' \<and> unat a = 4096 * Min (free_frames s) \<and>
      a \<noteq> 0 \<and> free_frames s' = free_frames s - {Min (free_frames s)}"
  using frames.alloc_empty [OF assms] frames.alloc_frame [OF assms] frames.alloc_null_iff [OF assms]
  by (cases "free_frames s = {}") (simp, metis)

theorem pmm_alloc_first_fit_witness:
  "\<exists>s' a. pmm_alloc pmm_boot = Some (s', a) \<and> pmm_inv s' \<and> unat a = 2158592 \<and>
     free_frames s' = {528..<32736}"
proof -
  have "{527..<32736} - {527} = {528..<32736 :: nat}" by auto
  then show ?thesis
    using pmm_alloc_first_fit [OF pmm_boot_state(1)] pmm_boot_Min pmm_boot_state(2) by auto
qed

text \<open>Freeing the frame just allocated always succeeds and gives the set of free frames
  back.\<close>

theorem pmm_alloc_free_roundtrip:
  assumes "pmm_inv s" "pmm_alloc s = Some (s', a)" "a \<noteq> 0"
  shows "\<exists>s''. pmm_free a s' = Some s'' \<and> pmm_inv s'' \<and> free_frames s'' = free_frames s"
  using assms by (rule frames.alloc_release)

theorem pmm_alloc_free_roundtrip_witness:
  "\<exists>s' a s''. pmm_alloc pmm_boot = Some (s', a) \<and> a \<noteq> 0 \<and> pmm_free a s' = Some s'' \<and>
     free_frames s'' = {527..<32736}"
proof -
  obtain s' a where a: "pmm_alloc pmm_boot = Some (s', a)"
    using frames.alloc_returns [OF pmm_boot_state(1)] by blast
  then have "a \<noteq> 0"
    using frames.alloc_null_iff [OF pmm_boot_state(1) a] pmm_boot_state(2) by simp
  then show ?thesis
    using pmm_alloc_free_roundtrip [OF pmm_boot_state(1) a] a pmm_boot_state(2) by auto
qed

text \<open>\<open>pmm_free_pages\<close> is the number of free frames.\<close>

theorem pmm_free_pages_counts:
  assumes "pmm_inv s"
  shows "unat (pmm_free_pages s) = card (free_frames s)"
  using assms by (rule pmm_free_pages_card)

theorem pmm_free_pages_counts_witness: "unat (pmm_free_pages pmm_boot) = 32209"
  using pmm_free_pages_counts [OF pmm_boot_state(1)] pmm_boot_state(2) by simp

text \<open>\<open>pmm_free\<close> does not notice a frame that is already free: the free set is
  unchanged but the counter is decremented, so one more free page is reported than exists.\<close>

theorem pmm_double_free_miscounts:
  assumes "pmm_inv s" "p \<in> free_frames s" "unat (used_pages s) \<noteq> 0" "unat a = 4096 * p"
  shows "\<exists>s'. pmm_free a s = Some s' \<and> free_frames s' = free_frames s \<and>
    unat (pmm_free_pages s') = card (free_frames s') + 1"
proof -
  have p: "unat (a div PAGE_SIZE) = p" "p < 32768" "\<not> page_bit (bitmap s) p"
    using assms free_frames_bound by (auto simp: free_frames_def)
  obtain bm where bm: "bitmap_clear (a div PAGE_SIZE) (bitmap s) = Some bm"
    "\<And>q. q < 32768 \<Longrightarrow> page_bit bm q = (q \<noteq> p \<and> page_bit (bitmap s) q)"
    using bitmap_clear_spec [of "bitmap s" "a div PAGE_SIZE"] assms(1) p by (metis pmm_inv_def)
  let ?s' = "s\<lparr>bitmap := bm, used_pages := used_pages s - 1\<rparr>"
  have "free_frames ?s' = free_frames s"
    using bm(2) p assms(1) by (auto simp: free_frames_def pmm_inv_def)
  moreover have "unat (pmm_free_pages ?s') = unat (total_pages s) - (unat (used_pages s) - 1)"
    using assms(1,3) unat_sub_u32 [of 1 "used_pages s"] unat_sub_u32 [of "used_pages s - 1" "total_pages s"]
    by (auto simp: pmm_free_pages_def pmm_inv_def Suc_le_eq)
  ultimately show ?thesis
    using assms(1,3) bm(1) by (auto simp: pmm_free_def pmm_inv_def)
qed

theorem pmm_double_free_miscounts_witness:
  "\<exists>s'. pmm_free 2252800 pmm_boot = Some s' \<and> free_frames s' = {527..<32736} \<and>
     unat (pmm_free_pages s') = 32210"
proof -
  have "unat (used_pages pmm_boot) \<noteq> 0"
    using pmm_boot_state by (auto simp: pmm_inv_def)
  then show ?thesis
    using pmm_double_free_miscounts [OF pmm_boot_state(1), of 550 2252800] pmm_boot_state(2) by auto
qed

end
