(* ===== verification/Vmm.thy ===== *)
theory Vmm
  imports Pmm
begin

text \<open>
  Paging, \<open>kernel/vmm.c\<close>. The page directory is the static array of the source. Page tables
  (the two static ones and those taken from the frame allocator) live in physical memory,
  \<open>pmem\<close>, a store of 32-bit words by physical address. The kernel reaches a table through
  its address like any other memory, so once paging is on its accesses are translated by
  the tables themselves; an access to an unmapped page is a fault (\<open>None\<close>).
\<close>

definition PAGE_PRESENT :: u32 where "PAGE_PRESENT = 0x1"
definition PAGE_WRITABLE :: u32 where "PAGE_WRITABLE = 0x2"
definition PAGE_USER :: u32 where "PAGE_USER = 0x4"

record vmm =
  page_directory :: "u32 list"
  pmem :: "u32 \<Rightarrow> u32"
  paging :: bool

text \<open>The expression \<open>x & ~0xFFF\<close>, the page frame of an entry or address.\<close>

definition frame_of :: "u32 \<Rightarrow> u32" where
  "frame_of x = x AND NOT 0xFFF"

text \<open>The processor's two-level walk for a supervisor access.\<close>

definition dir_index :: "u32 \<Rightarrow> u32" where
  "dir_index virt = drop_bit 22 virt"

definition tbl_index :: "u32 \<Rightarrow> u32" where
  "tbl_index virt = drop_bit 12 virt AND 0x3FF"

definition mmu_walk :: "vmm \<Rightarrow> u32 \<Rightarrow> u32 option" where
  "mmu_walk s va =
     (let pde = page_directory s ! unat (dir_index va)
      in if pde AND PAGE_PRESENT = 0 then None
         else let pte = pmem s (frame_of pde + 4 * tbl_index va)
              in if pte AND PAGE_PRESENT = 0 then None
                 else Some (frame_of pte OR (va AND 0xFFF)))"

definition kaddr :: "vmm \<Rightarrow> u32 \<Rightarrow> u32 option" where
  "kaddr s va = (if paging s then mmu_walk s va else Some va)"

definition kwrite32 :: "u32 \<Rightarrow> u32 \<Rightarrow> vmm \<Rightarrow> vmm option" where
  "kwrite32 va v s = do { pa \<leftarrow> kaddr s va; Some (s\<lparr>pmem := (pmem s)(pa := v)\<rparr>) }"

text \<open>The loop that zeroes a new table, from entry \<open>i\<close> on.\<close>

function zero_table :: "u32 \<Rightarrow> nat \<Rightarrow> vmm \<Rightarrow> vmm option" where
  "zero_table table i s =
     (if i < 1024 then do { s \<leftarrow> kwrite32 (table + 4 * of_nat i) 0 s; zero_table table (i + 1) s }
      else Some s)"
  by pat_completeness auto
termination
  by (relation "measure (\<lambda>(table, i, s). 1024 - i)") auto

declare zero_table.simps [simp del]

definition vmm_get_table :: "u32 \<Rightarrow> u32 \<Rightarrow> vmm \<Rightarrow> pmm \<Rightarrow> (vmm \<times> pmm \<times> u32) option" where
  "vmm_get_table virt flags s m =
     (let d = unat (dir_index virt)
      in if page_directory s ! d AND PAGE_PRESENT \<noteq> 0
         then Some (s, m, frame_of (page_directory s ! d))
         else do { (m, table) \<leftarrow> pmm_alloc m;
                   if table = 0 then Some (s, m, 0)
                   else do { s \<leftarrow> zero_table table 0 s;
                             Some (s\<lparr>page_directory := (page_directory s)
                                       [d := table OR flags OR PAGE_PRESENT]\<rparr>, m, table) } })"

definition vmm_map :: "u32 \<Rightarrow> u32 \<Rightarrow> u32 \<Rightarrow> vmm \<Rightarrow> pmm \<Rightarrow> (vmm \<times> pmm \<times> msg list) option" where
  "vmm_map virt phys flags s m =
     do { (s, m, table) \<leftarrow> vmm_get_table virt flags s m;
          if table = 0
          then Some (s, m, [(''VMM: failed to get page table for 0x%x'' @ nl, [KInt virt])])
          else do { s \<leftarrow> kwrite32 (table + 4 * tbl_index virt)
                           (frame_of phys OR flags OR PAGE_PRESENT) s;
                    Some (s, m, []) } }"

definition page_rwu :: u32 where
  "page_rwu = PAGE_PRESENT OR PAGE_WRITABLE OR PAGE_USER"

text \<open>
  \<open>vmm_init\<close>: \<open>page_tables\<close> is the linker's address of the two static tables; the code runs
  with paging off until CR0 is written.
\<close>

definition identity_entry :: "u32 \<Rightarrow> nat \<Rightarrow> (u32 \<Rightarrow> u32) \<Rightarrow> u32 \<Rightarrow> u32" where
  "identity_entry page_tables i mem =
     mem(page_tables + 4 * of_nat i := (of_nat i * 4096) OR page_rwu,
         page_tables + 4096 + 4 * of_nat i := ((1024 + of_nat i) * 4096) OR page_rwu)"

definition boot_paging :: "u32 \<Rightarrow> vmm \<Rightarrow> vmm" where
  "boot_paging page_tables s =
     s\<lparr>page_directory := (replicate 1024 0)
         [0 := page_tables OR page_rwu, 1 := (page_tables + 4096) OR page_rwu],
       pmem := fold (identity_entry page_tables) [0..<1024] (pmem s),
       paging := True\<rparr>"

definition vmm_init :: "u32 \<Rightarrow> vmm \<Rightarrow> pmm \<Rightarrow> (vmm \<times> pmm \<times> msg list) option" where
  "vmm_init page_tables s m =
     (let s = boot_paging page_tables s
      in do { (m, stack_phys) \<leftarrow> pmm_alloc m;
              (s, m, out) \<leftarrow> vmm_map 0x500000 stack_phys page_rwu s m;
              Some (s, m, out @ [(''VMM: paging enabled, first 4MB identity mapped'' @ nl, [])]) })"

subsection \<open>Indices, frames and entries\<close>

abbreviation vpage :: "u32 \<Rightarrow> nat" where "vpage a \<equiv> unat a div 4096"
abbreviation aligned :: "u32 \<Rightarrow> bool" where "aligned a \<equiv> unat a mod 4096 = 0"

lemma mask12: "(0xFFF :: u32) = mask 12" and mask10: "(0x3FF :: u32) = mask 10"
  by (simp_all add: mask_eq_exp_minus_1)

lemma unat_offset [unat_simps]: "unat (a AND 0xFFF :: u32) = unat a mod 4096"
  by (simp add: mask12 take_bit_eq_mod unat_mod flip: take_bit_eq_mask)

lemma unat_dir_index [unat_simps]: "unat (dir_index a) = unat a div 4194304"
  by (simp add: dir_index_def drop_bit_eq_div unat_div)

lemma unat_tbl_index [unat_simps]: "unat (tbl_index a) = unat a div 4096 mod 1024"
  by (simp add: tbl_index_def mask10 drop_bit_eq_div take_bit_eq_mod unat_div unat_mod
      flip: take_bit_eq_mask)

lemma frame_or_offset: "frame_of a OR (a AND 0xFFF) = a"
  unfolding frame_of_def by (rule bit_word_eqI) (auto simp: bit_simps mask12)

lemma frame_plus_offset: "frame_of a + (b AND 0xFFF) = frame_of a OR (b AND 0xFFF)"
  unfolding frame_of_def
  by (rule disjunctive_add_eq_or, rule bit_word_eqI) (auto simp: bit_simps mask12)

lemma unat_frame [unat_simps]: "unat (frame_of a) = vpage a * 4096"
proof -
  have "a - (a AND 0xFFF) = frame_of a"
    using frame_plus_offset [of a a] frame_or_offset [of a] by (metis add_diff_cancel_right')
  then have "unat (frame_of a) = unat a - unat a mod 4096"
    by (metis unat_offset mod_less_eq_dividend unat_sub_u32)
  then show ?thesis by (simp add: minus_mod_eq_div_mult)
qed

lemma aligned_frame [simp]: "aligned (frame_of a)"
  by (simp add: unat_frame)

lemma unat_aligned: "aligned a \<Longrightarrow> unat a = vpage a * 4096"
  using div_mult_mod_eq [of "unat a" 4096] by simp

lemma frame_of_aligned [simp]: "aligned a \<Longrightarrow> frame_of a = a"
  by (simp add: word_eq_unat unat_frame unat_aligned [symmetric])

lemma frame_entry:
  "frame_of flags = 0 \<Longrightarrow> frame_of (a OR flags OR PAGE_PRESENT) = frame_of a"
  unfolding frame_of_def PAGE_PRESENT_def by (simp add: bit.conj_disj_distrib2)

lemma present_entry: "(a OR flags OR PAGE_PRESENT) AND PAGE_PRESENT \<noteq> 0"
  by (simp add: PAGE_PRESENT_def bit.conj_disj_distrib2)

text \<open>Entry \<open>i\<close> of the table at \<open>f\<close>: inside its frame, and different entries are different words.\<close>

lemma unat_entry [unat_simps]:
  assumes "aligned f" "unat i < 1024"
  shows "unat (f + 4 * i) = unat f + 4 * unat i"
proof -
  have "vpage f < 1048576" by (rule less_mult_imp_div_less) simp
  then have "unat f \<le> 4294963200" using unat_aligned [OF assms(1)] by simp
  then show ?thesis using assms(2) by (simp add: unat_add_u32 unat_mult_u32)
qed

lemma entry_page:
  assumes "aligned f" "unat i < 1024"
  shows "vpage (f + 4 * i) = vpage f"
proof -
  have "(vpage f * 4096 + 4 * unat i) div 4096 = vpage f" using assms(2) by simp
  then show ?thesis using unat_entry [OF assms] unat_aligned [OF assms(1)] by metis
qed

lemma entry_eq_iff:
  assumes "aligned f" "aligned g" "unat i < 1024" "unat j < 1024"
  shows "(f + 4 * i = g + 4 * j) = (f = g \<and> i = j)"
proof
  assume eq: "f + 4 * i = g + 4 * j"
  then have "vpage f = vpage g" using entry_page assms by metis
  then have "f = g" using unat_aligned assms(1,2) by (metis word_eq_unat)
  moreover from this have "unat i = unat j"
    using eq assms by (auto simp: word_eq_unat unat_entry)
  ultimately show "f = g \<and> i = j" by (simp add: word_eq_unat)
qed simp

lemma unat_index_less [simp]: "unat (tbl_index a) < 1024" "unat (dir_index a) < 1024"
  using unat_u32_less [of a] by (simp_all add: unat_tbl_index unat_dir_index less_mult_imp_div_less)

lemma same_page_iff:
  "vpage a = vpage b \<longleftrightarrow> dir_index a = dir_index b \<and> tbl_index a = tbl_index b"
proof -
  have "unat x div 4194304 = vpage x div 1024" for x :: u32
    by (simp flip: div_mult2_eq)
  then show ?thesis
    by (simp add: word_eq_unat unat_dir_index unat_tbl_index) (metis div_mult_mod_eq)
qed

subsection \<open>The walk and the stores of the kernel\<close>

definition pde_present :: "vmm \<Rightarrow> nat \<Rightarrow> bool" where
  "pde_present s d \<longleftrightarrow> page_directory s ! d AND PAGE_PRESENT \<noteq> 0"

definition table_frame :: "vmm \<Rightarrow> nat \<Rightarrow> u32" where
  "table_frame s d = frame_of (page_directory s ! d)"

definition pte :: "vmm \<Rightarrow> u32 \<Rightarrow> u32" where
  "pte s va = pmem s (table_frame s (unat (dir_index va)) + 4 * tbl_index va)"

lemma aligned_table_frame [simp]: "aligned (table_frame s d)"
  by (simp add: table_frame_def)

lemma mmu_walk_eq:
  "mmu_walk s va =
    (if pde_present s (unat (dir_index va)) \<and> pte s va AND PAGE_PRESENT \<noteq> 0
     then Some (frame_of (pte s va) OR (va AND 0xFFF)) else None)"
  by (simp add: mmu_walk_def pde_present_def pte_def table_frame_def Let_def)

lemma mmu_walk_same_page:
  assumes "mmu_walk s f = Some f" "aligned f" "vpage a = vpage f"
  shows "mmu_walk s a = Some a"
proof -
  have "dir_index a = dir_index f" "tbl_index a = tbl_index f" using same_page_iff assms(3) by blast+
  moreover have "f AND 0xFFF = 0" using assms(2) by (simp add: word_eq_unat unat_offset)
  moreover have "frame_of a = f"
    using assms(2,3) unat_aligned [OF assms(2)] by (simp add: word_eq_unat unat_frame)
  ultimately show ?thesis
    using assms(1) frame_or_offset [of a] by (auto simp: mmu_walk_eq pte_def split: if_splits)
qed

text \<open>Pages the kernel reaches at their own address.\<close>

definition ident :: "vmm \<Rightarrow> u32 \<Rightarrow> bool" where
  "ident s f \<longleftrightarrow> aligned f \<and> mmu_walk s f = Some f"

lemma kwrite32_ident:
  assumes "ident s f" "unat i < 1024"
  shows "kwrite32 (f + 4 * i) v s = Some (s\<lparr>pmem := (pmem s)(f + 4 * i := v)\<rparr>)"
  using assms mmu_walk_same_page [of s f "f + 4 * i"] entry_page [of f i]
  by (auto simp: kwrite32_def kaddr_def ident_def)

text \<open>A store into a frame that is no page table of the directory changes no translation.\<close>

lemma mmu_walk_store_other:
  assumes "aligned f" "unat i < 1024" "\<forall>d < 1024. pde_present s d \<longrightarrow> table_frame s d \<noteq> f"
  shows "mmu_walk (s\<lparr>pmem := (pmem s)(f + 4 * i := v)\<rparr>) va = mmu_walk s va"
proof (cases "pde_present s (unat (dir_index va))")
  case True
  then have "table_frame s (unat (dir_index va)) + 4 * tbl_index va \<noteq> f + 4 * i"
    using assms entry_eq_iff [of _ f "tbl_index va" i] by (metis aligned_table_frame unat_index_less)
  then show ?thesis by (simp add: mmu_walk_eq pde_present_def pte_def table_frame_def)
next
  case False
  then show ?thesis by (simp add: mmu_walk_eq pde_present_def)
qed

lemma zero_table_spec:
  assumes "ident s f" "\<forall>d < 1024. pde_present s d \<longrightarrow> table_frame s d \<noteq> f"
  shows "\<exists>mem. zero_table f i s = Some (s\<lparr>pmem := mem\<rparr>) \<and>
    (\<forall>j. i \<le> j \<and> j < 1024 \<longrightarrow> mem (f + 4 * of_nat j) = 0) \<and>
    (\<forall>a. (\<forall>j < 1024. a \<noteq> f + 4 * of_nat j) \<longrightarrow> mem a = pmem s a) \<and>
    (\<forall>j < i. j < 1024 \<longrightarrow> mem (f + 4 * of_nat j) = pmem s (f + 4 * of_nat j))"
  using assms
proof (induction f i s rule: zero_table.induct)
  case (1 f i s)
  show ?case
  proof (cases "i < 1024")
    case False
    then show ?thesis by (intro exI [of _ "pmem s"]) (auto simp: zero_table.simps [of f i s])
  next
    case True
    then have i: "unat (of_nat i :: u32) = i" by (simp add: unat_of_nat_u32)
    let ?s = "s\<lparr>pmem := (pmem s)(f + 4 * of_nat i := 0)\<rparr>"
    have w: "kwrite32 (f + 4 * of_nat i) 0 s = Some ?s"
      using kwrite32_ident [OF "1.prems"(1)] True i by simp
    have other: "mmu_walk ?s va = mmu_walk s va" for va
      using mmu_walk_store_other "1.prems" True i by (simp add: ident_def)
    have neq: "f + 4 * of_nat j \<noteq> f + 4 * (of_nat i :: u32)" if "j < 1024" "j \<noteq> i" for j
      using entry_eq_iff [of f f "of_nat j" "of_nat i"] "1.prems"(1) True that i
      by (simp add: ident_def unat_of_nat_u32 of_nat_u32_eq_iff)
    have "ident ?s f" "\<forall>d < 1024. pde_present ?s d \<longrightarrow> table_frame ?s d \<noteq> f"
      using "1.prems" other by (simp_all add: ident_def pde_present_def table_frame_def)
    then obtain mem where m: "zero_table f (i + 1) ?s = Some (?s\<lparr>pmem := mem\<rparr>)"
      "\<forall>j. i + 1 \<le> j \<and> j < 1024 \<longrightarrow> mem (f + 4 * of_nat j) = 0"
      "\<forall>a. (\<forall>j < 1024. a \<noteq> f + 4 * of_nat j) \<longrightarrow> mem a = pmem ?s a"
      "\<forall>j < i + 1. j < 1024 \<longrightarrow> mem (f + 4 * of_nat j) = pmem ?s (f + 4 * of_nat j)"
      using "1.IH" [OF True w] by blast
    have "mem (f + 4 * of_nat j) = 0" if "i \<le> j" "j < 1024" for j
      using m(2,4) that by (cases "j = i") auto
    moreover have "mem (f + 4 * of_nat j) = pmem s (f + 4 * of_nat j)" if "j < i" "j < 1024" for j
      using m(4) neq that by simp
    moreover have "mem a = pmem s a" if "\<forall>j < 1024. a \<noteq> f + 4 * of_nat j" for a
      using m(3) that True by simp
    ultimately show ?thesis
      using m(1) True w by (intro exI [of _ mem]) (simp add: zero_table.simps [of f i s])
  qed
qed

subsection \<open>Mapping a page\<close>

text \<open>
  The invariant of the paging structures together with the frame allocator: every page
  table is out of the free set, is reached by the kernel at its own address, and belongs
  to one directory entry only.
\<close>

definition vmm_inv :: "vmm \<Rightarrow> pmm \<Rightarrow> bool" where
  "vmm_inv s m \<longleftrightarrow> length (page_directory s) = 1024 \<and> paging s \<and>
     (\<forall>d < 1024. pde_present s d \<longrightarrow> vpage (table_frame s d) \<notin> free_frames m \<and>
        ident s (table_frame s d) \<and> table_frame s d \<noteq> 0) \<and>
     (\<forall>d < 1024. \<forall>e < 1024. d \<noteq> e \<longrightarrow> pde_present s d \<longrightarrow> pde_present s e \<longrightarrow> table_frame s d \<noteq> table_frame s e)"

text \<open>
  When a table for an address is at hand: it exists, or there is a free frame and the
  kernel can reach that frame at its own address.
\<close>

definition next_frame :: "pmm \<Rightarrow> u32" where
  "next_frame m = of_nat (4096 * Min (free_frames m))"

definition table_ready :: "u32 \<Rightarrow> vmm \<Rightarrow> pmm \<Rightarrow> bool" where
  "table_ready virt s m \<longleftrightarrow> pde_present s (unat (dir_index virt)) \<or>
     (free_frames m \<noteq> {} \<and> ident s (next_frame m))"

lemma pmm_alloc_next_frame:
  assumes "pmm_inv m" "free_frames m \<noteq> {}"
  obtains m' where "pmm_alloc m = Some (m', next_frame m)" "pmm_inv m'" "next_frame m \<noteq> 0"
    "vpage (next_frame m) \<in> free_frames m" "aligned (next_frame m)"
    "free_frames m' = free_frames m - {vpage (next_frame m)}"
    "vpage (next_frame m) = Min (free_frames m)"
proof -
  obtain m' a where a: "pmm_alloc m = Some (m', a)" "unat a = 4096 * Min (free_frames m)"
    using frames.alloc_frame [OF assms] by blast
  then have n: "next_frame m = a" "a \<noteq> 0"
    using frames.alloc_null_iff [OF assms(1) a(1)] assms(2)
    by (simp_all add: next_frame_def flip: a(2))
  show ?thesis
    using that [of m'] a n frames.alloc_fresh [OF assms(1) a(1) n(2)] frames.alloc_inv [OF assms(1) a(1)]
    by simp
qed

lemma new_table_walk:
  assumes inv: "vmm_inv s m" and d: "\<not> pde_present s d" "d < 1024"
    and zero: "\<forall>j < 1024. mem (f + 4 * of_nat j) = 0"
    and other: "\<forall>a. (\<forall>j < 1024. a \<noteq> f + 4 * of_nat j) \<longrightarrow> mem a = pmem s a"
    and f: "aligned f" "\<forall>e < 1024. pde_present s e \<longrightarrow> table_frame s e \<noteq> f" "frame_of e = f"
    and e: "e AND PAGE_PRESENT \<noteq> 0"
  shows "mmu_walk (s\<lparr>pmem := mem, page_directory := (page_directory s)[d := e]\<rparr>) va = mmu_walk s va"
proof -
  let ?s = "s\<lparr>pmem := mem, page_directory := (page_directory s)[d := e]\<rparr>" and ?d = "unat (dir_index va)"
  have len: "length (page_directory s) = 1024" using inv by (simp add: vmm_inv_def)
  show ?thesis
  proof (cases "?d = d")
    case True
    then have "pte ?s va = mem (f + 4 * of_nat (unat (tbl_index va)))"
      using len d(2) f(3) by (simp add: pte_def table_frame_def)
    then have "pte ?s va = 0" using zero unat_index_less(1) by metis
    then show ?thesis using True d(1) by (simp add: mmu_walk_eq)
  next
    case False
    have "pte ?s va = pte s va" if p: "pde_present s ?d"
    proof -
      have "table_frame s ?d + 4 * tbl_index va \<noteq> f + 4 * of_nat j" if "j < 1024" for j
        using entry_eq_iff [of "table_frame s ?d" f "tbl_index va" "of_nat j"] f that p
        by (simp add: unat_of_nat_u32)
      then show ?thesis using other False by (simp add: pte_def table_frame_def)
    qed
    moreover have "pde_present ?s ?d = pde_present s ?d" using False by (simp add: pde_present_def)
    ultimately show ?thesis by (cases "pde_present s ?d") (simp_all add: mmu_walk_eq)
  qed
qed

text \<open>How the directory and the free frames change when a table for \<open>virt\<close> is taken.\<close>

definition took_table :: "u32 \<Rightarrow> vmm \<Rightarrow> pmm \<Rightarrow> vmm \<Rightarrow> pmm \<Rightarrow> bool" where
  "took_table virt s m s' m' \<longleftrightarrow>
     (\<forall>d < 1024. pde_present s' d = (d = unat (dir_index virt) \<or> pde_present s d)) \<and>
     (\<forall>d < 1024. table_frame s' d =
        (if d = unat (dir_index virt) \<and> \<not> pde_present s d then next_frame m else table_frame s d)) \<and>
     free_frames m' = (if pde_present s (unat (dir_index virt)) then free_frames m
        else free_frames m - {Min (free_frames m)})"

lemma vmm_get_table_spec:
  assumes inv: "vmm_inv s m" "pmm_inv m" and flags: "frame_of flags = 0" and r: "table_ready virt s m"
  obtains s' m' where "vmm_get_table virt flags s m = Some (s', m', table_frame s' (unat (dir_index virt)))"
    "vmm_inv s' m'" "pmm_inv m'" "\<And>va. mmu_walk s' va = mmu_walk s va" "took_table virt s m s' m'"
proof (cases "pde_present s (unat (dir_index virt))")
  case True
  moreover from this have "took_table virt s m s m" by (auto simp: took_table_def)
  ultimately show ?thesis
    using that [of s m] inv by (simp add: vmm_get_table_def pde_present_def table_frame_def Let_def)
next
  case False
  let ?d = "unat (dir_index virt)"
  have ne: "free_frames m \<noteq> {}" and id: "ident s (next_frame m)"
    using r False by (simp_all add: table_ready_def)
  obtain m' where m': "pmm_alloc m = Some (m', next_frame m)" "pmm_inv m'" "next_frame m \<noteq> 0"
    "vpage (next_frame m) \<in> free_frames m" "aligned (next_frame m)"
    "free_frames m' = free_frames m - {vpage (next_frame m)}"
    "vpage (next_frame m) = Min (free_frames m)"
    using pmm_alloc_next_frame [OF inv(2) ne] by blast
  let ?f = "next_frame m"
  have fresh: "\<forall>d < 1024. pde_present s d \<longrightarrow> table_frame s d \<noteq> ?f"
    using inv(1) m'(4) by (auto simp: vmm_inv_def)
  obtain mem where mem: "zero_table ?f 0 s = Some (s\<lparr>pmem := mem\<rparr>)"
    "\<forall>j < 1024. mem (?f + 4 * of_nat j) = 0"
    "\<forall>a. (\<forall>j < 1024. a \<noteq> ?f + 4 * of_nat j) \<longrightarrow> mem a = pmem s a"
    using zero_table_spec [OF id fresh, of 0] by auto
  let ?e = "?f OR flags OR PAGE_PRESENT"
  let ?s = "s\<lparr>pmem := mem, page_directory := (page_directory s)[?d := ?e]\<rparr>"
  have fe: "frame_of ?e = ?f" using frame_entry [OF flags] m'(5) by simp
  have walk: "mmu_walk ?s va = mmu_walk s va" for va
    using new_table_walk [OF inv(1) False _ mem(2,3) m'(5) fresh fe present_entry] by simp
  have len: "length (page_directory s) = 1024" using inv(1) by (simp add: vmm_inv_def)
  have pd: "pde_present ?s d = (d = ?d \<or> pde_present s d)"
    "table_frame ?s d = (if d = ?d then ?f else table_frame s d)" if "d < 1024" for d
    using that len fe by (auto simp: pde_present_def table_frame_def nth_list_update present_entry)
  have "vmm_inv ?s m'"
    using inv(1) len pd walk m' fresh id unfolding vmm_inv_def ident_def by auto
  moreover have "vmm_get_table virt flags s m = Some (?s, m', table_frame ?s ?d)"
    using False m'(1,3) mem(1) pd(2) [of ?d] by (simp add: vmm_get_table_def pde_present_def Let_def)
  moreover have "took_table virt s m ?s m'"
    using pd False m'(6,7) by (auto simp: took_table_def)
  ultimately show ?thesis using that [of ?s m'] walk m'(2) by blast
qed

lemma store_entry_walk:
  fixes phys :: u32
  assumes inv: "vmm_inv s m" and p: "pde_present s (unat (dir_index virt))" and flags: "frame_of flags = 0"
  defines "s' \<equiv> s\<lparr>pmem := (pmem s)(table_frame s (unat (dir_index virt)) + 4 * tbl_index virt :=
      frame_of phys OR flags OR PAGE_PRESENT)\<rparr>"
  shows "mmu_walk s' va =
    (if vpage va = vpage virt then Some (frame_of phys OR (va AND 0xFFF)) else mmu_walk s va)"
proof -
  let ?d = "unat (dir_index va)" and ?dv = "unat (dir_index virt)"
  have same: "pde_present s' d = pde_present s d" "table_frame s' d = table_frame s d" for d
    by (simp_all add: s'_def pde_present_def table_frame_def)
  show ?thesis
  proof (cases "vpage va = vpage virt")
    case True
    then have "pte s' va = frame_of phys OR flags OR PAGE_PRESENT" "dir_index va = dir_index virt"
      by (simp_all add: same_page_iff pte_def same) (simp add: s'_def)
    then show ?thesis
      using True p same frame_entry [OF flags] present_entry by (simp add: mmu_walk_eq)
  next
    case False
    have "pte s' va = pte s va" if "pde_present s ?d"
    proof -
      have "table_frame s ?d + 4 * tbl_index va \<noteq> table_frame s ?dv + 4 * tbl_index virt"
        using False that p inv entry_eq_iff [of "table_frame s ?d" "table_frame s ?dv"]
        unfolding vmm_inv_def same_page_iff word_eq_unat [of "dir_index va"]
        by (metis aligned_table_frame unat_index_less)
      then show ?thesis by (simp add: pte_def same) (simp add: s'_def)
    qed
    then show ?thesis using False same by (cases "pde_present s ?d") (simp_all add: mmu_walk_eq)
  qed
qed

text \<open>A page that holds no page table, now or after taking the next frame for one.\<close>

definition not_table :: "u32 \<Rightarrow> vmm \<Rightarrow> pmm \<Rightarrow> bool" where
  "not_table virt s m \<longleftrightarrow>
     (\<forall>d < 1024. pde_present s d \<longrightarrow> vpage (table_frame s d) \<noteq> vpage virt) \<and>
     (\<not> pde_present s (unat (dir_index virt)) \<longrightarrow> vpage (next_frame m) \<noteq> vpage virt)"

lemma vmm_map_spec:
  assumes inv: "vmm_inv s m" "pmm_inv m" and flags: "frame_of flags = 0" and r: "table_ready virt s m"
    and tables: "not_table virt s m"
  obtains s' m' where "vmm_map virt phys flags s m = Some (s', m', [])" "vmm_inv s' m'" "pmm_inv m'"
    "\<And>va. mmu_walk s' va =
      (if vpage va = vpage virt then Some (frame_of phys OR (va AND 0xFFF)) else mmu_walk s va)"
    "took_table virt s m s' m'"
proof -
  let ?d = "unat (dir_index virt)"
  obtain s1 m1 where g: "vmm_get_table virt flags s m = Some (s1, m1, table_frame s1 ?d)"
    "vmm_inv s1 m1" "pmm_inv m1" "\<And>va. mmu_walk s1 va = mmu_walk s va" "took_table virt s m s1 m1"
    by (rule vmm_get_table_spec [OF inv flags r]) blast
  have p: "pde_present s1 ?d" using g(5) by (simp add: took_table_def)
  let ?a = "table_frame s1 ?d + 4 * tbl_index virt" and ?e = "frame_of phys OR flags OR PAGE_PRESENT"
  let ?s = "s1\<lparr>pmem := (pmem s1)(?a := ?e)\<rparr>"
  have t: "ident s1 (table_frame s1 ?d)" "table_frame s1 ?d \<noteq> 0"
    using p g(2) by (simp_all add: vmm_inv_def)
  have walk: "mmu_walk ?s va =
      (if vpage va = vpage virt then Some (frame_of phys OR (va AND 0xFFF)) else mmu_walk s va)" for va
    using store_entry_walk [OF g(2) p flags] g(4) by simp
  have same: "pde_present ?s d = pde_present s1 d" "table_frame ?s d = table_frame s1 d" for d
    by (simp_all add: pde_present_def table_frame_def)
  have "ident ?s (table_frame s1 d)" if "d < 1024" "pde_present s1 d" for d
  proof -
    have "vpage (table_frame s1 d) \<noteq> vpage virt"
      using that tables g(5) by (auto simp: not_table_def took_table_def)
    then show ?thesis using g(2,4) that walk by (simp add: vmm_inv_def ident_def)
  qed
  then have "vmm_inv ?s m1" using g(2) same by (simp add: vmm_inv_def)
  moreover have "vmm_map virt phys flags s m = Some (?s, m1, [])"
    using g(1) t kwrite32_ident [OF t(1)] by (simp add: vmm_map_def)
  moreover have "took_table virt s m ?s m1" using g(5) same by (simp add: took_table_def)
  ultimately show ?thesis
    using that [of ?s m1] g(3) walk by blast
qed

subsection \<open>Initialisation\<close>

lemma frame_of_rwu [simp]: "frame_of page_rwu = 0"
  by (simp add: frame_of_def page_rwu_def PAGE_PRESENT_def PAGE_WRITABLE_def PAGE_USER_def)

lemma rwu_entry: "a OR page_rwu = a OR (PAGE_WRITABLE OR PAGE_USER) OR PAGE_PRESENT"
  by (simp add: page_rwu_def PAGE_PRESENT_def PAGE_WRITABLE_def PAGE_USER_def)

lemma frame_rwu: "frame_of (a OR page_rwu) = frame_of a"
  unfolding rwu_entry
  by (rule frame_entry) (simp add: frame_of_def PAGE_WRITABLE_def PAGE_USER_def)

lemma present_rwu: "(a OR page_rwu) AND PAGE_PRESENT \<noteq> 0"
  unfolding rwu_entry by (rule present_entry)

lemma identity_entries:
  fixes pt :: u32 and mem :: "u32 \<Rightarrow> u32"
  assumes "aligned pt" "unat pt + 8192 \<le> 4294967296" "n \<le> 1024"
  defines "mem' \<equiv> fold (identity_entry pt) [0..<n] mem"
  shows "\<forall>i < n. mem' (pt + 4 * of_nat i) = (of_nat i * 4096) OR page_rwu \<and>
      mem' (pt + 4096 + 4 * of_nat i) = ((1024 + of_nat i) * 4096) OR page_rwu"
  using assms(3) unfolding mem'_def
proof (induction n)
  case (Suc n)
  have al: "aligned (pt + 4096)" "pt \<noteq> pt + 4096"
    using assms(1,2) by (simp_all add: unat_add_u32)
  have neq: "pt + 4 * of_nat i \<noteq> pt + 4 * of_nat j" "pt + 4096 + 4 * of_nat i \<noteq> pt + 4096 + 4 * of_nat j"
    if "i < 1024" "j < 1024" "i \<noteq> j" for i j
    using entry_eq_iff [of pt pt "of_nat i" "of_nat j"]
      entry_eq_iff [of "pt + 4096" "pt + 4096" "of_nat i" "of_nat j"] assms(1) al that
    by (simp_all add: unat_of_nat_u32 of_nat_u32_eq_iff)
  have diff: "pt + 4 * of_nat i \<noteq> pt + 4096 + 4 * of_nat j" if "i < 1024" "j < 1024" for i j
    using entry_eq_iff [of pt "pt + 4096" "of_nat i" "of_nat j"] assms(1) al that
    by (simp add: unat_of_nat_u32)
  show ?case
    using Suc neq diff diff [symmetric] by (auto simp: identity_entry_def less_Suc_eq)
qed simp

lemma boot_directory:
  "d < 1024 \<Longrightarrow> pde_present (boot_paging pt s) d = (d < 2)"
  "aligned pt \<Longrightarrow> table_frame (boot_paging pt s) 0 = pt"
  "aligned (pt + 4096) \<Longrightarrow> table_frame (boot_paging pt s) 1 = pt + 4096"
  by (cases "d = 0"; cases "d = 1";
      simp add: boot_paging_def pde_present_def table_frame_def present_rwu frame_rwu)+

lemma boot_entries:
  assumes "aligned pt" "unat pt + 8192 \<le> 8388608"
  shows "pmem (boot_paging pt s) (pt + 4 * tbl_index va) = (tbl_index va * 4096) OR page_rwu"
    "pmem (boot_paging pt s) (pt + 4096 + 4 * tbl_index va) = ((1024 + tbl_index va) * 4096) OR page_rwu"
proof -
  have "unat pt + 8192 \<le> 4294967296" using assms(2) by simp
  from identity_entries [OF assms(1) this order.refl, of "pmem s"] unat_index_less(1) [of va]
  have "fold (identity_entry pt) [0..<1024] (pmem s) (pt + 4 * of_nat (unat (tbl_index va))) =
      (of_nat (unat (tbl_index va)) * 4096) OR page_rwu"
    "fold (identity_entry pt) [0..<1024] (pmem s) (pt + 4096 + 4 * of_nat (unat (tbl_index va))) =
      ((1024 + of_nat (unat (tbl_index va))) * 4096) OR page_rwu"
    by blast+
  then show "pmem (boot_paging pt s) (pt + 4 * tbl_index va) = (tbl_index va * 4096) OR page_rwu"
    "pmem (boot_paging pt s) (pt + 4096 + 4 * tbl_index va) = ((1024 + tbl_index va) * 4096) OR page_rwu"
    by (simp_all add: boot_paging_def)
qed

lemma low_page:
  assumes "unat va < 8388608"
  shows "frame_of (if unat va < 4194304 then tbl_index va * 4096 else (1024 + tbl_index va) * 4096) = frame_of va"
proof -
  have "unat (tbl_index va) = (if unat va < 4194304 then vpage va else vpage va - 1024)"
    using assms by (simp add: unat_tbl_index mod_if)
  then have "unat (if unat va < 4194304 then tbl_index va * 4096 else (1024 + tbl_index va) * 4096) = vpage va * 4096"
    using assms by (auto simp: unat_mult_u32 unat_add_u32)
  then show ?thesis by (simp only: word_eq_unat unat_frame) simp
qed

lemma boot_walk:
  assumes "aligned pt" "unat pt + 8192 \<le> 8388608"
  shows "mmu_walk (boot_paging pt s) va = (if unat va < 8388608 then Some va else None)"
proof (cases "unat va < 8388608")
  case True
  let ?s = "boot_paging pt s"
  have al: "aligned (pt + 4096)" using assms by (simp add: unat_add_u32)
  have "unat (dir_index va) = (if unat va < 4194304 then 0 else 1)"
    using True by (auto simp: unat_dir_index intro!: div_nat_eqI)
  then have "pte ?s va = (if unat va < 4194304 then tbl_index va * 4096 else (1024 + tbl_index va) * 4096) OR page_rwu"
    using boot_entries [OF assms] boot_directory(2,3) assms(1) al by (simp add: pte_def)
  then have "frame_of (pte ?s va) = frame_of va" "pte ?s va AND PAGE_PRESENT \<noteq> 0"
    using low_page [OF True] by (simp_all only: frame_rwu present_rwu) simp
  moreover have "unat (dir_index va) < 2" using True by (simp add: unat_dir_index)
  ultimately show ?thesis
    using True boot_directory(1) [of "unat (dir_index va)"] frame_or_offset [of va] by (simp add: mmu_walk_eq)
next
  case False
  then have "\<not> unat (dir_index va) < 2" by (simp add: unat_dir_index)
  then show ?thesis using False boot_directory(1) [of "unat (dir_index va)"] by (simp add: mmu_walk_eq)
qed

lemma boot_vmm_inv:
  assumes pt: "aligned pt" "pt \<noteq> 0" "unat pt + 8192 \<le> 8388608"
    and free: "vpage pt \<notin> free_frames m" "vpage pt + 1 \<notin> free_frames m"
  shows "vmm_inv (boot_paging pt s) m"
proof -
  let ?s = "boot_paging pt s"
  have al: "unat (pt + 4096) = unat pt + 4096" "aligned (pt + 4096)" using pt by (simp_all add: unat_add_u32)
  have tf: "table_frame ?s 0 = pt" "table_frame ?s 1 = pt + 4096"
    using boot_directory(2,3) pt(1) al(2) by simp_all
  have id: "ident ?s pt" "ident ?s (pt + 4096)"
    using boot_walk [OF pt(1,3)] pt al by (simp_all add: ident_def)
  have f: "vpage (pt + 4096) = vpage pt + 1" "pt + 4096 \<noteq> 0" "pt \<noteq> pt + 4096"
    unfolding al(1) word_eq_unat by simp_all
  have "vpage (table_frame ?s d) \<notin> free_frames m \<and> ident ?s (table_frame ?s d) \<and> table_frame ?s d \<noteq> 0"
    if "d < 2" for d
    using that tf id f free pt(2) by (auto simp: less_2_cases_iff)
  moreover have "table_frame ?s d \<noteq> table_frame ?s e" if "d < 2" "e < 2" "d \<noteq> e" for d e
    using that tf f(3) by (auto simp: less_2_cases_iff)
  moreover have "length (page_directory ?s) = 1024" "paging ?s" by (simp_all add: boot_paging_def)
  ultimately show ?thesis
    unfolding vmm_inv_def by (simp add: boot_directory(1))
qed

lemma vmm_init_spec:
  fixes pt :: u32
  assumes pt: "aligned pt" "pt \<noteq> 0" "unat pt + 8192 \<le> 8388608" "vpage pt \<noteq> 1280" "vpage pt + 1 \<noteq> 1280"
    and m: "pmm_inv m" "vpage pt \<notin> free_frames m" "vpage pt + 1 \<notin> free_frames m" "free_frames m \<noteq> {}"
  obtains s' m' ms where "vmm_init pt s m = Some (s', m', ms)" "vmm_inv s' m'" "pmm_inv m'"
    "free_frames m' = free_frames m - {Min (free_frames m)}"
    "\<And>va. mmu_walk s' va = (if vpage va = 1280 then Some (next_frame m OR (va AND 0xFFF))
       else if unat va < 8388608 then Some va else None)"
    "\<And>d. d < 1024 \<Longrightarrow> pde_present s' d = (d < 2)" "table_frame s' 0 = pt" "table_frame s' 1 = pt + 4096"
proof -
  define s0 where "s0 = boot_paging pt s"
  have al: "aligned (pt + 4096)" using pt by (simp add: unat_add_u32)
  obtain m1 where m1: "pmm_alloc m = Some (m1, next_frame m)" "pmm_inv m1"
    "aligned (next_frame m)" "free_frames m1 = free_frames m - {Min (free_frames m)}"
    using pmm_alloc_next_frame [OF m(1,4)] by metis
  have boot: "mmu_walk s0 va = (if unat va < 8388608 then Some va else None)" "vmm_inv s0 m1"
    "\<And>d. d < 1024 \<Longrightarrow> pde_present s0 d = (d < 2)" "table_frame s0 0 = pt" "table_frame s0 1 = pt + 4096" for va
    using boot_walk [OF pt(1,3)] boot_vmm_inv [OF pt(1,2,3), of m1] boot_directory pt(1) al m(2,3) m1(4)
    by (simp_all add: s0_def)
  have d: "unat (dir_index 0x500000) = 1" by (simp add: unat_dir_index)
  have f: "vpage (pt + 4096) = vpage pt + 1" using pt(3) by (simp add: unat_add_u32)
  have present: "pde_present s0 1" "table_ready 0x500000 s0 m1"
    using boot(3) [of 1] d by (simp_all add: table_ready_def)
  have nt: "not_table 0x500000 s0 m1"
    using boot pt(4,5) f d by (auto simp: not_table_def less_2_cases_iff)
  obtain s2 m2 where s2: "vmm_map 0x500000 (next_frame m) page_rwu s0 m1 = Some (s2, m2, [])" "vmm_inv s2 m2"
    "pmm_inv m2" "\<And>va. mmu_walk s2 va = (if vpage va = vpage 0x500000
       then Some (frame_of (next_frame m) OR (va AND 0xFFF)) else mmu_walk s0 va)"
    "took_table 0x500000 s0 m1 s2 m2"
    using vmm_map_spec [OF boot(2) m1(2) frame_of_rwu present(2) nt] by blast
  have "\<exists>ms. vmm_init pt s m = Some (s2, m2, ms)"
    using m1(1) s2(1) by (simp add: vmm_init_def Let_def s0_def)
  moreover have "mmu_walk s2 va = (if vpage va = 1280 then Some (next_frame m OR (va AND 0xFFF))
      else if unat va < 8388608 then Some va else None)" for va
    using s2(4) boot(1) m1(3) by simp
  moreover have "free_frames m2 = free_frames m - {Min (free_frames m)}"
    "\<And>d. d < 1024 \<Longrightarrow> pde_present s2 d = (d < 2)" "table_frame s2 0 = pt" "table_frame s2 1 = pt + 4096"
    using s2(5) boot(3,4,5) m1(4) present(1) d by (auto simp: took_table_def)
  ultimately show ?thesis using that s2(2,3) by blast
qed

text \<open>
  A concrete boot: the allocator of the boot log, the static tables in the kernel image at
  \<open>0x203000\<close>.
\<close>

definition vmm_off :: vmm where
  "vmm_off = \<lparr>page_directory = replicate 1024 0, pmem = (\<lambda>_. 0), paging = False\<rparr>"

definition vmm_boot :: vmm where
  "vmm_boot = fst (the (vmm_init 0x203000 vmm_off pmm_boot))"

definition pmm_boot2 :: pmm where
  "pmm_boot2 = fst (snd (the (vmm_init 0x203000 vmm_off pmm_boot)))"

lemma next_frame_boot: "next_frame pmm_boot = 0x20F000"
  by (simp add: next_frame_def pmm_boot_Min)

lemma vmm_boot_state:
  "\<exists>ms. vmm_init 0x203000 vmm_off pmm_boot = Some (vmm_boot, pmm_boot2, ms)"
  "vmm_inv vmm_boot pmm_boot2" "pmm_inv pmm_boot2" "free_frames pmm_boot2 = {528..<32736}"
  "mmu_walk vmm_boot va = (if vpage va = 1280 then Some (0x20F000 OR (va AND 0xFFF))
     else if unat va < 8388608 then Some va else None)"
  "d < 1024 \<Longrightarrow> pde_present vmm_boot d = (d < 2)"
  "table_frame vmm_boot 0 = 0x203000" "table_frame vmm_boot 1 = 0x204000"
proof -
  have *: "{527..<32736} - {527} = {528..<32736 :: nat}" by auto
  have min: "Min {527..<32736 :: nat} = 527" using pmm_boot_Min by (simp add: pmm_boot_state(2))
  obtain s' m' ms where i: "vmm_init 0x203000 vmm_off pmm_boot = Some (s', m', ms)" "vmm_inv s' m'" "pmm_inv m'"
    "free_frames m' = free_frames pmm_boot - {Min (free_frames pmm_boot)}"
    "\<And>va. mmu_walk s' va = (if vpage va = 1280 then Some (next_frame pmm_boot OR (va AND 0xFFF))
       else if unat va < 8388608 then Some va else None)"
    "\<And>d. d < 1024 \<Longrightarrow> pde_present s' d = (d < 2)" "table_frame s' 0 = 0x203000"
    "table_frame s' 1 = 0x203000 + 4096"
    by (rule vmm_init_spec [of "0x203000" pmm_boot vmm_off]) (use pmm_boot_state in auto)
  then have "s' = vmm_boot" "m' = pmm_boot2" by (simp_all add: vmm_boot_def pmm_boot2_def)
  with i show "\<exists>ms. vmm_init 0x203000 vmm_off pmm_boot = Some (vmm_boot, pmm_boot2, ms)"
    "vmm_inv vmm_boot pmm_boot2" "pmm_inv pmm_boot2" "free_frames pmm_boot2 = {528..<32736}"
    "mmu_walk vmm_boot va = (if vpage va = 1280 then Some (0x20F000 OR (va AND 0xFFF))
       else if unat va < 8388608 then Some va else None)"
    "d < 1024 \<Longrightarrow> pde_present vmm_boot d = (d < 2)"
    "table_frame vmm_boot 0 = 0x203000" "table_frame vmm_boot 1 = 0x204000"
    by (simp_all add: min next_frame_boot pmm_boot_state(2) *)
qed

lemma next_frame_boot2: "next_frame pmm_boot2 = 0x210000"
proof -
  have "Min {528..<32736 :: nat} = 528" by (rule Min_eqI) auto
  then show ?thesis by (simp add: next_frame_def vmm_boot_state(4))
qed

lemma heap_page_ready:
  "table_ready 0x1000000 vmm_boot pmm_boot2" "not_table 0x1000000 vmm_boot pmm_boot2"
proof -
  have "ident vmm_boot 0x210000" by (simp add: ident_def vmm_boot_state(5))
  then show "table_ready 0x1000000 vmm_boot pmm_boot2"
    by (simp add: table_ready_def next_frame_boot2 vmm_boot_state(4))
  show "not_table 0x1000000 vmm_boot pmm_boot2"
    by (auto simp: not_table_def next_frame_boot2 vmm_boot_state(6,7) vmm_boot_state(8) [simplified] less_2_cases_iff)
qed

subsection \<open>Properties\<close>

text \<open>C15. \<open>vmm_map\<close>: when a page table is at hand, the whole page of \<open>virt\<close> translates to the
  page of \<open>phys\<close> afterwards, no other address changes its translation, and the paging
  invariant is kept.\<close>

theorem vmm_map_translates:
  assumes "vmm_inv s m" "pmm_inv m" "frame_of flags = 0" "table_ready virt s m" "not_table virt s m"
  shows "\<exists>s' m'. vmm_map virt phys flags s m = Some (s', m', []) \<and> vmm_inv s' m' \<and> pmm_inv m' \<and>
    (\<forall>va. mmu_walk s' va =
      (if vpage va = vpage virt then Some (frame_of phys OR (va AND 0xFFF)) else mmu_walk s va))"
  by (rule vmm_map_spec [OF assms]) blast

theorem vmm_map_translates_witness:
  "\<exists>s' m'. vmm_map 0x1000000 0x300000 page_rwu vmm_boot pmm_boot2 = Some (s', m', []) \<and>
     mmu_walk s' 0x1000ABC = Some 0x300ABC \<and> mmu_walk s' 0x400000 = Some 0x400000"
proof -
  have "frame_of 0x300000 = 0x300000" by (simp add: frame_of_def)
  then show ?thesis
    using vmm_map_translates [OF vmm_boot_state(2,3) frame_of_rwu heap_page_ready, of "0x300000"]
    by (auto simp: vmm_boot_state(5))
qed

text \<open>C16. After \<open>vmm_init\<close> the first 8 MB translate to themselves (both static tables, not
  the 4 MB the comment names), except the page at \<open>0x500000\<close>, which is backed by a fresh
  frame; nothing else is mapped.\<close>

theorem vmm_init_identity:
  assumes "aligned pt" "pt \<noteq> 0" "unat pt + 8192 \<le> 8388608" "vpage pt \<noteq> 1280" "vpage pt + 1 \<noteq> 1280"
    and "pmm_inv m" "vpage pt \<notin> free_frames m" "vpage pt + 1 \<notin> free_frames m" "free_frames m \<noteq> {}"
  shows "\<exists>s' m' ms. vmm_init pt s m = Some (s', m', ms) \<and> vmm_inv s' m' \<and> pmm_inv m' \<and>
    (\<forall>va. mmu_walk s' va = (if vpage va = 1280 then Some (next_frame m OR (va AND 0xFFF))
       else if unat va < 8388608 then Some va else None))"
  by (rule vmm_init_spec [OF assms]) blast

theorem vmm_init_identity_witness:
  "\<exists>s' m' ms. vmm_init 0x203000 vmm_off pmm_boot = Some (s', m', ms) \<and>
     mmu_walk s' 0x7FFFFF = Some 0x7FFFFF \<and> mmu_walk s' 0x800000 = None \<and>
     mmu_walk s' 0x500004 = Some 0x20F004"
  using vmm_init_identity [of "0x203000" pmm_boot vmm_off] pmm_boot_state
  by (auto simp: next_frame_boot)

text \<open>A page table is zeroed and filled through its physical address: when the next free
  frame is not mapped at its own address (as every frame above 8 MB is not), \<open>vmm_map\<close>
  for an address without a table faults.\<close>

theorem vmm_map_faults_above_window:
  assumes "pmm_inv m" "paging s" "free_frames m \<noteq> {}"
    and "\<not> pde_present s (unat (dir_index virt))" "mmu_walk s (next_frame m) = None"
  shows "vmm_map virt phys flags s m = None"
proof -
  obtain m' where "pmm_alloc m = Some (m', next_frame m)" "next_frame m \<noteq> 0"
    using pmm_alloc_next_frame [OF assms(1,3)] by metis
  moreover have "zero_table (next_frame m) 0 s = None"
    using assms(2,5) by (simp add: zero_table.simps [of _ 0] kwrite32_def kaddr_def)
  ultimately show ?thesis
    using assms(4) by (simp add: vmm_map_def vmm_get_table_def pde_present_def Let_def)
qed

text \<open>The state of the witness: a kernel image that ends at 9 MB, so every free frame is above
  the identity-mapped window.\<close>

lemma high_frames_state:
  "\<exists>m ms. pmm_init 0x900000 129920 \<lparr>bitmap = [], total_pages = 0, used_pages = 0\<rparr> = Some (m, ms) \<and>
     pmm_inv m \<and> free_frames m = {2304..<32736} \<and> next_frame m = 0x900000"
proof -
  have min: "Min {2304..<32736 :: nat} = 2304" by (rule Min_eqI) auto
  obtain m ms where "pmm_init 0x900000 129920 \<lparr>bitmap = [], total_pages = 0, used_pages = 0\<rparr> = Some (m, ms)"
    "pmm_inv m" "free_frames m = {2304..<32736}"
    by (rule pmm_init_spec [of "0x900000" 129920]) (simp_all add: kernel_pages_def memory_pages_def)
  with min show ?thesis by (auto simp: next_frame_def)
qed

theorem vmm_map_faults_above_window_witness:
  "\<exists>m ms. pmm_init 0x900000 129920 \<lparr>bitmap = [], total_pages = 0, used_pages = 0\<rparr> = Some (m, ms) \<and>
     vmm_map 0x1000000 0x300000 page_rwu vmm_boot m = None"
proof -
  have "paging vmm_boot" using vmm_boot_state(2) by (simp add: vmm_inv_def)
  moreover have "\<not> pde_present vmm_boot (unat (dir_index 0x1000000))"
    by (simp add: vmm_boot_state(6) unat_dir_index)
  moreover have "mmu_walk vmm_boot 0x900000 = None" by (simp add: vmm_boot_state(5))
  ultimately show ?thesis
    using high_frames_state vmm_map_faults_above_window [of _ vmm_boot "0x1000000"] by fastforce
qed

end
