(* ===== verification/Heap.thy ===== *)
theory Heap
  imports Vmm
begin

text \<open>
  The kernel heap, \<open>kernel/heap.c\<close>: a first-fit free list in one megabyte of virtual memory
  at 16 MB. The headers and the payloads live in the same store of 32-bit words, \<open>hmem\<close>,
  read and written only at aligned addresses of the heap; any other access is \<open>None\<close>. The
  two loops follow \<open>next\<close> pointers and are partial functions. The abstract heap is the list
  of the blocks in address order (size and free flag), on which first fit, freeing and
  merging are list functions; the operations are shown to implement them, to return, and
  to leave the payload of every other allocated block alone.
\<close>

definition HEAP_START :: u32 where [const_defs]: "HEAP_START = 0x01000000"
definition HEAP_SIZE :: u32 where [const_defs]: "HEAP_SIZE = 0x00100000"
definition BLOCK_SIZE :: u32 where [const_defs]: "BLOCK_SIZE = 12"

record heap =
  heap_head :: u32
  hmem :: "u32 \<Rightarrow> u32"

definition hread :: "u32 \<Rightarrow> heap \<Rightarrow> u32 option" where
  "hread a h = (if a - HEAP_START < HEAP_SIZE \<and> a AND 3 = 0 then Some (hmem h a) else None)"

definition hwrite :: "u32 \<Rightarrow> u32 \<Rightarrow> heap \<Rightarrow> heap option" where
  "hwrite a v h = (if a - HEAP_START < HEAP_SIZE \<and> a AND 3 = 0
     then Some (h\<lparr>hmem := (hmem h)(a := v)\<rparr>) else None)"

text \<open>A byte store into the lowest byte of a word.\<close>

definition put_byte :: "u8 \<Rightarrow> u32 \<Rightarrow> u32" where
  "put_byte c w = (w AND NOT 0xFF) OR ucast c"

text \<open>The fields of the header at an address: \<open>size\<close> at 0, the byte \<open>free\<close> at 4, \<open>next\<close> at 8.\<close>

definition get_size :: "u32 \<Rightarrow> heap \<Rightarrow> u32 option" where "get_size b h = hread b h"

definition get_free :: "u32 \<Rightarrow> heap \<Rightarrow> u8 option" where
  "get_free b h = do { w \<leftarrow> hread (b + 4) h; Some (ucast w) }"

definition get_next :: "u32 \<Rightarrow> heap \<Rightarrow> u32 option" where "get_next b h = hread (b + 8) h"

definition set_size :: "u32 \<Rightarrow> u32 \<Rightarrow> heap \<Rightarrow> heap option" where "set_size b v h = hwrite b v h"

definition set_free :: "u32 \<Rightarrow> u8 \<Rightarrow> heap \<Rightarrow> heap option" where
  "set_free b v h = do { w \<leftarrow> hread (b + 4) h; hwrite (b + 4) (put_byte v w) h }"

definition set_next :: "u32 \<Rightarrow> u32 \<Rightarrow> heap \<Rightarrow> heap option" where "set_next b v h = hwrite (b + 8) v h"

lemmas field_defs = get_size_def get_free_def get_next_def set_size_def set_free_def set_next_def

partial_function (option) heap_coalesce_loop :: "u32 \<Rightarrow> heap \<Rightarrow> heap option" where
  "heap_coalesce_loop cur h =
     (if cur = 0 then Some h
      else do { n \<leftarrow> get_next cur h;
                if n = 0 then Some h
                else do { f \<leftarrow> get_free cur h;
                          g \<leftarrow> (if f \<noteq> 0 then get_free n h else Some 0);
                          if g \<noteq> 0
                          then do { s \<leftarrow> get_size cur h; k \<leftarrow> get_size n h;
                                    h \<leftarrow> set_size cur (s + (BLOCK_SIZE + k)) h;
                                    nn \<leftarrow> get_next n h;
                                    h \<leftarrow> set_next cur nn h;
                                    heap_coalesce_loop cur h }
                          else heap_coalesce_loop n h } })"

definition heap_coalesce :: "heap \<Rightarrow> heap option" where
  "heap_coalesce h = heap_coalesce_loop (heap_head h) h"

text \<open>The split of a free block: the header of the remainder, then the block's own.\<close>

definition split_block :: "u32 \<Rightarrow> u32 \<Rightarrow> heap \<Rightarrow> heap option" where
  "split_block cur sz h =
     (let new_block = cur + BLOCK_SIZE + sz
      in do { s \<leftarrow> get_size cur h;
              h \<leftarrow> set_size new_block (s - sz - BLOCK_SIZE) h;
              h \<leftarrow> set_free new_block 1 h;
              n \<leftarrow> get_next cur h;
              h \<leftarrow> set_next new_block n h;
              h \<leftarrow> set_next cur new_block h;
              set_size cur sz h })"

definition kmalloc_oom :: msg where "kmalloc_oom = (''kmalloc: out of heap memory!'' @ nl, [])"

partial_function (option) kmalloc_loop :: "u32 \<Rightarrow> u32 \<Rightarrow> heap \<Rightarrow> (heap \<times> u32 \<times> msg list) option" where
  "kmalloc_loop sz cur h =
     (if cur = 0 then Some (h, 0, [kmalloc_oom])
      else do { f \<leftarrow> get_free cur h;
                fits \<leftarrow> (if f \<noteq> 0 then do { s \<leftarrow> get_size cur h; Some (sz \<le> s) } else Some False);
                if fits
                then do { s \<leftarrow> get_size cur h;
                          h \<leftarrow> (if sz + BLOCK_SIZE + 4 \<le> s then split_block cur sz h else Some h);
                          h \<leftarrow> set_free cur 0 h;
                          Some (h, cur + BLOCK_SIZE, []) }
                else do { n \<leftarrow> get_next cur h; kmalloc_loop sz n h } })"

definition kmalloc :: "u32 \<Rightarrow> heap \<Rightarrow> (heap \<times> u32 \<times> msg list) option" where
  "kmalloc sz h =
     (if sz = 0 then Some (h, 0, [])
      else kmalloc_loop ((sz + 3) AND NOT 3) (heap_head h) h)"

definition kfree :: "u32 \<Rightarrow> heap \<Rightarrow> heap option" where
  "kfree ptr h =
     (if ptr = 0 then Some h
      else do { h \<leftarrow> set_free (ptr - BLOCK_SIZE) 1 h; heap_coalesce h })"

function heap_map_loop :: "u32 \<Rightarrow> u32 \<Rightarrow> u32 \<Rightarrow> vmm \<Rightarrow> pmm \<Rightarrow> (vmm \<times> pmm \<times> msg list) option" where
  "heap_map_loop virt_start pages i s m =
     (if i < pages
      then do { (m, phys) \<leftarrow> pmm_alloc m;
                if phys = 0 then Some (s, m, [(''heap: out of physical memory!'' @ nl, [])])
                else do { (s, m, out) \<leftarrow> vmm_map (virt_start + i * 4096) phys page_rwu s m;
                          (s, m, out') \<leftarrow> heap_map_loop virt_start pages (i + 1) s m;
                          Some (s, m, out @ out') } }
      else Some (s, m, []))"
  by pat_completeness auto
termination
  by (relation "measure (\<lambda>(v, pages, i, s, m). unat pages - unat i)") (auto simp: word_less_nat_alt)

declare heap_map_loop.simps [simp del]

definition heap_map_pages :: "u32 \<Rightarrow> u32 \<Rightarrow> vmm \<Rightarrow> pmm \<Rightarrow> (vmm \<times> pmm \<times> msg list) option" where
  "heap_map_pages virt_start sz s m = heap_map_loop virt_start ((sz + 4095) div 4096) 0 s m"

definition heap_init :: "vmm \<Rightarrow> pmm \<Rightarrow> heap \<Rightarrow> (vmm \<times> pmm \<times> heap \<times> msg list) option" where
  "heap_init s m h =
     do { (s, m, out) \<leftarrow> heap_map_pages HEAP_START HEAP_SIZE s m;
          let h = h\<lparr>heap_head := HEAP_START\<rparr>;
          _ \<leftarrow> kaddr s (heap_head h);
          h \<leftarrow> set_size (heap_head h) (HEAP_SIZE - BLOCK_SIZE) h;
          h \<leftarrow> set_free (heap_head h) 1 h;
          h \<leftarrow> set_next (heap_head h) 0 h;
          Some (s, m, h, out @ [(''Heap: initialised at %x, size %d KB'' @ nl,
                                 [KInt HEAP_START, KInt (HEAP_SIZE div 1024)])]) }"

subsection \<open>The heap as a list of blocks\<close>

type_synonym blk = "nat \<times> bool"

fun alloc_spec :: "nat \<Rightarrow> nat \<Rightarrow> blk list \<Rightarrow> (blk list \<times> nat) option" where
  "alloc_spec sz a [] = None"
| "alloc_spec sz a ((n, f) # bs) =
     (if f \<and> sz \<le> n
      then Some (if sz + 16 \<le> n then (sz, False) # (n - sz - 12, True) # bs else (n, False) # bs, a + 12)
      else map_option (\<lambda>(bs', p). ((n, f) # bs', p)) (alloc_spec sz (a + 12 + n) bs))"

fun merge_free :: "blk list \<Rightarrow> blk list" where
  "merge_free [] = []"
| "merge_free [b] = [b]"
| "merge_free ((n, f) # (k, g) # bs) =
     (if f \<and> g then merge_free ((n + (12 + k), True) # bs) else (n, f) # merge_free ((k, g) # bs))"

fun set_free_at :: "nat \<Rightarrow> nat \<Rightarrow> blk list \<Rightarrow> blk list" where
  "set_free_at p a [] = []"
| "set_free_at p a ((n, f) # bs) =
     (if p = a + 12 then (n, True) # bs else (n, f) # set_free_at p (a + 12 + n) bs)"

fun live :: "nat \<Rightarrow> blk list \<Rightarrow> (nat \<times> nat) set" where
  "live a [] = {}"
| "live a ((n, f) # bs) = (if f then {} else {(a + 12, n)}) \<union> live (a + 12 + n) bs"

definition no_adjacent :: "blk list \<Rightarrow> bool" where
  "no_adjacent bs = successively (\<lambda>x y. \<not> (snd x \<and> snd y)) bs"

definition blen :: "blk list \<Rightarrow> nat" where
  "blen bs = sum_list (map (\<lambda>(n, f). n + 12) bs)"

lemma blen_simps [simp]: "blen [] = 0" "blen ((n, f) # bs) = 12 + n + blen bs" "blen (xs @ ys) = blen xs + blen ys"
  by (simp_all add: blen_def)

text \<open>The word at an offset of the 32-bit address space, and its update.\<close>

definition wd :: "(u32 \<Rightarrow> u32) \<Rightarrow> nat \<Rightarrow> u32" where "wd m a = m (of_nat a)"
definition wput :: "nat \<Rightarrow> u32 \<Rightarrow> (u32 \<Rightarrow> u32) \<Rightarrow> u32 \<Rightarrow> u32" where "wput a v m = m(of_nat a := v)"

lemma wd_wput [simp]:
  "a < 0x2000000 \<Longrightarrow> b < 0x2000000 \<Longrightarrow> wd (wput a v m) b = (if b = a then v else wd m b)"
  by (simp add: wd_def wput_def of_nat_u32_eq_iff)

fun heap_seg :: "nat \<Rightarrow> blk list \<Rightarrow> (u32 \<Rightarrow> u32) \<Rightarrow> bool" where
  "heap_seg a [] m = (a = 0x1100000)"
| "heap_seg a ((n, f) # bs) m =
     (wd m a = of_nat n \<and> ((ucast (wd m (a + 4)) :: u8) \<noteq> 0) = f \<and>
      wd m (a + 8) = (if bs = [] then 0 else of_nat (a + 12 + n)) \<and>
      n mod 4 = 0 \<and> 0 < n \<and> heap_seg (a + 12 + n) bs m)"

definition live_words :: "nat \<Rightarrow> blk list \<Rightarrow> nat set" where
  "live_words a bs = (\<Union>(p, n) \<in> live a bs. {p..<p + n})"

lemma heap_seg_bound: "heap_seg a bs m \<Longrightarrow> a \<le> 0x1100000"
  by (induction a bs m rule: heap_seg.induct) auto

lemma heap_seg_end: "heap_seg a bs m \<Longrightarrow> a + blen bs = 0x1100000"
  by (induction a bs m rule: heap_seg.induct) auto

lemma heap_seg_cong:
  "(\<And>x. a \<le> x \<Longrightarrow> x < 0x1100000 \<Longrightarrow> wd m' x = wd m x) \<Longrightarrow> heap_seg a bs m \<Longrightarrow> heap_seg a bs m'"
proof (induction a bs m rule: heap_seg.induct)
  case (2 a n f bs m)
  have "a + 12 + n \<le> 0x1100000" using "2.prems"(2) heap_seg_bound [of "a + 12 + n" bs m] by simp
  then have "wd m' a = wd m a" "wd m' (a + 4) = wd m (a + 4)" "wd m' (a + 8) = wd m (a + 8)"
    using "2.prems"(1) by simp_all
  then show ?case using 2 by (simp del: of_nat_add)
qed simp

lemma live_range: "(p, n) \<in> live a bs \<Longrightarrow> a + 12 \<le> p"
  by (induction a bs rule: live.induct) (auto split: if_splits)

lemma live_bound: "heap_seg a bs m \<Longrightarrow> (p, n) \<in> live a bs \<Longrightarrow> p + n \<le> 0x1100000"
proof (induction a bs m rule: heap_seg.induct)
  case (2 a k f bs m)
  then show ?case using heap_seg_bound [of "a + 12 + k" bs m] by (auto split: if_splits)
qed simp

lemma live_words_range: "x \<in> live_words a bs \<Longrightarrow> a + 12 \<le> x"
  unfolding live_words_def using live_range by fastforce

lemma live_words_bound: "heap_seg a bs m \<Longrightarrow> x \<in> live_words a bs \<Longrightarrow> x < 0x1100000"
  unfolding live_words_def using live_bound by fastforce

lemma live_words_simps [simp]:
  "live_words a [] = {}"
  "live_words a ((n, f) # bs) = (if f then {} else {a + 12..<a + 12 + n}) \<union> live_words (a + 12 + n) bs"
  by (auto simp: live_words_def)

lemma word_and_3: "(a AND 3 = 0) = (unat (a :: u32) mod 4 = 0)"
proof -
  have "a AND 3 = take_bit 2 a" by (simp add: take_bit_eq_mask mask_eq_exp_minus_1)
  then show ?thesis by (simp add: take_bit_eq_mod word_eq_unat unat_mod)
qed

lemma in_heap:
  assumes "0x1000000 \<le> a" "a < 0x1100000" "a mod 4 = 0"
  shows "of_nat a - HEAP_START < HEAP_SIZE \<and> of_nat a AND 3 = (0 :: u32)"
proof -
  have "unat (of_nat a - HEAP_START :: u32) = a - 0x1000000"
    using assms by (simp add: unat_sub_u32 unat_of_nat_u32 HEAP_START_def)
  then show ?thesis
    using assms by (simp add: word_less_nat_alt HEAP_SIZE_def word_and_3 unat_of_nat_u32)
qed

text \<open>Reads and writes of the header at a block address.\<close>

definition blk_at :: "nat \<Rightarrow> bool" where
  "blk_at a \<longleftrightarrow> 0x1000000 \<le> a \<and> a + 12 \<le> 0x1100000 \<and> a mod 4 = 0"

lemma of_nat_plus: "of_nat a + (4 :: u32) = of_nat (a + 4)" "of_nat a + (8 :: u32) = of_nat (a + 8)"
  by simp_all

lemma fields_at [simp]:
  assumes "blk_at a"
  shows "get_size (of_nat a) h = Some (wd (hmem h) a)"
    "get_free (of_nat a) h = Some (ucast (wd (hmem h) (a + 4)))"
    "get_next (of_nat a) h = Some (wd (hmem h) (a + 8))"
    "set_size (of_nat a) v h = Some (h\<lparr>hmem := wput a v (hmem h)\<rparr>)"
    "set_free (of_nat a) c h = Some (h\<lparr>hmem := wput (a + 4) (put_byte c (wd (hmem h) (a + 4))) (hmem h)\<rparr>)"
    "set_next (of_nat a) v h = Some (h\<lparr>hmem := wput (a + 8) v (hmem h)\<rparr>)"
proof -
  have "(a + 4) mod 4 = 0" "(a + 8) mod 4 = 0"
    using assms by (auto simp: blk_at_def mod_simps)
  then show "get_size (of_nat a) h = Some (wd (hmem h) a)"
    "get_free (of_nat a) h = Some (ucast (wd (hmem h) (a + 4)))"
    "get_next (of_nat a) h = Some (wd (hmem h) (a + 8))"
    "set_size (of_nat a) v h = Some (h\<lparr>hmem := wput a v (hmem h)\<rparr>)"
    "set_free (of_nat a) c h = Some (h\<lparr>hmem := wput (a + 4) (put_byte c (wd (hmem h) (a + 4))) (hmem h)\<rparr>)"
    "set_next (of_nat a) v h = Some (h\<lparr>hmem := wput (a + 8) v (hmem h)\<rparr>)"
    using assms in_heap [of a] in_heap [of "a + 4"] in_heap [of "a + 8"]
    unfolding field_defs of_nat_plus blk_at_def hread_def hwrite_def wd_def wput_def
    by (simp_all del: of_nat_add)
qed

lemma ucast_put_byte [simp]: "ucast (put_byte c w) = c"
proof -
  have "n < 8 \<Longrightarrow> bit (0xFF :: u32) n" for n
    using bit_mask_iff [of 8 n, where ?'a = u32] by (simp add: mask_eq_exp_minus_1)
  then show ?thesis by (auto simp: put_byte_def bit_simps intro!: bit_word_eqI)
qed

lemma heap_seg_blk:
  assumes "heap_seg a ((n, f) # bs) m" "0x1000000 \<le> a" "a mod 4 = 0"
  shows "blk_at a" "a + 12 + n \<le> 0x1100000" "(a + 12 + n) mod 4 = 0" "0 < n"
  using assms heap_seg_bound [of "a + 12 + n" bs m] by (auto simp: blk_at_def mod_simps)

text \<open>A list of blocks from \<open>b\<close> on is not changed by stores below \<open>b\<close>.\<close>

lemma heap_seg_wput [simp]:
  assumes "x < b" "heap_seg b bs m"
  shows "heap_seg b bs (wput x v m)"
  by (rule heap_seg_cong [OF _ assms(2)]) (use assms heap_seg_bound [OF assms(2)] in simp)

lemma heap_seg_free_head:
  assumes "heap_seg a ((n, f) # bs) m"
  shows "heap_seg a ((n, c \<noteq> 0) # bs) (wput (a + 4) (put_byte c w) m)"
  using assms heap_seg_bound [of "a + 12 + n" bs m] by (simp del: of_nat_add)

lemma set_free_seg:
  assumes "heap_seg a bs m" "0x1000000 \<le> a" "a mod 4 = 0" "(p, n) \<in> live a bs"
  shows "blk_at (p - 12) \<and> 12 \<le> p \<and>
    heap_seg a (set_free_at p a bs) (wput (p - 8) (put_byte 1 (wd m (p - 8))) m)"
  using assms
proof (induction a bs m rule: heap_seg.induct)
  case (2 a k f bs m)
  note b = heap_seg_blk [OF "2.prems"(1,2,3)]
  show ?case
  proof (cases "p = a + 12")
    case True
    then have "p - 8 = a + 4" by simp
    then show ?thesis using True "2.prems" b by (simp del: of_nat_add)
  next
    case False
    then have p: "(p, n) \<in> live (a + 12 + k) bs" using "2.prems"(4) by (auto split: if_splits)
    then have "a + 24 + k \<le> p" "p < 0x2000000" "p - 8 \<noteq> a" "p - 8 \<noteq> a + 4" "p - 8 \<noteq> a + 8"
      using live_range [OF p] live_bound [of "a + 12 + k" bs m p n] "2.prems"(1) by auto
    moreover have "set_free_at p b bs = [] \<longleftrightarrow> bs = []" for b by (cases "(p, b, bs)" rule: set_free_at.cases) auto
    ultimately show ?thesis
      using "2.IH" p b "2.prems" False by (simp del: of_nat_add)
  qed
qed simp

text \<open>The two loops against the abstract operations.\<close>

definition same_below :: "nat \<Rightarrow> nat set \<Rightarrow> (u32 \<Rightarrow> u32) \<Rightarrow> (u32 \<Rightarrow> u32) \<Rightarrow> bool" where
  "same_below a L m m' \<longleftrightarrow> (\<forall>x < 0x1100000. x < a \<or> x \<in> L \<longrightarrow> wd m' x = wd m x)"

lemma alloc_spec_Nil: "alloc_spec sz a bs = Some (bs', p) \<Longrightarrow> bs' \<noteq> []"
  by (cases bs) (auto split: if_splits prod.splits)

lemma split_block_spec:
  assumes "heap_seg a ((n, True) # bs) (hmem h)" "0x1000000 \<le> a" "a mod 4 = 0"
    and "sz mod 4 = 0" "0 < sz" "sz + 16 \<le> n"
  shows "\<exists>m'. split_block (of_nat a) (of_nat sz) h = Some (h\<lparr>hmem := m'\<rparr>) \<and>
    heap_seg a ((sz, True) # (n - sz - 12, True) # bs) m' \<and>
    same_below a (live_words (a + 12 + n) bs) (hmem h) m'"
proof -
  note b = heap_seg_blk [OF assms(1-3)]
  define c where "c = a + 12 + sz"
  define e where "e = a + 12 + n"
  let ?r = "n - sz - 12"
  have c: "blk_at c" "a + 12 < c" "c + 16 \<le> e" "e \<le> 0x1100000" "c + 12 + ?r = e" "?r mod 4 = 0" "0 < ?r"
    using assms b by (auto simp: blk_at_def mod_simps c_def e_def)
  have c': "of_nat a + BLOCK_SIZE + of_nat sz = (of_nat c :: u32)" by (simp add: BLOCK_SIZE_def c_def)
  have d: "of_nat n - of_nat sz - BLOCK_SIZE = (of_nat ?r :: u32)"
    using assms(6) by (simp add: BLOCK_SIZE_def of_nat_diff)
  have h: "wd (hmem h) a = of_nat n" "heap_seg e bs (hmem h)" "ucast (wd (hmem h) (a + 4)) \<noteq> (0 :: u8)"
    "wd (hmem h) (a + 8) = (if bs = [] then 0 else of_nat e)"
    using assms(1) by (simp_all add: e_def del: of_nat_add)
  let ?m = "wput a (of_nat sz) (wput (a + 8) (of_nat c) (wput (c + 8) (if bs = [] then 0 else of_nat e)
     (wput (c + 4) (put_byte 1 (wd (hmem h) (c + 4))) (wput c (of_nat ?r) (hmem h)))))"
  have "split_block (of_nat a) (of_nat sz) h = Some (h\<lparr>hmem := ?m\<rparr>)"
    unfolding split_block_def Let_def c' using c b(1,2) by (simp add: h d)
  moreover have "heap_seg a ((sz, True) # (?r, True) # bs) ?m"
    unfolding heap_seg.simps c_def [symmetric] c(5) using assms(4,5) c b(1,2) h by simp
  moreover have "same_below a (live_words e bs) (hmem h) ?m"
    unfolding same_below_def using c by (auto dest!: live_words_range)
  ultimately show ?thesis unfolding e_def by blast
qed

lemma kmalloc_fits:
  assumes seg: "heap_seg a ((n, True) # bs) (hmem h)" "0x1000000 \<le> a" "a mod 4 = 0" and sz: "sz mod 4 = 0" "0 < sz" "sz < 4294967296" "sz \<le> n"
  obtains m' bs' where "kmalloc_loop (of_nat sz) (of_nat a) h = Some (h\<lparr>hmem := m'\<rparr>, of_nat (a + 12), [])"
    "alloc_spec sz a ((n, True) # bs) = Some (bs', a + 12)" "heap_seg a bs' m'" "same_below a (live_words (a + 12 + n) bs) (hmem h) m'"
proof -
  note b = heap_seg_blk [OF seg]
  have a0: "of_nat a \<noteq> (0 :: u32)" using b(1) of_nat_u32_eq_iff [of a 0] by (auto simp: blk_at_def)
  have fit: "of_nat sz \<le> (of_nat n :: u32)" "(of_nat sz + BLOCK_SIZE + 4 \<le> (of_nat n :: u32)) = (sz + 16 \<le> n)"
    using b(2) sz(3,4) by (simp add: word_le_nat_alt unat_of_nat_u32,
        simp add: word_le_nat_alt unat_of_nat_u32 BLOCK_SIZE_def unat_add_u32, arith)
  have step: "kmalloc_loop (of_nat sz) (of_nat a) h =
      do { h \<leftarrow> (if sz + 16 \<le> n then split_block (of_nat a) (of_nat sz) h else Some h);
           h \<leftarrow> set_free (of_nat a) 0 h; Some (h, of_nat (a + 12), []) }"
    using a0 b(1) seg(1) fit by (subst kmalloc_loop.simps) (simp add: BLOCK_SIZE_def)
  have "same_below a (live_words (a + 12 + n) bs) (hmem h) (hmem h)" by (simp add: same_below_def)
  then obtain m n' bs' where m: "(if sz + 16 \<le> n then split_block (of_nat a) (of_nat sz) h else Some h) = Some (h\<lparr>hmem := m\<rparr>)"
    "heap_seg a ((n', True) # bs') m" "same_below a (live_words (a + 12 + n) bs) (hmem h) m"
    "alloc_spec sz a ((n, True) # bs) = Some ((n', False) # bs', a + 12)"
  proof (cases "sz + 16 \<le> n")
    case False
    with that [of "hmem h" n bs] seg(1) sz(4) \<open>same_below a _ _ (hmem h)\<close> show ?thesis by simp
  qed (use that split_block_spec [of a n bs h sz] seg sz in \<open>auto simp del: of_nat_add heap_seg.simps\<close>)
  have "same_below a (live_words (a + 12 + n) bs) (hmem h) (wput (a + 4) v m)" for v
    using m(3) b(1) by (auto simp: same_below_def blk_at_def dest!: live_words_range)
  then show thesis
    using that [of _ "(n', False) # bs'"] m heap_seg_free_head [OF m(2), of 0] seg(2,3) b(1)
    by (auto simp: step simp del: of_nat_add heap_seg.simps)
qed

lemma kmalloc_loop_spec:
  assumes "heap_seg a bs (hmem h)" "0x1000000 \<le> a" "a mod 4 = 0" "sz mod 4 = 0" "0 < sz" "sz < 4294967296"
    and "bs \<noteq> []"
  shows "case alloc_spec sz a bs of
      None \<Rightarrow> kmalloc_loop (of_nat sz) (of_nat a) h = Some (h, 0, [kmalloc_oom])
    | Some (bs', p) \<Rightarrow> \<exists>m'. kmalloc_loop (of_nat sz) (of_nat a) h = Some (h\<lparr>hmem := m'\<rparr>, of_nat p, []) \<and>
        heap_seg a bs' m' \<and> same_below a (live_words a bs) (hmem h) m'"
  using assms
proof (induction bs arbitrary: a)
  case (Cons b bs)
  obtain n f where nf: "b = (n, f)" by (cases b)
  note seg = Cons.prems(1) [unfolded nf]
  note b = heap_seg_blk [OF seg Cons.prems(2,3)]
  have a0: "of_nat a \<noteq> (0 :: u32)"
    using b(1) of_nat_u32_eq_iff [of a 0] by (auto simp: blk_at_def)
  have fit: "(of_nat sz \<le> (of_nat n :: u32)) = (sz \<le> n)"
    using b(2) Cons.prems(6) by (simp add: word_le_nat_alt unat_of_nat_u32)
  consider "f" "sz \<le> n" | "\<not> (f \<and> sz \<le> n)" by blast
  then show ?case
  proof cases
    case 1
    then have "heap_seg a ((n, True) # bs) (hmem h)" using seg by simp
    then obtain m' bs' where "kmalloc_loop (of_nat sz) (of_nat a) h = Some (h\<lparr>hmem := m'\<rparr>, of_nat (a + 12), [])"
      "alloc_spec sz a ((n, True) # bs) = Some (bs', a + 12)" "heap_seg a bs' m'" "same_below a (live_words (a + 12 + n) bs) (hmem h) m'"
      by (rule kmalloc_fits [OF _ Cons.prems(2-6) 1(2)])
    then show ?thesis using 1(1) by (auto simp: nf simp del: of_nat_add alloc_spec.simps)
  next
    case 2
    then have step: "kmalloc_loop (of_nat sz) (of_nat a) h =
        kmalloc_loop (of_nat sz) (if bs = [] then 0 else of_nat (a + 12 + n)) h"
      using a0 b(1) seg fit by (subst kmalloc_loop.simps) (auto simp del: of_nat_add)
    show ?thesis
    proof (cases "bs = []")
      case True
      then show ?thesis using step 2 nf by (auto simp: kmalloc_loop.simps [of _ 0])
    next
      case bs: False
      have "same_below a (live_words a ((n, f) # bs)) (hmem h) m'"
        if "same_below (a + 12 + n) (live_words (a + 12 + n) bs) (hmem h) m'" for m'
        using that by (auto simp: same_below_def)
      moreover have "heap_seg a ((n, f) # bs') m'"
        if "same_below (a + 12 + n) (live_words (a + 12 + n) bs) (hmem h) m'"
          "heap_seg (a + 12 + n) bs' m'" "bs' \<noteq> []" for bs' m'
        using that seg bs b(1) by (auto simp: same_below_def blk_at_def simp del: of_nat_add)
      ultimately show ?thesis
        using Cons.IH [of "a + 12 + n"] seg Cons.prems b bs 2 step
        by (auto simp: nf alloc_spec_Nil split: option.splits simp del: of_nat_add)
    qed
  qed
qed simp


lemma merge_free_Nil [simp]: "merge_free bs = [] \<longleftrightarrow> bs = []"
  by (induction bs rule: merge_free.induct) auto

text \<open>One round of the loop at two neighbours: it joins two free blocks, or goes on to the second.\<close>

lemma coalesce_step:
  assumes "heap_seg a ((n, f) # (k, g) # bs) (hmem h)" "0x1000000 \<le> a" "a mod 4 = 0"
  shows "\<not> (f \<and> g) \<Longrightarrow> heap_coalesce_loop (of_nat a) h = heap_coalesce_loop (of_nat (a + 12 + n)) h"
    and "f \<and> g \<Longrightarrow> \<exists>m. heap_coalesce_loop (of_nat a) h = heap_coalesce_loop (of_nat a) (h\<lparr>hmem := m\<rparr>) \<and>
      heap_seg a ((n + (12 + k), True) # bs) m \<and>
      (\<forall>m'. same_below a (live_words a ((n + (12 + k), True) # bs)) m m' \<longrightarrow>
         same_below a (live_words a ((n, f) # (k, g) # bs)) (hmem h) m')"
proof -
  define c where "c = a + 12 + n"
  note b = heap_seg_blk [OF assms, folded c_def]
  have segc: "heap_seg c ((k, g) # bs) (hmem h)" using assms(1) by (simp add: c_def)
  note bc = heap_seg_blk [OF segc]
  have cur: "of_nat a \<noteq> (0 :: u32)" "of_nat c \<noteq> (0 :: u32)"
    using b of_nat_u32_eq_iff [of a 0] of_nat_u32_eq_iff [of c 0] assms(2) by (auto simp: c_def)
  have c: "0x1000000 \<le> c" "c mod 4 = 0" "a + 12 < c" using b assms by (auto simp: c_def)
  have hdr: "wd (hmem h) a = of_nat n" "((ucast (wd (hmem h) (a + 4)) :: u8) \<noteq> 0) = f"
    "wd (hmem h) (a + 8) = of_nat c" "wd (hmem h) c = of_nat k"
    "((ucast (wd (hmem h) (c + 4)) :: u8) \<noteq> 0) = g"
    "wd (hmem h) (c + 8) = (if bs = [] then 0 else of_nat (c + 12 + k))"
    using assms(1) by (simp_all add: c_def del: of_nat_add)
  show "heap_coalesce_loop (of_nat a) h = heap_coalesce_loop (of_nat (a + 12 + n)) h" if "\<not> (f \<and> g)"
    using hdr that cur b(1) bc c unfolding c_def [symmetric] by (subst heap_coalesce_loop.simps) (auto simp del: of_nat_add)
  assume fg: "f \<and> g"
  let ?m = "wput (a + 8) (wd (hmem h) (c + 8)) (wput a (of_nat n + (BLOCK_SIZE + of_nat k)) (hmem h))"
  have step: "heap_coalesce_loop (of_nat a) h = heap_coalesce_loop (of_nat a) (h\<lparr>hmem := ?m\<rparr>)"
    using hdr fg cur b(1) bc c by (subst heap_coalesce_loop.simps) (simp del: of_nat_add)
  have "of_nat n + (BLOCK_SIZE + of_nat k) = (of_nat (n + (12 + k)) :: u32)" by (simp add: BLOCK_SIZE_def)
  moreover have e: "a + 12 + (n + (12 + k)) = c + 12 + k" by (simp add: c_def)
  moreover have "(n + (12 + k)) mod 4 = 0" using assms(1) by (auto simp: mod_simps)
  ultimately have "heap_seg a ((n + (12 + k), True) # bs) ?m"
    unfolding heap_seg.simps e using hdr segc b bc c fg by (simp del: of_nat_add)
  moreover have "same_below a (live_words a ((n, f) # (k, g) # bs)) (hmem h) m'"
    if "same_below a (live_words a ((n + (12 + k), True) # bs)) ?m m'" for m'
    using that fg b bc c(1,3) by (auto simp: same_below_def ac_simps dest: live_words_range)
  ultimately show "\<exists>m. heap_coalesce_loop (of_nat a) h = heap_coalesce_loop (of_nat a) (h\<lparr>hmem := m\<rparr>) \<and>
      heap_seg a ((n + (12 + k), True) # bs) m \<and>
      (\<forall>m'. same_below a (live_words a ((n + (12 + k), True) # bs)) m m' \<longrightarrow>
         same_below a (live_words a ((n, f) # (k, g) # bs)) (hmem h) m')"
    using step by blast
qed

lemma heap_coalesce_loop_spec:
  assumes "heap_seg a bs (hmem h)" "0x1000000 \<le> a" "a mod 4 = 0" "bs \<noteq> []"
  shows "\<exists>m'. heap_coalesce_loop (of_nat a) h = Some (h\<lparr>hmem := m'\<rparr>) \<and> heap_seg a (merge_free bs) m' \<and>
    same_below a (live_words a bs) (hmem h) m'"
  using assms
proof (induction bs arbitrary: a h rule: merge_free.induct)
  case (2 b)
  obtain n f where nf: "b = (n, f)" by (cases b)
  have "blk_at a" using heap_seg_blk(1) [of a n f "[]" "hmem h"] 2 nf by simp
  then have "heap_coalesce_loop (of_nat a) h = Some h"
    using 2 by (subst heap_coalesce_loop.simps) (simp add: nf del: of_nat_add)
  then show ?case using 2 by (intro exI [of _ "hmem h"]) (simp add: same_below_def)
next
  case (3 n f k g bs)
  note step = coalesce_step [OF "3.prems"(1-3)]
  show ?case
  proof (cases "f \<and> g")
    case True
    then obtain m where m: "heap_coalesce_loop (of_nat a) h = heap_coalesce_loop (of_nat a) (h\<lparr>hmem := m\<rparr>)"
      "heap_seg a ((n + (12 + k), True) # bs) m"
      "\<And>m'. same_below a (live_words a ((n + (12 + k), True) # bs)) m m' \<Longrightarrow> same_below a (live_words a ((n, f) # (k, g) # bs)) (hmem h) m'"
      using step(2) by blast
    then show ?thesis using "3.IH"(1) [OF True, of a "h\<lparr>hmem := m\<rparr>"] "3.prems"(2,3) True by auto
  next
    case False
    let ?c = "a + 12 + n"
    have segc: "heap_seg ?c ((k, g) # bs) (hmem h)" using "3.prems"(1) by simp
    note b = heap_seg_blk [OF "3.prems"(1-3)]
    obtain m' where m': "heap_coalesce_loop (of_nat ?c) h = Some (h\<lparr>hmem := m'\<rparr>)"
      "heap_seg ?c (merge_free ((k, g) # bs)) m'" "same_below ?c (live_words ?c ((k, g) # bs)) (hmem h) m'"
      using "3.IH"(2) [OF False segc] b "3.prems" by auto
    then have "heap_seg a ((n, f) # merge_free ((k, g) # bs)) m'"
      using "3.prems"(1) b merge_free_Nil by (auto simp: same_below_def blk_at_def simp del: of_nat_add)
    moreover have "same_below a (live_words a ((n, f) # (k, g) # bs)) (hmem h) m'"
      using m'(3) by (auto simp: same_below_def)
    ultimately show ?thesis using m'(1) step(1) [OF False] False by auto
  qed
qed simp


subsection \<open>The heap invariant and the operations\<close>

definition heap_rep :: "heap \<Rightarrow> blk list \<Rightarrow> bool" where
  "heap_rep h bs \<longleftrightarrow> heap_head h = HEAP_START \<and> heap_seg 0x1000000 bs (hmem h) \<and> no_adjacent bs"

text \<open>The round-up to a multiple of four.\<close>

definition up4 :: "nat \<Rightarrow> nat" where "up4 n = (n + 3) div 4 * 4"

lemma unat_align:
  assumes "unat sz \<le> 0xFFFFFFFC"
  shows "(sz + 3) AND NOT 3 = (of_nat (up4 (unat sz)) :: u32)"
proof -
  have *: "(x AND NOT 3) + (x AND 3) = x" for x :: u32
  proof -
    have "(x AND NOT 3) + (x AND 3) = (x AND NOT 3) OR (x AND 3)"
      by (rule disjunctive_add_eq_or, rule bit_word_eqI) (auto simp: bit_simps)
    also have "\<dots> = x" by (rule bit_word_eqI) (auto simp: bit_simps)
    finally show ?thesis .
  qed
  have "unat (x AND 3) = unat x mod 4" for x :: u32
  proof -
    have "x AND 3 = take_bit 2 x" by (simp add: take_bit_eq_mask mask_eq_exp_minus_1)
    then show ?thesis by (simp add: take_bit_eq_mod unat_mod)
  qed
  moreover have "x AND NOT 3 = x - (x AND 3)" for x :: u32
    using * [of x] by (simp add: eq_diff_eq)
  ultimately have "unat (x AND NOT 3) = unat x div 4 * 4" for x :: u32
    by (simp add: unat_sub_u32 minus_mod_eq_div_mult)
  then show ?thesis
    using assms by (simp add: up4_def unat_add_u32 word_eq_unat unat_of_nat_u32 del: of_nat_mult)
qed

text \<open>The abstract operations, as the place in the list they change.\<close>

lemma live_append: "live a (xs @ ys) = live a xs \<union> live (a + blen xs) ys"
  by (induction xs arbitrary: a) (auto simp: ac_simps)

lemma live_upper: "(p, n) \<in> live a xs \<Longrightarrow> p + n \<le> a + blen xs"
  by (induction xs arbitrary: a) (fastforce split: if_splits)+

lemma alloc_spec_place:
  assumes "alloc_spec sz a bs = Some (bs', p)"
  obtains pre n post where "bs = pre @ (n, True) # post" "sz \<le> n" "p = a + blen pre + 12"
    "bs' = pre @ (if sz + 16 \<le> n then [(sz, False), (n - sz - 12, True)] else [(n, False)]) @ post"
    "\<forall>(k, f) \<in> set pre. \<not> (f \<and> sz \<le> k)"
  using assms
proof (induction bs arbitrary: a bs' thesis)
  case (Cons b bs)
  obtain k f where b: "b = (k, f)" by (cases b)
  show ?case
  proof (cases "f \<and> sz \<le> k")
    case True
    then show ?thesis using Cons.prems(1) [of "[]" k bs] Cons.prems(2) b by auto
  next
    case False
    then obtain cs where cs: "alloc_spec sz (a + 12 + k) bs = Some (cs, p)" "bs' = b # cs"
      using Cons.prems(2) b by auto
    then obtain pre n post where "bs = pre @ (n, True) # post" "sz \<le> n" "p = a + 12 + k + blen pre + 12"
      "cs = pre @ (if sz + 16 \<le> n then [(sz, False), (n - sz - 12, True)] else [(n, False)]) @ post"
      "\<forall>(k, f) \<in> set pre. \<not> (f \<and> sz \<le> k)"
      using Cons.IH by blast
    then show ?thesis using Cons.prems(1) [of "b # pre" n post] cs False b by simp
  qed
qed simp

lemma alloc_spec_None: "alloc_spec sz a bs = None \<longleftrightarrow> (\<forall>(n, f) \<in> set bs. \<not> (f \<and> sz \<le> n))"
  by (induction bs arbitrary: a) (auto split: if_splits)

lemma set_free_place:
  assumes "(p, n) \<in> live a bs"
  obtains pre post where "bs = pre @ (n, False) # post" "p = a + blen pre + 12"
    "set_free_at p a bs = pre @ (n, True) # post"
  using assms
proof (induction bs arbitrary: a thesis)
  case (Cons b bs)
  obtain k f where b: "b = (k, f)" by (cases b)
  show ?case
  proof (cases "p = a + 12")
    case True
    then have "\<not> f \<and> n = k" using Cons.prems(2) b live_range [of p n "a + 12 + k" bs] by (auto split: if_splits)
    then show ?thesis using Cons.prems(1) [of "[]" bs] b True by simp
  next
    case False
    then obtain pre post where "bs = pre @ (n, False) # post" "p = a + 12 + k + blen pre + 12"
      "set_free_at p (a + 12 + k) bs = pre @ (n, True) # post"
      using Cons.IH [of "a + 12 + k"] Cons.prems(2) b by (auto split: if_splits)
    then show ?thesis using Cons.prems(1) [of "b # pre" post] b False by simp
  qed
qed simp

lemma no_adjacent_alloc:
  assumes "no_adjacent bs" "alloc_spec sz a bs = Some (bs', p)"
  shows "no_adjacent bs'"
  by (rule alloc_spec_place [OF assms(2)])
    (use assms(1) in \<open>auto simp: no_adjacent_def successively_append_iff successively_Cons\<close>)

lemma hd_merge_free: "bs \<noteq> [] \<Longrightarrow> snd (hd (merge_free bs)) = snd (hd bs)"
  by (induction bs rule: merge_free.induct) auto

lemma no_adjacent_merge: "no_adjacent (merge_free bs)"
proof (induction bs rule: merge_free.induct)
  case (3 n f k g bs)
  then show ?case
    using hd_merge_free [of "(k, g) # bs"] by (auto simp: no_adjacent_def successively_Cons)
qed (simp_all add: no_adjacent_def)

lemma live_merge: "live a (merge_free bs) = live a bs"
  by (induction bs arbitrary: a rule: merge_free.induct) (auto simp: ac_simps)

text \<open>The blocks on the two sides of the one at \<open>p\<close> keep away from it.\<close>

lemma live_before: "x \<in> live a pre \<Longrightarrow> fst x + snd x < a + blen pre + 12"
  using live_upper [of "fst x" "snd x" a pre] by simp

lemma live_after: "x \<in> live b post \<Longrightarrow> b + 12 \<le> fst x"
  using live_range [of "fst x" "snd x" b post] by simp

lemma live_set_free:
  assumes "(p, n) \<in> live a bs"
  shows "live a (set_free_at p a bs) = live a bs - {(p, n)}"
proof (rule set_free_place [OF assms])
  fix pre post
  assume *: "bs = pre @ (n, False) # post" "p = a + blen pre + 12" "set_free_at p a bs = pre @ (n, True) # post"
  then have "(p, n) \<notin> live a pre" "(p, n) \<notin> live (a + blen pre + 12 + n) post"
    using live_before live_after by fastforce+
  then show ?thesis unfolding *(3) using * by (simp add: live_append Un_Diff)
qed

lemma live_alloc:
  assumes "alloc_spec sz a bs = Some (bs', p)"
  obtains n where "sz \<le> n" "n < sz + 16" "live a bs' = insert (p, n) (live a bs)"
    "{p..<p + n} \<inter> live_words a bs = {}" "a + 12 \<le> p"
proof (rule alloc_spec_place [OF assms])
  fix pre n post
  assume *: "bs = pre @ (n, True) # post" "sz \<le> n" "p = a + blen pre + 12"
    "bs' = pre @ (if sz + 16 \<le> n then [(sz, False), (n - sz - 12, True)] else [(n, False)]) @ post"
  let ?n = "if sz + 16 \<le> n then sz else n"
  have l: "live a bs' = insert (p, ?n) (live a bs)"
    using * by (auto simp: live_append ac_simps)
  have "q + k < p \<or> p + n < q"
    if "(q, k) \<in> live a pre \<or> (q, k) \<in> live (a + blen pre + 12 + n) post" for q k
    using that * live_before live_after by fastforce
  then have "{p..<p + n} \<inter> live_words a bs = {}"
    unfolding live_words_def using * by (fastforce simp: live_append)
  moreover have "{p..<p + ?n} \<subseteq> {p..<p + n}" using *(2) by auto
  ultimately have "{p..<p + ?n} \<inter> live_words a bs = {}" by blast
  then show ?thesis using that [of ?n] l * by auto
qed


definition keeps :: "(nat \<times> nat) set \<Rightarrow> heap \<Rightarrow> heap \<Rightarrow> bool" where
  "keeps L h h' \<longleftrightarrow> (\<forall>(p, n) \<in> L. \<forall>x. p \<le> x \<and> x < p + n \<longrightarrow> wd (hmem h') x = wd (hmem h) x)"

lemma heap_rep_not_Nil: "heap_rep h bs \<Longrightarrow> bs \<noteq> []"
  by (auto simp: heap_rep_def)

lemma same_below_keeps:
  assumes "heap_seg a bs m" "same_below a (live_words a bs) (hmem h) (hmem h')"
  shows "keeps (live a bs) h h'"
proof -
  have "wd (hmem h') x = wd (hmem h) x" if "(p, n) \<in> live a bs" "p \<le> x" "x < p + n" for p n x
  proof -
    have "x \<in> live_words a bs" "x < 0x1100000"
      using that live_bound [OF assms(1) that(1)] by (auto simp: live_words_def intro!: bexI [of _ "(p, n)"])
    then show ?thesis using assms(2) by (simp add: same_below_def)
  qed
  then show ?thesis by (auto simp: keeps_def)
qed

lemma up4_props [simp]: "up4 n mod 4 = 0" "n \<le> up4 n" "up4 n < n + 4" "0 < up4 n \<longleftrightarrow> 0 < n"
  unfolding up4_def by presburger+

lemma up4_bound: "n \<le> 0xFFFFFFFC \<Longrightarrow> up4 n < 4294967296"
  unfolding up4_def by presburger

lemma kmalloc_spec:
  assumes "heap_rep h bs" "0 < unat sz" "unat sz \<le> 0xFFFFFFFC"
  shows "case alloc_spec (up4 (unat sz)) 0x1000000 bs of
      None \<Rightarrow> kmalloc sz h = Some (h, 0, [kmalloc_oom])
    | Some (bs', p) \<Rightarrow> \<exists>h'. kmalloc sz h = Some (h', of_nat p, []) \<and> heap_rep h' bs' \<and>
        keeps (live 0x1000000 bs) h h'"
proof -
  let ?n = "up4 (unat sz)"
  have loop: "case alloc_spec ?n 0x1000000 bs of
      None \<Rightarrow> kmalloc_loop (of_nat ?n) (of_nat 0x1000000) h = Some (h, 0, [kmalloc_oom])
    | Some (bs', p) \<Rightarrow> \<exists>m'. kmalloc_loop (of_nat ?n) (of_nat 0x1000000) h = Some (h\<lparr>hmem := m'\<rparr>, of_nat p, []) \<and>
        heap_seg 0x1000000 bs' m' \<and> same_below 0x1000000 (live_words 0x1000000 bs) (hmem h) m'"
    using assms heap_rep_not_Nil [OF assms(1)] up4_bound [OF assms(3)]
    by (intro kmalloc_loop_spec) (simp_all add: heap_rep_def)
  have "sz \<noteq> 0" using assms(2) by auto
  then have k: "kmalloc sz h = kmalloc_loop (of_nat ?n) (of_nat 0x1000000) h"
    using assms unat_align [of sz] by (simp add: kmalloc_def heap_rep_def HEAP_START_def)
  show ?thesis
  proof (cases "alloc_spec ?n 0x1000000 bs")
    case None
    then show ?thesis using loop k by simp
  next
    case (Some r)
    then obtain bs' p m' where "r = (bs', p)" "kmalloc sz h = Some (h\<lparr>hmem := m'\<rparr>, of_nat p, [])"
      "heap_seg 0x1000000 bs' m'" "same_below 0x1000000 (live_words 0x1000000 bs) (hmem h) m'"
      using loop k by (cases r) auto
    then show ?thesis
      using Some assms(1) no_adjacent_alloc [of bs] same_below_keeps [of _ bs "hmem h" h "h\<lparr>hmem := m'\<rparr>"]
      by (auto simp: heap_rep_def)
  qed
qed

text \<open>The \<open>free\<close> byte of the block being freed is in no block that stays allocated.\<close>

lemma header_not_live:
  assumes "(p, n) \<in> live a bs" "(q, k) \<in> live a (set_free_at p a bs)" "q \<le> x" "x < q + k"
  shows "x \<noteq> p - 8"
proof (rule set_free_place [OF assms(1)])
  fix pre post
  assume *: "p = a + blen pre + 12" "set_free_at p a bs = pre @ (n, True) # post"
  then have "q + k \<le> a + blen pre \<or> a + blen pre + 12 + n + 12 \<le> q"
    using assms(2) live_upper [of q k a pre] live_range [of q k "a + blen pre + 12 + n" post]
    by (auto simp: live_append)
  then show ?thesis using *(1) assms(3,4) by auto
qed

lemma kfree_spec:
  assumes "heap_rep h bs" "(unat ptr, n) \<in> live 0x1000000 bs"
  shows "\<exists>h'. kfree ptr h = Some h' \<and> heap_rep h' (merge_free (set_free_at (unat ptr) 0x1000000 bs)) \<and>
    keeps (live 0x1000000 bs - {(unat ptr, n)}) h h'"
proof -
  let ?p = "unat ptr" and ?a = "0x1000000 :: nat"
  let ?m = "wput (?p - 8) (put_byte 1 (wd (hmem h) (?p - 8))) (hmem h)"
  let ?bs = "set_free_at ?p ?a bs"
  have seg: "heap_seg ?a bs (hmem h)" using assms(1) by (simp add: heap_rep_def)
  have f: "blk_at (?p - 12)" "12 \<le> ?p" "heap_seg ?a ?bs ?m" using set_free_seg [OF seg _ _ assms(2)] by simp_all
  have "ptr - BLOCK_SIZE = of_nat (?p - 12)" "?p - 12 + 4 = ?p - 8" using f(2) by (simp_all add: BLOCK_SIZE_def of_nat_diff)
  then have free: "set_free (ptr - BLOCK_SIZE) 1 h = Some (h\<lparr>hmem := ?m\<rparr>)" using fields_at(5) [OF f(1)] by simp
  have "?bs \<noteq> []" using f(3) by auto
  then obtain m' where m': "heap_coalesce_loop (of_nat ?a) (h\<lparr>hmem := ?m\<rparr>) = Some (h\<lparr>hmem := m'\<rparr>)"
    "heap_seg ?a (merge_free ?bs) m'" "same_below ?a (live_words ?a ?bs) ?m m'"
    using heap_coalesce_loop_spec [of ?a ?bs "h\<lparr>hmem := ?m\<rparr>"] f(3) by auto
  have "kfree ptr h = Some (h\<lparr>hmem := m'\<rparr>)"
    using f(2) free m'(1) assms(1) by (auto simp: kfree_def heap_coalesce_def heap_rep_def HEAP_START_def)
  moreover have "heap_rep (h\<lparr>hmem := m'\<rparr>) (merge_free ?bs)"
    using assms(1) m'(2) no_adjacent_merge by (simp add: heap_rep_def)
  moreover have "keeps (live ?a bs - {(?p, n)}) h (h\<lparr>hmem := m'\<rparr>)"
  proof -
    have "keeps (live ?a ?bs) (h\<lparr>hmem := ?m\<rparr>) (h\<lparr>hmem := m'\<rparr>)"
      using same_below_keeps [OF f(3)] m'(3) by simp
    moreover have "wd ?m x = wd (hmem h) x" if "(q, k) \<in> live ?a ?bs" "q \<le> x" "x < q + k" for q k x
      using that header_not_live [OF assms(2) that] live_bound [OF f(3) that(1)] live_bound [OF seg assms(2)]
      by simp
    ultimately show ?thesis
      using live_set_free [OF assms(2)] by (fastforce simp: keeps_def)
  qed
  ultimately show ?thesis by blast
qed

subsection \<open>Initialisation\<close>

lemma vmm_inv_subset:
  "vmm_inv s m \<Longrightarrow> free_frames m' \<subseteq> free_frames m \<Longrightarrow> vmm_inv s m'"
  unfolding vmm_inv_def by blast

text \<open>No page table sits at the addresses of the heap.\<close>

definition tables_off_heap :: "vmm \<Rightarrow> bool" where
  "tables_off_heap s \<longleftrightarrow> (\<forall>d < 1024. pde_present s d \<longrightarrow>
     \<not> (4096 \<le> vpage (table_frame s d) \<and> vpage (table_frame s d) < 4352))"

lemma heap_page:
  assumes "unat i < 256"
  shows "vpage (HEAP_START + i * 4096) = 4096 + unat i" "unat (dir_index (HEAP_START + i * 4096)) = 4"
proof -
  have "unat (HEAP_START + i * 4096) = 16777216 + unat i * 4096"
    using assms by (simp add: HEAP_START_def unat_add_u32 unat_mult_u32)
  then show "vpage (HEAP_START + i * 4096) = 4096 + unat i" "unat (dir_index (HEAP_START + i * 4096)) = 4"
    using assms by (simp_all add: unat_dir_index) presburger?
qed

text \<open>The heap needs one page table, the fifth of the directory; it is the second frame taken.\<close>

definition second_frame :: "pmm \<Rightarrow> nat" where
  "second_frame m = Min (free_frames m - {Min (free_frames m)})"

definition heap_tables :: "vmm \<Rightarrow> u32 \<Rightarrow> vmm \<Rightarrow> bool" where
  "heap_tables s t s' \<longleftrightarrow> (\<forall>d < 1024. pde_present s' d = (d = 4 \<or> pde_present s d) \<and>
     table_frame s' d = (if d = 4 then t else table_frame s d))"

lemma heap_tables_trans: "heap_tables s t s1 \<Longrightarrow> heap_tables s1 (table_frame s1 4) s' \<Longrightarrow> heap_tables s t s'"
  by (auto simp: heap_tables_def)

text \<open>One round of the loop, once the directory has a table for the heap or can take one.\<close>

lemma heap_map_step:
  assumes inv: "vmm_inv s m" "pmm_inv m" and i: "unat i < 256" and free: "free_frames m \<noteq> {}"
    and off: "tables_off_heap s"
    and ready: "pde_present s 4 \<or> (\<exists>f. f \<in> free_frames m - {Min (free_frames m)} \<and> f < 4096 \<and>
       f = Min (free_frames m - {Min (free_frames m)}) \<and> ident s (of_nat (4096 * f)))"
  obtains s' m' where "heap_map_loop HEAP_START 256 i s m = heap_map_loop HEAP_START 256 (i + 1) s' m'"
    "vmm_inv s' m'" "pmm_inv m'" "pde_present s' 4" "tables_off_heap s'"
    "free_frames m' = free_frames m - {Min (free_frames m)} -
       (if pde_present s 4 then {} else {Min (free_frames m - {Min (free_frames m)})})"
    "\<And>va. mmu_walk s' va = (if vpage va = 4096 + unat i
       then Some (next_frame m OR (va AND 0xFFF)) else mmu_walk s va)"
    "heap_tables s (if pde_present s 4 then table_frame s 4 else of_nat (4096 * second_frame m)) s'"
proof -
  let ?v = "HEAP_START + i * 4096"
  note page = heap_page [OF i]
  obtain m1 where m1: "pmm_alloc m = Some (m1, next_frame m)" "pmm_inv m1" "next_frame m \<noteq> 0"
    "aligned (next_frame m)" "free_frames m1 = free_frames m - {Min (free_frames m)}"
    by (rule pmm_alloc_next_frame [OF inv(2) free]) metis
  have inv1: "vmm_inv s m1" using vmm_inv_subset [OF inv(1)] m1(5) by auto
  have r: "table_ready ?v s m1" using ready m1(5) page by (auto simp: table_ready_def next_frame_def)
  have vn: "vpage (next_frame m1) = Min (free_frames m1)" if "free_frames m1 \<noteq> {}"
    by (rule pmm_alloc_next_frame [OF m1(2) that])
  have vm: "vpage (next_frame m1) < 4096" if np: "\<not> pde_present s 4"
  proof -
    obtain f where "f \<in> free_frames m1" "f = Min (free_frames m1)" "f < 4096"
      using ready np m1(5) by auto
    then show ?thesis using vn by fastforce
  qed
  then have n: "not_table ?v s m1"
    using off page i by (auto simp: not_table_def tables_off_heap_def)
  obtain s' m' where map: "vmm_map ?v (next_frame m) page_rwu s m1 = Some (s', m', [])"
    "vmm_inv s' m'" "pmm_inv m'" "\<And>va. mmu_walk s' va = (if vpage va = vpage ?v
        then Some (frame_of (next_frame m) OR (va AND 0xFFF)) else mmu_walk s va)"
    "took_table ?v s m1 s' m'"
    by (rule vmm_map_spec [OF inv1 m1(2) frame_of_rwu r n]) blast
  show ?thesis
  proof (rule that [of s' m'])
    have "i < 256" using i by (simp add: word_less_nat_alt)
    then show "heap_map_loop HEAP_START 256 i s m = heap_map_loop HEAP_START 256 (i + 1) s' m'"
      using m1(1,3) map(1) by (subst heap_map_loop.simps) (auto split: bind_splits)
    show "tables_off_heap s'"
      using off map(5) page vm by (auto simp: tables_off_heap_def took_table_def)
    show "heap_tables s (if pde_present s 4 then table_frame s 4 else of_nat (4096 * second_frame m)) s'"
      using map(5) page m1(5) by (auto simp: heap_tables_def took_table_def next_frame_def second_frame_def)
  qed (use map m1 page in \<open>auto simp: took_table_def\<close>)
qed


text \<open>The pages of the heap from number \<open>i\<close> on translate to frames of their own that were free before.\<close>

definition heap_backed :: "(nat \<Rightarrow> nat) \<Rightarrow> nat \<Rightarrow> vmm \<Rightarrow> pmm \<Rightarrow> vmm \<Rightarrow> pmm \<Rightarrow> bool" where
  "heap_backed g i s m s' m' \<longleftrightarrow> inj_on g {i..<256} \<and> g ` {i..<256} \<subseteq> free_frames m \<and>
     free_frames m' \<subseteq> free_frames m - g ` {i..<256} \<and>
     (\<forall>va. mmu_walk s' va = (if 4096 + i \<le> vpage va \<and> vpage va < 4352
        then Some (of_nat (4096 * g (vpage va - 4096)) OR (va AND 0xFFF)) else mmu_walk s va))"

lemma heap_backed_Suc:
  assumes g: "heap_backed g (Suc i) s1 m1 s' m'" and i: "i < 256" and f: "f \<in> free_frames m" "free_frames m1 \<subseteq> free_frames m - {f}"
    and s1: "\<And>va. mmu_walk s1 va = (if vpage va = 4096 + i then Some (of_nat (4096 * f) OR (va AND 0xFFF)) else mmu_walk s va)"
  shows "heap_backed (g(i := f)) i s m s' m'"
proof -
  have dom: "{i..<256} = insert i {Suc i..<256}" using i by auto
  have img: "(g(i := f)) ` {i..<256} = insert f (g ` {Suc i..<256})" unfolding dom by auto
  have new: "f \<notin> g ` {Suc i..<256}" using g f(2) by (auto simp: heap_backed_def)
  have "inj_on (g(i := f)) {i..<256}" unfolding dom inj_on_insert using g new by (auto simp: heap_backed_def inj_on_fun_updI)
  moreover have "mmu_walk s' va = (if 4096 + i \<le> vpage va \<and> vpage va < 4352
      then Some (of_nat (4096 * (g(i := f)) (vpage va - 4096)) OR (va AND 0xFFF)) else mmu_walk s va)" for va
  proof -
    have "mmu_walk s' va = (if 4096 + Suc i \<le> vpage va \<and> vpage va < 4352
        then Some (of_nat (4096 * g (vpage va - 4096)) OR (va AND 0xFFF)) else mmu_walk s1 va)" using g by (simp add: heap_backed_def)
    then show ?thesis using s1 [of va] i by (cases "vpage va = 4096 + i") auto
  qed
  ultimately show ?thesis using g f unfolding heap_backed_def img by blast
qed

lemma heap_map_rest:
  assumes "vmm_inv s m" "pmm_inv m" "pde_present s 4" "tables_off_heap s" "unat i \<le> 256"
    and "256 - unat i \<le> card (free_frames m)"
  shows "\<exists>s' m' g. heap_map_loop HEAP_START 256 i s m = Some (s', m', []) \<and> vmm_inv s' m' \<and> pmm_inv m' \<and>
    heap_backed g (unat i) s m s' m' \<and> card (free_frames m') + (256 - unat i) = card (free_frames m) \<and> heap_tables s (table_frame s 4) s'"
  using assms
proof (induction "256 - unat i" arbitrary: i s m)
  case 0
  then have "unat i = 256" by simp
  then have "heap_map_loop HEAP_START 256 i s m = Some (s, m, [])"
    by (subst heap_map_loop.simps) (simp add: word_less_nat_alt)
  moreover have "heap_tables s (table_frame s 4) s" using 0 by (auto simp: heap_tables_def)
  ultimately show ?case using 0 \<open>unat i = 256\<close> by (auto simp: heap_backed_def)
next
  case (Suc k)
  then have i: "unat i < 256" "unat (i + 1) = Suc (unat i)"
    using unat_add_u32 [of i 1] by simp_all
  have fin: "finite (free_frames m)" using frames.finite_frames Suc.prems(2) .
  have ne: "free_frames m \<noteq> {}" using Suc.prems(6) i by auto
  let ?f = "Min (free_frames m)"
  have f: "?f \<in> free_frames m" using fin ne by simp
  obtain s1 m1 where st: "heap_map_loop HEAP_START 256 i s m = heap_map_loop HEAP_START 256 (i + 1) s1 m1"
    "vmm_inv s1 m1" "pmm_inv m1" "pde_present s1 4" "tables_off_heap s1" "free_frames m1 = free_frames m - {?f}"
    "\<And>va. mmu_walk s1 va = (if vpage va = 4096 + unat i
       then Some (next_frame m OR (va AND 0xFFF)) else mmu_walk s va)" "heap_tables s (table_frame s 4) s1"
    by (rule heap_map_step [OF Suc.prems(1,2) i(1) ne Suc.prems(4)]) (use Suc.prems(3) in auto)
  have k: "k = 256 - unat (i + 1)" "unat (i + 1) \<le> 256" "card (free_frames m1) + 1 = card (free_frames m)"
    using Suc.hyps(2) i st(6) f fin card_Suc_Diff1 [OF fin f] by simp_all
  then have card: "256 - unat (i + 1) \<le> card (free_frames m1)" using Suc.prems(6) i by simp
  obtain s' m' g where r: "heap_map_loop HEAP_START 256 (i + 1) s1 m1 = Some (s', m', [])" "vmm_inv s' m'" "pmm_inv m'"
    "heap_backed g (unat (i + 1)) s1 m1 s' m'" "card (free_frames m') + (256 - unat (i + 1)) = card (free_frames m1)"
    "heap_tables s1 (table_frame s1 4) s'"
    using Suc.hyps(1) [OF k(1) st(2-5) k(2) card] by (elim exE conjE) (rule that)
  have "heap_backed (g(unat i := ?f)) (unat i) s m s' m'"
    by (rule heap_backed_Suc [OF r(4) [unfolded i(2)] i(1) f]) (simp_all add: st(6,7) next_frame_def)
  moreover have "card (free_frames m') + (256 - unat i) = card (free_frames m)" using r(5) k(3) i by simp
  ultimately show ?case using r(1-3) st(1) heap_tables_trans [OF st(8) r(6)] by auto
qed


lemma heap_init_block:
  assumes "kaddr s HEAP_START = Some pa" "heap_map_pages HEAP_START HEAP_SIZE s0 m0 = Some (s, m, out)"
  shows "\<exists>h' ms. heap_init s0 m0 h = Some (s, m, h', ms) \<and> heap_rep h' [(0xFFFF4, True)]"
proof -
  have b: "blk_at 0x1000000" by (simp add: blk_at_def)
  note f = fields_at [OF b, simplified]
  show ?thesis
    using assms by (auto simp: heap_init_def HEAP_START_def f heap_rep_def no_adjacent_def HEAP_SIZE_def BLOCK_SIZE_def)
qed

lemma heap_init_spec:
  assumes inv: "vmm_inv s m" "pmm_inv m" and np: "\<not> pde_present s 4" and off: "tables_off_heap s"
    and card: "257 \<le> card (free_frames m)"
    and second: "second_frame m < 4096" "ident s (of_nat (4096 * second_frame m))"
  obtains s' m' h' ms g where "heap_init s m h = Some (s', m', h', ms)" "vmm_inv s' m'" "pmm_inv m'"
    "heap_rep h' [(0xFFFF4, True)]" "inj_on g {..<256}" "g ` {..<256} \<subseteq> free_frames m"
    "free_frames m' \<inter> g ` {..<256} = {}" "free_frames m' \<subseteq> free_frames m"
    "card (free_frames m') + 257 = card (free_frames m)" "heap_tables s (of_nat (4096 * second_frame m)) s'"
    "\<And>va. mmu_walk s' va = (if 4096 \<le> vpage va \<and> vpage va < 4352
       then Some (of_nat (4096 * g (vpage va - 4096)) OR (va AND 0xFFF)) else mmu_walk s va)"
proof -
  have fin: "finite (free_frames m)" using frames.finite_frames inv(2) .
  have ne: "free_frames m \<noteq> {}" using card by auto
  let ?f = "Min (free_frames m)" and ?F = "free_frames m - {Min (free_frames m)}"
  have f: "?f \<in> free_frames m" using fin ne by simp
  have F: "card ?F = card (free_frames m) - 1" using f fin by simp
  then have "0 < card ?F" using card by linarith
  then have "?F \<noteq> {}" unfolding card_gt_0_iff by blast
  then have sec: "second_frame m \<in> ?F" using fin unfolding second_frame_def by (intro Min_in) auto
  obtain s1 m1 where st: "heap_map_loop HEAP_START 256 0 s m = heap_map_loop HEAP_START 256 (0 + 1) s1 m1"
    "vmm_inv s1 m1" "pmm_inv m1" "pde_present s1 4" "tables_off_heap s1" "free_frames m1 = ?F - {second_frame m}"
    "\<And>va. mmu_walk s1 va = (if vpage va = 4096 + unat (0 :: u32)
       then Some (next_frame m OR (va AND 0xFFF)) else mmu_walk s va)" "heap_tables s (of_nat (4096 * second_frame m)) s1"
    by (rule heap_map_step [OF inv, of 0])
      (use ne off second sec np in \<open>simp_all add: second_frame_def\<close>)
  have c1: "unat (1 :: u32) \<le> 256" "256 - unat (1 :: u32) \<le> card (free_frames m1)" "card (free_frames m1) + 2 = card (free_frames m)"
    using st(6) F sec card fin by simp_all
  obtain s' m' g where r: "heap_map_loop HEAP_START 256 1 s1 m1 = Some (s', m', [])" "vmm_inv s' m'" "pmm_inv m'"
    "heap_backed g (unat (1 :: u32)) s1 m1 s' m'" "card (free_frames m') + (256 - unat (1 :: u32)) = card (free_frames m1)"
    "heap_tables s1 (table_frame s1 4) s'"
    using heap_map_rest [OF st(2-5) c1(1,2)] by (elim exE conjE) (rule that)
  have "heap_backed g (Suc 0) s1 m1 s' m'" using r(4) by simp
  then have "heap_backed (g(0 := ?f)) 0 s m s' m'" by (rule heap_backed_Suc [OF _ _ f]) (use st(6,7) in \<open>auto simp: next_frame_def\<close>)
  then have g: "inj_on (g(0 := ?f)) {..<256}" "(g(0 := ?f)) ` {..<256} \<subseteq> free_frames m" "free_frames m' \<subseteq> free_frames m - (g(0 := ?f)) ` {..<256}"
    and walk: "\<And>va. mmu_walk s' va = (if 4096 \<le> vpage va \<and> vpage va < 4352
       then Some (of_nat (4096 * (g(0 := ?f)) (vpage va - 4096)) OR (va AND 0xFFF)) else mmu_walk s va)"
    by (simp_all add: heap_backed_def atLeast0LessThan del: fun_upd_apply)
  have pages: "heap_map_pages HEAP_START HEAP_SIZE s m = Some (s', m', [])"
    using st(1) r(1) by (simp add: heap_map_pages_def HEAP_SIZE_def)
  have "\<exists>pa. kaddr s' HEAP_START = Some pa"
    using walk [of HEAP_START] r(2) by (simp add: kaddr_def vmm_inv_def HEAP_START_def)
  then obtain h' ms where h: "heap_init s m h = Some (s', m', h', ms)" "heap_rep h' [(0xFFFF4, True)]"
    using heap_init_block pages by blast
  have "card (free_frames m') + 257 = card (free_frames m)" using r(5) c1(3) by simp
  then show ?thesis using that [OF h(1) r(2,3) h(2) g(1,2) _ _ _ heap_tables_trans [OF st(8) r(6)] walk] g(3) by blast
qed


subsection \<open>What the clients of the heap rely on\<close>

text \<open>
  The process table, the file system and the shell ask for blocks, fill them and give them
  back. The interface: \<open>rep s b\<close> relates a state to its abstract heap, \<open>blocks b\<close> are the
  allocated blocks (address and size), \<open>kept L s s'\<close> says that the contents of the blocks in
  \<open>L\<close> are the same in both states.
\<close>

locale block_allocator =
  fixes alloc :: "u32 \<Rightarrow> 's \<Rightarrow> ('s \<times> u32 \<times> msg list) option"
    and release :: "u32 \<Rightarrow> 's \<Rightarrow> 's option"
    and rep :: "'s \<Rightarrow> 'b \<Rightarrow> bool"
    and blocks :: "'b \<Rightarrow> (nat \<times> nat) set"
    and kept :: "(nat \<times> nat) set \<Rightarrow> 's \<Rightarrow> 's \<Rightarrow> bool"
  assumes alloc_block: "rep s b \<Longrightarrow> 0 < unat n \<Longrightarrow> unat n \<le> 0xFFFFFFFC \<Longrightarrow>
      \<exists>s' b' p ms. alloc n s = Some (s', p, ms) \<and> rep s' b' \<and> kept (blocks b) s s' \<and>
        (if p = 0 then b' = b
         else \<exists>k. unat n \<le> k \<and> blocks b' = insert (unat p, k) (blocks b) \<and> (\<forall>j. (unat p, j) \<notin> blocks b))"
    and release_block: "rep s b \<Longrightarrow> (unat p, k) \<in> blocks b \<Longrightarrow>
      \<exists>s' b'. release p s = Some s' \<and> rep s' b' \<and> blocks b' = blocks b - {(unat p, k)} \<and>
        kept (blocks b - {(unat p, k)}) s s'"
    and apart: "rep s b \<Longrightarrow> (x, i) \<in> blocks b \<Longrightarrow> (y, j) \<in> blocks b \<Longrightarrow> (x, i) \<noteq> (y, j) \<Longrightarrow>
      x + i \<le> y \<or> y + j \<le> x"
    and kept_trans: "kept L s s' \<Longrightarrow> kept L s' s'' \<Longrightarrow> kept L s s''"
begin

text \<open>A scratch block that is given back leaves every other block as it was.\<close>

lemma alloc_release:
  assumes "rep s b" "0 < unat n" "unat n \<le> 0xFFFFFFFC" "alloc n s = Some (s', p, ms)" "p \<noteq> 0"
  shows "\<exists>s'' b'. release p s' = Some s'' \<and> rep s'' b' \<and> blocks b' = blocks b \<and> kept (blocks b) s s''"
proof -
  obtain b' k where a: "rep s' b'" "kept (blocks b) s s'" "blocks b' = insert (unat p, k) (blocks b)"
    "(unat p, k) \<notin> blocks b"
    using alloc_block [OF assms(1-3)] assms(4,5) by auto
  then have "blocks b' - {(unat p, k)} = blocks b" "(unat p, k) \<in> blocks b'" by auto
  then show ?thesis using release_block [OF a(1), of p k] kept_trans [OF a(2)] by metis
qed

text \<open>Two blocks allocated one after the other do not overlap.\<close>

lemma alloc_alloc:
  assumes "rep s b" "0 < unat n" "unat n \<le> 0xFFFFFFFC" "0 < unat k" "unat k \<le> 0xFFFFFFFC"
    and "alloc n s = Some (s', p, ms)" "p \<noteq> 0" "alloc k s' = Some (s'', q, ms')" "q \<noteq> 0"
  shows "unat p + unat n \<le> unat q \<or> unat q + unat k \<le> unat p"
proof -
  obtain b' i where a: "rep s' b'" "unat n \<le> i" "(unat p, i) \<in> blocks b'"
    using alloc_block [OF assms(1-3)] assms(6,7) by auto
  obtain b'' j where "rep s'' b''" "unat k \<le> j" "blocks b'' = insert (unat q, j) (blocks b')"
    "(unat q, j) \<notin> blocks b'"
    using alloc_block [OF a(1) assms(4,5)] assms(8,9) by auto
  moreover from this a(3) have "(unat p, i) \<noteq> (unat q, j)" by auto
  ultimately show ?thesis using a(2,3) apart [of s'' b'' "unat p" i "unat q" j] by auto
qed

end

lemma live_pos: "heap_seg a bs m \<Longrightarrow> (p, n) \<in> live a bs \<Longrightarrow> 0 < n"
  by (induction a bs m rule: heap_seg.induct) (auto split: if_splits)

lemma live_word: "(p, n) \<in> live a bs \<Longrightarrow> 0 < n \<Longrightarrow> p \<in> live_words a bs"
  by (auto simp: live_words_def intro!: bexI [of _ "(p, n)"])

lemma live_apart:
  "(p, n) \<in> live a bs \<Longrightarrow> (q, k) \<in> live a bs \<Longrightarrow> (p, n) \<noteq> (q, k) \<Longrightarrow> p + n \<le> q \<or> q + k \<le> p"
proof (induction bs arbitrary: a)
  case (Cons b bs)
  obtain j f where "b = (j, f)" by (cases b)
  then show ?case
    using Cons live_range [of p n "a + 12 + j" bs] live_range [of q k "a + 12 + j" bs]
    by (auto split: if_splits)
qed simp

lemma keeps_trans: "keeps L h h' \<Longrightarrow> keeps L h' h'' \<Longrightarrow> keeps L h h''"
  unfolding keeps_def by fastforce

lemma kmalloc_block:
  assumes "heap_rep h bs" "0 < unat n" "unat n \<le> 0xFFFFFFFC"
  shows "\<exists>h' bs' p ms. kmalloc n h = Some (h', p, ms) \<and> heap_rep h' bs' \<and> keeps (live 0x1000000 bs) h h' \<and>
    (if p = 0 then bs' = bs else \<exists>k. unat n \<le> k \<and> live 0x1000000 bs' = insert (unat p, k) (live 0x1000000 bs) \<and>
       (\<forall>j. (unat p, j) \<notin> live 0x1000000 bs))"
proof (cases "alloc_spec (up4 (unat n)) 0x1000000 bs")
  case None
  then show ?thesis using kmalloc_spec [OF assms] assms(1) by (auto simp: keeps_def)
next
  case (Some r)
  obtain bs' p where r: "r = (bs', p)" by (cases r)
  with Some kmalloc_spec [OF assms] obtain h' where h: "kmalloc n h = Some (h', of_nat p, [])" "heap_rep h' bs'"
    "keeps (live 0x1000000 bs) h h'" by auto
  obtain k where k: "up4 (unat n) \<le> k" "live 0x1000000 bs' = insert (p, k) (live 0x1000000 bs)"
    "{p..<p + k} \<inter> live_words 0x1000000 bs = {}" "0x1000000 + 12 \<le> p"
    using live_alloc Some r by metis
  have seg: "heap_seg 0x1000000 bs' (hmem h')" using h(2) by (simp add: heap_rep_def)
  have p: "p < 0x1100000" "unat (of_nat p :: u32) = p" "of_nat p \<noteq> (0 :: u32)"
    using live_bound [OF seg, of p k] k assms(2) up4_props(4) [of "unat n"]
    by (auto simp: unat_of_nat_u32 word_eq_unat simp del: up4_props)
  have "(p, j) \<notin> live 0x1000000 bs" for j
  proof
    assume j: "(p, j) \<in> live 0x1000000 bs"
    then have "0 < j" using live_pos [of "0x1000000" bs "hmem h" p j] assms(1) by (simp add: heap_rep_def)
    with j have "p \<in> live_words 0x1000000 bs" by (rule live_word)
    moreover have "0 < k" using k(1) assms(2) up4_props(2) [of "unat n"] by linarith
    then have "p \<in> {p..<p + k}" by simp
    ultimately show False using k(3) by blast
  qed
  then show ?thesis using h k p up4_props(2) [of "unat n"] by (auto intro!: exI [of _ k] simp del: up4_props)
qed

interpretation kheap: block_allocator kmalloc kfree heap_rep "live 0x1000000" keeps
proof unfold_locales
  fix s b and n :: u32
  assume "heap_rep s b" "0 < unat n" "unat n \<le> 0xFFFFFFFC"
  then show "\<exists>s' b' p ms. kmalloc n s = Some (s', p, ms) \<and> heap_rep s' b' \<and> keeps (live 0x1000000 b) s s' \<and>
        (if p = 0 then b' = b
         else \<exists>k. unat n \<le> k \<and> live 0x1000000 b' = insert (unat p, k) (live 0x1000000 b) \<and>
           (\<forall>j. (unat p, j) \<notin> live 0x1000000 b))"
    by (rule kmalloc_block)
next
  fix s b n and p :: u32
  assume "heap_rep s b" "(unat p, n) \<in> live 0x1000000 b"
  then show "\<exists>s' b'. kfree p s = Some s' \<and> heap_rep s' b' \<and> live 0x1000000 b' = live 0x1000000 b - {(unat p, n)} \<and>
        keeps (live 0x1000000 b - {(unat p, n)}) s s'"
    using kfree_spec [of s b p n] live_merge live_set_free [of "unat p" n] by fastforce
next
  fix b :: "blk list" and x i y j
  assume "(x, i) \<in> live 0x1000000 b" "(y, j) \<in> live 0x1000000 b" "(x, i) \<noteq> (y, j)"
  then show "x + i \<le> y \<or> y + j \<le> x" by (rule live_apart)
qed (rule keeps_trans)


subsection \<open>Freeing undoes allocating\<close>

lemma set_free_at_append: "set_free_at (a + blen pre + 12) a (pre @ (n, f) # post) = pre @ (n, True) # post"
proof (induction pre arbitrary: a)
  case (Cons b pre)
  obtain k g where "b = (k, g)" by (cases b)
  then show ?case using Cons.IH [of "a + 12 + k"] by (simp add: ac_simps)
qed simp

lemma merge_free_prefix:
  assumes "no_adjacent (pre @ [(n, True)])"
  shows "merge_free (pre @ (n, True) # bs) = pre @ merge_free ((n, True) # bs)"
  using assms
proof (induction pre rule: merge_free.induct)
  case (2 b)
  then show ?case by (cases b) (simp add: no_adjacent_def)
qed (auto simp: no_adjacent_def)

lemma merge_free_id: "no_adjacent bs \<Longrightarrow> merge_free bs = bs"
  by (induction bs rule: merge_free.induct) (auto simp: no_adjacent_def)

lemma merge_alloc:
  assumes "no_adjacent bs" "alloc_spec sz a bs = Some (bs', p)"
  shows "merge_free (set_free_at p a bs') = bs"
proof (rule alloc_spec_place [OF assms(2)])
  fix pre n post
  assume *: "bs = pre @ (n, True) # post" "sz \<le> n" "p = a + blen pre + 12"
    "bs' = pre @ (if sz + 16 \<le> n then [(sz, False), (n - sz - 12, True)] else [(n, False)]) @ post"
  have na: "no_adjacent (pre @ [(k, True)])" "no_adjacent ((n, True) # post)" for k
    using assms(1) * by (auto simp: no_adjacent_def successively_append_iff)
  show ?thesis
    using * merge_free_prefix [OF na(1)] merge_free_id [OF na(2)] by (simp add: set_free_at_append)
qed

lemma all_free_merge: "live a bs = {} \<Longrightarrow> bs \<noteq> [] \<Longrightarrow> merge_free bs = [(blen bs - 12, True)]"
proof (induction bs arbitrary: a rule: merge_free.induct)
  case (2 b)
  then show ?case by (cases b) (auto split: if_splits)
next
  case (3 n f k g bs)
  then have "f" "g" "live (a + 12 + n + 12 + k) bs = {}" by (auto split: if_splits)
  moreover from this have "live a ((n + (12 + k), True) # bs) = {}" by (simp add: ac_simps)
  ultimately show ?case using "3.IH"(1) [of a] by (simp add: ac_simps)
qed simp

lemma live_aligned: "heap_seg a bs m \<Longrightarrow> a mod 4 = 0 \<Longrightarrow> (p, n) \<in> live a bs \<Longrightarrow> p mod 4 = 0"
  by (induction a bs m rule: heap_seg.induct) (auto split: if_splits simp: mod_simps)

subsection \<open>A heap for the examples\<close>

definition heap_boot :: heap where
  "heap_boot = (case heap_init vmm_boot pmm_boot2 \<lparr>heap_head = 0, hmem = \<lambda>_. 0\<rparr> of
     Some (s, m, h, ms) \<Rightarrow> h | None \<Rightarrow> \<lparr>heap_head = 0, hmem = \<lambda>_. 0\<rparr>)"

lemma heap_init_ready:
  "\<not> pde_present vmm_boot 4" "tables_off_heap vmm_boot" "257 \<le> card (free_frames pmm_boot2)"
  "second_frame pmm_boot2 < 4096" "ident vmm_boot (of_nat (4096 * second_frame pmm_boot2))"
proof -
  have "Min {528..<32736 :: nat} = 528" "Min {529..<32736 :: nat} = 529" by (rule Min_eqI; auto)+
  moreover have "{528..<32736} - {528} = {529..<32736 :: nat}" by auto
  ultimately have sec: "second_frame pmm_boot2 = 529" by (simp add: second_frame_def vmm_boot_state(4))
  show "\<not> pde_present vmm_boot 4" by (simp add: vmm_boot_state(6))
  show "tables_off_heap vmm_boot"
    by (auto simp: tables_off_heap_def vmm_boot_state(6,7) vmm_boot_state(8) [simplified] less_2_cases_iff)
  show "257 \<le> card (free_frames pmm_boot2)" by (simp add: vmm_boot_state(4))
  show "second_frame pmm_boot2 < 4096" "ident vmm_boot (of_nat (4096 * second_frame pmm_boot2))"
    by (simp_all add: sec ident_def vmm_boot_state(5))
qed

lemma heap_boot_rep: "heap_rep heap_boot [(0xFFFF4, True)]"
proof -
  obtain s' m' h' ms where "heap_init vmm_boot pmm_boot2 \<lparr>heap_head = 0, hmem = \<lambda>_. 0\<rparr> = Some (s', m', h', ms)"
    "heap_rep h' [(0xFFFF4, True)]"
    by (rule heap_init_spec [OF vmm_boot_state(2,3) heap_init_ready])
  then show ?thesis by (simp add: heap_boot_def)
qed


subsection \<open>Properties\<close>

text \<open>C10. \<open>kmalloc\<close> implements first fit: it walks the list to the first free block that holds the
  rounded-up size, returns that block's payload and splits off the rest when 16 bytes or
  more are left; with no such block it prints its message, returns the null pointer and
  changes nothing.\<close>

theorem kmalloc_first_fit:
  assumes "heap_rep h bs" "0 < unat sz" "unat sz \<le> 0xFFFFFFFC"
  shows "case alloc_spec (up4 (unat sz)) 0x1000000 bs of
      None \<Rightarrow> kmalloc sz h = Some (h, 0, [kmalloc_oom])
    | Some (bs', p) \<Rightarrow> \<exists>h'. kmalloc sz h = Some (h', of_nat p, []) \<and> heap_rep h' bs'"
  using kmalloc_spec [OF assms] by (auto split: option.splits)

theorem kmalloc_first_fit_witness:
  "\<exists>h'. kmalloc 10 heap_boot = Some (h', 0x100000C, []) \<and> heap_rep h' [(12, False), (0xFFFDC, True)]"
  using kmalloc_first_fit [OF heap_boot_rep, of 10] by (simp add: up4_def)



text \<open>C12. \<open>kfree\<close> of an allocated block always returns, marks the block free and merges every run of
  neighbouring free blocks, so no two neighbours are free afterwards, and leaves the
  contents of the other allocated blocks alone.\<close>

theorem kfree_merges:
  assumes "heap_rep h bs" "(unat ptr, n) \<in> live 0x1000000 bs"
  shows "\<exists>h'. kfree ptr h = Some h' \<and> heap_rep h' (merge_free (set_free_at (unat ptr) 0x1000000 bs)) \<and>
    live 0x1000000 (merge_free (set_free_at (unat ptr) 0x1000000 bs)) = live 0x1000000 bs - {(unat ptr, n)} \<and>
    keeps (live 0x1000000 bs - {(unat ptr, n)}) h h'"
  using kfree_spec [OF assms] live_merge live_set_free [OF assms(2)] by auto

theorem kfree_merges_witness:
  "\<exists>h h'. kmalloc 10 heap_boot = Some (h, 0x100000C, []) \<and> kfree 0x100000C h = Some h' \<and>
     heap_rep h' [(0xFFFF4, True)]"
proof -
  obtain h where h: "kmalloc 10 heap_boot = Some (h, 0x100000C, [])" "heap_rep h [(12, False), (0xFFFDC, True)]"
    using kmalloc_spec [OF heap_boot_rep, of 10] by (auto simp: up4_def)
  then show ?thesis using kfree_merges [OF h(2), of "0x100000C" 12] by auto
qed

text \<open>C13. Allocating a block and freeing it again gives back exactly the list of blocks there was
  before, so scratch buffers do not fragment the heap.\<close>

theorem kmalloc_kfree_restores:
  assumes "heap_rep h bs" "0 < unat sz" "unat sz \<le> 0xFFFFFFFC" "kmalloc sz h = Some (h', p, ms)" "p \<noteq> 0"
  shows "\<exists>h''. kfree p h' = Some h'' \<and> heap_rep h'' bs \<and> keeps (live 0x1000000 bs) h h''"
proof -
  obtain bs' q where q: "alloc_spec (up4 (unat sz)) 0x1000000 bs = Some (bs', q)"
    "heap_rep h' bs'" "p = of_nat q" "keeps (live 0x1000000 bs) h h'"
    using kmalloc_spec [OF assms(1-3)] assms(4,5) by (auto split: option.splits)
  obtain k where k: "live 0x1000000 bs' = insert (q, k) (live 0x1000000 bs)"
    "{q..<q + k} \<inter> live_words 0x1000000 bs = {}" "up4 (unat sz) \<le> k"
    using live_alloc [OF q(1)] by metis
  have "heap_seg 0x1000000 bs' (hmem h')" using q(2) by (simp add: heap_rep_def)
  then have p: "unat p = q" using live_bound [of "0x1000000" bs' "hmem h'" q k] k(1) q(3) by (simp add: unat_of_nat_u32)
  have "0 < k" using k(3) assms(2) up4_props(2) [of "unat sz"] by linarith
  then have "(q, k) \<notin> live 0x1000000 bs" using live_word [of q k] k(2) by fastforce
  then have "live 0x1000000 bs' - {(unat p, k)} = live 0x1000000 bs" using k(1) p by auto
  moreover have "merge_free (set_free_at (unat p) 0x1000000 bs') = bs"
    using merge_alloc [OF _ q(1)] assms(1) p by (simp add: heap_rep_def)
  ultimately obtain h'' where "kfree p h' = Some h''" "heap_rep h'' bs" "keeps (live 0x1000000 bs) h' h''"
    using kfree_spec [OF q(2), of p k] k(1) p by auto
  then show ?thesis using kheap.kept_trans [OF q(4)] by blast
qed

theorem kmalloc_kfree_restores_witness:
  "\<exists>h h'. kmalloc 10 heap_boot = Some (h, 0x100000C, []) \<and> kfree 0x100000C h = Some h' \<and>
     heap_rep h' [(0xFFFF4, True)]"
proof -
  obtain h where "kmalloc 10 heap_boot = Some (h, 0x100000C, [])"
    using kmalloc_spec [OF heap_boot_rep, of 10] by (auto simp: up4_def)
  then show ?thesis using kmalloc_kfree_restores [OF heap_boot_rep, of 10 h "0x100000C"] by auto
qed

text \<open>When the last allocated block is freed, the heap is the single free block \<open>heap_init\<close> made.\<close>

theorem kfree_last_block:
  assumes "heap_rep h bs" "live 0x1000000 bs = {(unat ptr, n)}"
  shows "\<exists>h'. kfree ptr h = Some h' \<and> heap_rep h' [(0xFFFF4, True)]"
proof -
  let ?bs = "merge_free (set_free_at (unat ptr) 0x1000000 bs)"
  obtain h' where h': "kfree ptr h = Some h'" "heap_rep h' ?bs" "live 0x1000000 ?bs = {}"
    using kfree_spec [OF assms(1), of ptr n] live_set_free [of "unat ptr" n "0x1000000" bs] live_merge assms(2)
    by auto
  have "no_adjacent ?bs" "?bs \<noteq> []" "0x1000000 + blen ?bs = 0x1100000"
    using h'(2) heap_rep_not_Nil [OF h'(2)] heap_seg_end [of "0x1000000" ?bs "hmem h'"]
    by (simp_all add: heap_rep_def)
  then have "?bs = [(0xFFFF4, True)]"
    using all_free_merge [OF h'(3)] merge_free_id [of ?bs] by simp
  with h' show ?thesis by auto
qed

theorem kfree_last_block_witness:
  "\<exists>h h'. kmalloc 100 heap_boot = Some (h, 0x100000C, []) \<and> kfree 0x100000C h = Some h' \<and>
     heap_rep h' [(0xFFFF4, True)]"
proof -
  obtain h where h: "kmalloc 100 heap_boot = Some (h, 0x100000C, [])" "heap_rep h [(100, False), (0xFFF84, True)]"
    using kmalloc_spec [OF heap_boot_rep, of 100] by (auto simp: up4_def)
  then show ?thesis using kfree_last_block [OF h(2), of "0x100000C" 100] by auto
qed

text \<open>The round-up wraps: for the three largest sizes \<open>size + 3\<close> is below 4, so \<open>kmalloc\<close>
  returns a pointer to a block of no bytes instead of reporting that the heap is full.\<close>

theorem kmalloc_size_wraps:
  assumes "0xFFFFFFFD \<le> sz" "heap_rep h ((n, True) # bs)"
  shows "\<exists>h'. kmalloc sz h = Some (h', 0x100000C, []) \<and> get_size HEAP_START h' = Some (if n < 16 then of_nat n else 0)"
proof -
  have "4294967293 \<le> unat sz" using assms(1) by (simp add: word_le_nat_alt)
  then have "unat sz = 4294967293 \<or> unat sz = 4294967294 \<or> unat sz = 4294967295"
    using unat_u32_less [of sz] by linarith
  then have sz: "sz = 4294967293 \<or> sz = 4294967294 \<or> sz = 4294967295" by (simp add: word_eq_unat)
  then have al: "(sz + 3) AND NOT 3 = 0" "sz \<noteq> 0" by auto
  have seg: "heap_seg 0x1000000 ((n, True) # bs) (hmem h)" using assms(2) by (simp add: heap_rep_def)
  have b: "blk_at 0x1000000" "0x1000000 + 12 + n \<le> 0x1100000" "n mod 4 = 0"
    using heap_seg_blk [OF seg] seg by simp_all
  have c: "16 \<le> n \<Longrightarrow> blk_at 0x100000C" using b by (simp add: blk_at_def)
  have k: "kmalloc sz h = kmalloc_loop 0 0x1000000 h"
    using al assms(2) by (simp add: kmalloc_def heap_rep_def HEAP_START_def)
  have "((16 :: u32) \<le> of_nat n) = (16 \<le> n)" using b(2) by (simp add: word_le_nat_alt unat_of_nat_u32)
  then show ?thesis
    unfolding k HEAP_START_def using seg b fields_at [OF b(1)] fields_at [OF c]
    by (subst kmalloc_loop.simps) (auto simp: split_block_def BLOCK_SIZE_def)
qed

theorem kmalloc_size_wraps_witness:
  "\<exists>h'. kmalloc 0xFFFFFFFE heap_boot = Some (h', 0x100000C, []) \<and> get_size HEAP_START h' = Some 0"
  using kmalloc_size_wraps [OF _ heap_boot_rep, of "0xFFFFFFFE"] by simp

text \<open>C14. \<open>heap_init\<close> backs the 256 pages of the heap with distinct frames that were free, leaves
  every other translation alone and makes the heap one free block of the whole megabyte
  less its header.\<close>

theorem heap_init_maps:
  assumes "vmm_inv s m" "pmm_inv m" "\<not> pde_present s 4" "tables_off_heap s" "257 \<le> card (free_frames m)"
    and "second_frame m < 4096" "ident s (of_nat (4096 * second_frame m))"
  shows "\<exists>s' m' h' ms g. heap_init s m h = Some (s', m', h', ms) \<and> vmm_inv s' m' \<and> pmm_inv m' \<and>
    heap_rep h' [(0xFFFF4, True)] \<and> inj_on g {..<256} \<and> g ` {..<256} \<subseteq> free_frames m - free_frames m' \<and>
    card (free_frames m') + 257 = card (free_frames m) \<and>
    (\<forall>va. mmu_walk s' va = (if 4096 \<le> vpage va \<and> vpage va < 4352
       then Some (of_nat (4096 * g (vpage va - 4096)) OR (va AND 0xFFF)) else mmu_walk s va))"
  by (rule heap_init_spec [OF assms]) blast

theorem heap_init_maps_witness:
  "\<exists>s' m' h' ms. heap_init vmm_boot pmm_boot2 \<lparr>heap_head = 0, hmem = \<lambda>_. 0\<rparr> = Some (s', m', h', ms) \<and>
     mmu_walk s' 0x1100000 = None \<and> mmu_walk s' 0x10FFFFF \<noteq> None \<and> heap_rep h' [(0xFFFF4, True)]"
  using heap_init_maps [OF vmm_boot_state(2,3) heap_init_ready, of "\<lparr>heap_head = 0, hmem = \<lambda>_. 0\<rparr>"]
  by (fastforce simp: vmm_boot_state(5))

end
