(* ===== verification/Process.thy ===== *)
theory Process
  imports Heap
begin

text \<open>
  Processes and the scheduler, \<open>kernel/process.c\<close> and the context switch of \<open>kernel/process.s\<close>. A
  process structure is a block of the heap; its fields are kept as a record in the store
  \<open>procs\<close>, by the address \<open>kmalloc\<close> returned. The stacks are blocks of the heap and their
  words are words of the heap. Following the null pointer is \<open>None\<close>. The list walks are
  partial functions over the \<open>next\<close> pointers.
\<close>

definition KERNEL_STACK_SIZE :: u32 where [const_defs]: "KERNEL_STACK_SIZE = 4096"
definition MAX_FD :: nat where [const_defs]: "MAX_FD = 16"

record file_descriptor_t =
  fd_used :: u8
  fd_name :: bytes
  fd_position :: u32
  fd_size :: u32

datatype process_state_t = PROCESS_RUNNING | PROCESS_READY | PROCESS_DEAD

record process_t =
  pid :: u32
  esp :: u32
  page_dir :: u32
  stack :: u32
  state :: process_state_t
  fds :: "file_descriptor_t list"
  next_proc :: u32

definition sizeof_process_t :: u32 where [const_defs]: "sizeof_process_t = 1240"

record sched =
  current_process :: u32
  process_list :: u32
  next_pid :: u32
  procs :: "u32 \<Rightarrow> process_t"
  kmem :: heap

text \<open>The descriptors of a new process: all closed but the first three.\<close>

definition init_fds :: "file_descriptor_t list \<Rightarrow> file_descriptor_t list" where
  "init_fds fs =
     (let fs = map (\<lambda>f. f\<lparr>fd_used := 0\<rparr>) fs
      in fs[0 := (fs ! 0)\<lparr>fd_used := 1\<rparr>, 1 := (fs ! 1)\<lparr>fd_used := 1\<rparr>, 2 := (fs ! 2)\<lparr>fd_used := 1\<rparr>])"

definition process_init :: "sched \<Rightarrow> (sched \<times> msg list) option" where
  "process_init s =
     do { (h, kernel_proc, out) \<leftarrow> kmalloc sizeof_process_t (kmem s);
          if kernel_proc = 0 then None
          else let p = procs s kernel_proc;
                   p = p\<lparr>pid := next_pid s, state := PROCESS_RUNNING, next_proc := 0, stack := 0,
                         page_dir := 0, esp := 0, fds := init_fds (fds p)\<rparr>
               in Some (s\<lparr>kmem := h, next_pid := next_pid s + 1, procs := (procs s)(kernel_proc := p),
                          process_list := kernel_proc, current_process := kernel_proc\<rparr>,
                        out @ [(''Process: kernel process created (PID 0)'' @ nl, [])]) }"

text \<open>The pushes onto a new stack: the entry point, then one zero for each register of \<open>pusha\<close>.\<close>

fun push_words :: "u32 list \<Rightarrow> u32 \<Rightarrow> heap \<Rightarrow> (heap \<times> u32) option" where
  "push_words [] stack_top h = Some (h, stack_top)"
| "push_words (w # ws) stack_top h =
     (let stack_top = stack_top - 4 in do { h \<leftarrow> hwrite stack_top w h; push_words ws stack_top h })"

definition initial_frame :: "u32 \<Rightarrow> u32 list" where
  "initial_frame entry = [entry, 0, 0, 0, 0, 0, 0, 0, 0]"

partial_function (option) last_process :: "(u32 \<Rightarrow> process_t) \<Rightarrow> u32 \<Rightarrow> u32 option" where
  "last_process ps cur =
     (if cur = 0 then None
      else if next_proc (ps cur) \<noteq> 0 then last_process ps (next_proc (ps cur)) else Some cur)"

definition process_create :: "u32 \<Rightarrow> sched \<Rightarrow> (sched \<times> u32 \<times> msg list) option" where
  "process_create entry s =
     do { (h, proc, out) \<leftarrow> kmalloc sizeof_process_t (kmem s);
          if proc = 0 then Some (s\<lparr>kmem := h\<rparr>, 0, out)
          else do {
            (h, stk, out') \<leftarrow> kmalloc KERNEL_STACK_SIZE h;
            let p = (procs s proc)\<lparr>stack := stk\<rparr>;
            if stk = 0
            then do { h \<leftarrow> kfree proc h; Some (s\<lparr>kmem := h, procs := (procs s)(proc := p)\<rparr>, 0, out @ out') }
            else do {
              let p = p\<lparr>pid := next_pid s, state := PROCESS_READY, page_dir := 0, next_proc := 0,
                        fds := init_fds (fds p)\<rparr>;
              (h, stack_top) \<leftarrow> push_words (initial_frame entry) (stk + KERNEL_STACK_SIZE) h;
              let ps = (procs s)(proc := p\<lparr>esp := stack_top\<rparr>);
              cur \<leftarrow> last_process ps (process_list s);
              let ps = ps(cur := (ps cur)\<lparr>next_proc := proc\<rparr>);
              Some (s\<lparr>kmem := h, next_pid := next_pid s + 1, procs := ps\<rparr>, proc,
                    out @ out' @ [(''Process: created PID %d'' @ nl, [KInt (pid (ps proc))])]) } } }"

text \<open>\<open>process_exit\<close> marks the process and then halts in a loop for good: the state it leaves behind.\<close>

definition process_exit :: "sched \<Rightarrow> sched option" where
  "process_exit s =
     (if current_process s = 0 then None
      else Some (s\<lparr>procs := (procs s)(current_process s := (procs s (current_process s))\<lparr>state := PROCESS_DEAD\<rparr>)\<rparr>))"

partial_function (option) skip_dead :: "sched \<Rightarrow> u32 \<Rightarrow> u32 option" where
  "skip_dead s nxt =
     (if nxt = 0 then None
      else if state (procs s nxt) = PROCESS_DEAD \<and> nxt \<noteq> current_process s
           then skip_dead s (if next_proc (procs s nxt) \<noteq> 0 then next_proc (procs s nxt) else process_list s)
           else Some nxt)"

text \<open>
  The switch: \<open>pusha\<close> stores the registers (eax, ecx, edx, ebx, esp, ebp, esi, edi, in this order) on
  the running stack, \<open>context_switch\<close> saves the stack pointer it leaves in the old process and
  continues on the stack of the new one. A context is the list of registers and the stack
  pointer at the call, where the return address is. The stores go to any address: the
  kernel process runs on the boot stack, outside the heap.
\<close>

type_synonym ctx = "u32 list \<times> u32"

fun pusha :: "u32 list \<Rightarrow> u32 \<Rightarrow> heap \<Rightarrow> heap \<times> u32" where
  "pusha [] sp h = (h, sp)"
| "pusha (r # rs) sp h = pusha rs (sp - 4) (h\<lparr>hmem := (hmem h)(sp - 4 := r)\<rparr>)"

definition context_switch :: "u32 \<Rightarrow> ctx \<Rightarrow> sched \<Rightarrow> sched" where
  "context_switch prev ctx s =
     (let (h, sp) = pusha (fst ctx) (snd ctx) (kmem s)
      in s\<lparr>kmem := h, procs := (procs s)(prev := (procs s prev)\<lparr>esp := sp\<rparr>)\<rparr>)"

definition scheduler_tick :: "ctx \<Rightarrow> sched \<Rightarrow> (sched \<times> u32 option) option" where
  "scheduler_tick ctx s =
     (let prev = current_process s
      in if prev = 0 then Some (s, None)
         else let nxt = next_proc (procs s prev);
                  nxt = (if nxt = 0 then process_list s else nxt)
              in do { nxt \<leftarrow> skip_dead s nxt;
                      if nxt = prev then Some (s, None)
                      else let s = s\<lparr>current_process := nxt,
                                     procs := (procs s)(nxt := (procs s nxt)\<lparr>state := PROCESS_RUNNING\<rparr>)\<rparr>;
                               s = (if state (procs s prev) \<noteq> PROCESS_DEAD
                                    then s\<lparr>procs := (procs s)(prev := (procs s prev)\<lparr>state := PROCESS_READY\<rparr>)\<rparr>
                                    else s);
                               new_esp = esp (procs s nxt)
                           in Some (context_switch prev ctx s, Some new_esp) })"

text \<open>The other half of the switch: \<open>popa\<close> and \<open>ret\<close> on the new stack.\<close>

definition resumed_registers :: "u32 \<Rightarrow> heap \<Rightarrow> u32 list" where
  "resumed_registers sp h = map (\<lambda>i. hmem h (sp + 4 * of_nat i)) [0..<8]"

definition resumed_eip :: "u32 \<Rightarrow> heap \<Rightarrow> u32" where
  "resumed_eip sp h = hmem h (sp + 32)"

subsection \<open>The process list\<close>

fun chain :: "(u32 \<Rightarrow> process_t) \<Rightarrow> u32 \<Rightarrow> u32 list \<Rightarrow> bool" where
  "chain ps a [] = (a = 0)"
| "chain ps a (b # bs) = (a = b \<and> b \<noteq> 0 \<and> chain ps (next_proc (ps b)) bs)"

definition sched_inv :: "sched \<Rightarrow> u32 list \<Rightarrow> bool" where
  "sched_inv s as \<longleftrightarrow> chain (procs s) (process_list s) as \<and> distinct as \<and> current_process s \<in> set as \<and>
     (\<forall>a \<in> set as. state (procs s a) = PROCESS_RUNNING \<longrightarrow> a = current_process s)"

lemma chain_cong: "(\<And>a. a \<in> set as \<Longrightarrow> next_proc (ps' a) = next_proc (ps a)) \<Longrightarrow> chain ps' a as = chain ps a as"
  by (induction as arbitrary: a) auto

lemma chain_upd [simp]: "b \<notin> set as \<Longrightarrow> chain (ps(b := p)) a as = chain ps a as"
  by (rule chain_cong) auto

lemma chain_nth:
  assumes "chain ps a as" "i < length as"
  shows "as ! i \<noteq> 0" "next_proc (ps (as ! i)) = (if i + 1 < length as then as ! (i + 1) else 0)"
  using assms
proof (induction as arbitrary: a i)
  case (Cons b bs)
  { case 1 then show ?case using Cons.IH(1) by (cases i) auto }
  { case 2 then show ?case using Cons.IH(2) by (cases i; cases bs) auto }
qed auto

lemma chain_head: "chain ps a as \<Longrightarrow> as \<noteq> [] \<Longrightarrow> as ! 0 = a"
  by (cases as) auto

lemma last_process_spec: "chain ps a as \<Longrightarrow> as \<noteq> [] \<Longrightarrow> last_process ps a = Some (last as)"
proof (induction as arbitrary: a)
  case (Cons b bs)
  then show ?case by (cases bs) (auto simp: last_process.simps [of ps b])
qed simp

lemma chain_append:
  assumes "chain ps a as" "as \<noteq> []" "distinct as" "b \<notin> set as" "b \<noteq> 0" "next_proc (ps b) = 0"
  shows "chain (ps(last as := (ps (last as))\<lparr>next_proc := b\<rparr>)) a (as @ [b])"
  using assms
proof (induction as arbitrary: a)
  case (Cons c cs)
  show ?case
  proof (cases "cs = []")
    case True
    then show ?thesis using Cons.prems by auto
  next
    case False
    then have "chain (ps(last cs := (ps (last cs))\<lparr>next_proc := b\<rparr>)) (next_proc (ps c)) (cs @ [b])"
      by (intro Cons.IH) (use Cons.prems in auto)
    moreover have "c \<noteq> last cs" using False Cons.prems(3) by auto
    ultimately show ?thesis using False Cons.prems by (simp add: fun_upd_def)
  qed
qed simp

text \<open>One step along the list, wrapping at its end.\<close>

lemma chain_succ:
  assumes "chain (procs s) (process_list s) as" "i < length as"
  shows "(if next_proc (procs s (as ! i)) \<noteq> 0 then next_proc (procs s (as ! i)) else process_list s) =
    as ! ((i + 1) mod length as)"
proof (cases "i + 1 < length as")
  case True
  then show ?thesis using chain_nth [OF assms] chain_nth(1) [OF assms(1), of "i + 1"] by simp
next
  case False
  then have "i + 1 = length as" using assms(2) by simp
  moreover have "as \<noteq> []" using assms(2) by auto
  ultimately show ?thesis using chain_nth(2) [OF assms] chain_head [OF assms(1)] by simp
qed

definition dead :: "sched \<Rightarrow> u32 \<Rightarrow> bool" where "dead s a \<longleftrightarrow> state (procs s a) = PROCESS_DEAD"

lemma mod_sum: "c < n \<Longrightarrow> j < n \<Longrightarrow> (c + j) mod n = (if c + j < n then c + j else c + j - (n :: nat))"
  by (auto simp: mod_if [of "c + j"])

lemma skip_dead_spec:
  assumes "chain (procs s) (process_list s) as" "distinct as" "c < length as" "as ! c = current_process s" "0 < j" "j \<le> length as"
  obtains k where "j \<le> k" "k \<le> length as" "skip_dead s (as ! ((c + j) mod length as)) = Some (as ! ((c + k) mod length as))"
    "\<And>i. j \<le> i \<Longrightarrow> i < k \<Longrightarrow> dead s (as ! ((c + i) mod length as))"
    "k < length as \<Longrightarrow> \<not> dead s (as ! ((c + k) mod length as))"
  using assms(5,6)
proof (induction "length as - j" arbitrary: j thesis)
  case 0
  then have j: "j = length as" by simp
  have "as ! ((c + j) mod length as) = current_process s" using j assms(3,4) by simp
  moreover have "current_process s \<noteq> 0" using chain_nth(1) [OF assms(1,3)] assms(4) by simp
  ultimately have "skip_dead s (as ! ((c + j) mod length as)) = Some (as ! ((c + j) mod length as))"
    by (subst skip_dead.simps) simp
  then show ?case using 0(2) [of j] j by auto
next
  case (Suc n)
  let ?n = "length as"
  let ?i = "(c + j) mod ?n"
  have i: "?i < ?n" using assms(3) by (intro mod_less_divisor) linarith
  have nz: "as ! ?i \<noteq> 0" using chain_nth(1) [OF assms(1) i] .
  show ?case
  proof (cases "dead s (as ! ?i)")
    case False
    then have "skip_dead s (as ! ?i) = Some (as ! ?i)" using nz by (subst skip_dead.simps) (simp add: dead_def)
    then show ?thesis using Suc.prems(1) [of j] False Suc.prems(3) by simp
  next
    case True
    have "j < ?n" using Suc.hyps(2) by simp
    then have "?i \<noteq> c" using mod_sum [OF assms(3), of j] Suc.prems(2) by auto
    then have "as ! ?i \<noteq> current_process s" using assms(2-4) i by (metis nth_eq_iff_index_eq)
    then have step: "skip_dead s (as ! ?i) = skip_dead s (as ! ((c + (j + 1)) mod ?n))"
      using True nz chain_succ [OF assms(1) i]
      by (subst skip_dead.simps) (simp add: dead_def mod_Suc_eq)
    obtain k where k: "j + 1 \<le> k" "k \<le> ?n" "skip_dead s (as ! ((c + (j + 1)) mod ?n)) = Some (as ! ((c + k) mod ?n))"
      "\<And>i. j + 1 \<le> i \<Longrightarrow> i < k \<Longrightarrow> dead s (as ! ((c + i) mod ?n))"
      "k < ?n \<Longrightarrow> \<not> dead s (as ! ((c + k) mod ?n))"
    proof -
      have "n = ?n - (j + 1)" "0 < j + 1" "j + 1 \<le> ?n" using Suc.hyps(2) by simp_all
      from Suc.hyps(1) [OF this(1) that this(2,3)] show thesis .
    qed
    have "dead s (as ! ((c + i) mod ?n))" if "j \<le> i" "i < k" for i
      using that True k(4) [of i] by (cases "i = j") auto
    then show ?thesis using Suc.prems(1) [of k] k step by auto
  qed
qed


subsection \<open>The scheduler\<close>

text \<open>What the switch saved is what the switch back restores.\<close>

lemma pusha_saved:
  assumes "length rs = 8" "pusha rs sp h = (h', sp')"
  shows "sp' = sp - 32" "resumed_registers sp' h' = rev rs" "resumed_eip sp' h' = hmem h sp"
proof -
  obtain a b c d e f g i where rs: "rs = [a, b, c, d, e, f, g, i]"
    using assms(1) by (auto simp: numeral_eq_Suc length_Suc_conv)
  have h: "h' = fst (pusha rs sp h)" "sp' = snd (pusha rs sp h)" using assms(2) by simp_all
  show "sp' = sp - 32" unfolding h rs by simp
  show "resumed_registers sp' h' = rev rs" unfolding h rs resumed_registers_def by (simp add: upt_conv_Cons)
  show "resumed_eip sp' h' = hmem h sp" unfolding h rs resumed_eip_def by simp
qed

definition saved :: "ctx \<Rightarrow> heap \<Rightarrow> u32 \<Rightarrow> sched \<Rightarrow> bool" where
  "saved ctx h p s \<longleftrightarrow> (length (fst ctx) = 8 \<longrightarrow> esp (procs s p) = snd ctx - 32 \<and>
     resumed_registers (esp (procs s p)) (kmem s) = rev (fst ctx) \<and>
     resumed_eip (esp (procs s p)) (kmem s) = hmem h (snd ctx))"

lemma context_switch_fields:
  "current_process (context_switch p ctx s) = current_process s" "process_list (context_switch p ctx s) = process_list s"
  "next_proc (procs (context_switch p ctx s) a) = next_proc (procs s a)"
  "state (procs (context_switch p ctx s) a) = state (procs s a)"
  "a \<noteq> p \<Longrightarrow> procs (context_switch p ctx s) a = procs s a"
  by (simp_all add: context_switch_def split: prod.split)

lemma context_switch_saved: "saved ctx (kmem s) p (context_switch p ctx s)"
  using pusha_saved [of "fst ctx" "snd ctx" "kmem s"] by (auto simp: saved_def context_switch_def split: prod.split)

text \<open>What a tick changes: the current process, and the states of the old and the new one.\<close>

lemma tick_switches:
  assumes inv: "sched_inv s as" and prev: "current_process s \<noteq> 0"
    "(if next_proc (procs s (current_process s)) = 0 then process_list s else next_proc (procs s (current_process s))) = start"
    and nxt: "skip_dead s start = Some nxt" "nxt \<noteq> current_process s" "nxt \<in> set as" "\<not> dead s nxt"
  obtains s' where "scheduler_tick ctx s = Some (s', Some (esp (procs s nxt)))" "current_process s' = nxt" "sched_inv s' as"
    "\<And>a. dead s' a = dead s a" "saved ctx (kmem s) (current_process s) s'" "state (procs s' nxt) = PROCESS_RUNNING"
    "\<And>a. a \<noteq> current_process s \<Longrightarrow> a \<noteq> nxt \<Longrightarrow> procs s' a = procs s a"
proof -
  let ?prev = "current_process s"
  define s1 where "s1 = s\<lparr>current_process := nxt, procs := (procs s)(nxt := (procs s nxt)\<lparr>state := PROCESS_RUNNING\<rparr>)\<rparr>"
  define s2 where "s2 = (if state (procs s1 ?prev) \<noteq> PROCESS_DEAD
    then s1\<lparr>procs := (procs s1)(?prev := (procs s1 ?prev)\<lparr>state := PROCESS_READY\<rparr>)\<rparr> else s1)"
  define s' where "s' = context_switch ?prev ctx s2"
  note defs = s1_def s2_def s'_def context_switch_fields
  have tick: "scheduler_tick ctx s = Some (s', Some (esp (procs s nxt)))"
    unfolding scheduler_tick_def Let_def prev(2) nxt(1) using prev(1) nxt(2) by (simp add: s1_def [symmetric]) (simp add: s1_def s2_def s'_def)
  have "kmem s2 = kmem s" by (simp add: s1_def s2_def)
  then have sv: "saved ctx (kmem s) ?prev s'" using context_switch_saved [of ctx s2] by (simp add: s'_def)
  have nx: "next_proc (procs s' a) = next_proc (procs s a)" for a by (simp add: defs)
  have st: "state (procs s' a) = (if a = nxt then PROCESS_RUNNING else if a = ?prev \<and> \<not> dead s ?prev then PROCESS_READY
      else state (procs s a))" for a
    using nxt(2) by (simp add: defs dead_def)
  have cp: "current_process s' = nxt" "process_list s' = process_list s" by (simp_all add: defs)
  have dd: "dead s' a = dead s a" for a using st [of a] nxt(4) by (auto simp: dead_def split: if_splits)
  have "sched_inv s' as"
    using inv cp st nx chain_cong [of as "procs s'" "procs s"] nxt(2,3) by (auto simp: sched_inv_def dead_def split: if_splits)
  then show thesis using that [OF tick cp(1)] dd sv st [of nxt] nxt(2) by (simp add: defs)
qed

lemma scheduler_tick_spec:
  assumes inv: "sched_inv s as" and c: "c < length as" "as ! c = current_process s"
  obtains k s' r where "scheduler_tick ctx s = Some (s', r)" "0 < k" "k \<le> length as"
    "current_process s' = as ! ((c + k) mod length as)"
    "\<And>i. 0 < i \<Longrightarrow> i < k \<Longrightarrow> dead s (as ! ((c + i) mod length as))"
    "k < length as \<Longrightarrow> \<not> dead s (as ! ((c + k) mod length as))"
    "sched_inv s' as" "\<And>a. dead s' a = dead s a" "k = length as \<Longrightarrow> s' = s \<and> r = None"
    "k < length as \<Longrightarrow> r = Some (esp (procs s (current_process s'))) \<and> saved ctx (kmem s) (current_process s) s' \<and>
       state (procs s' (current_process s')) = PROCESS_RUNNING"
    "\<And>a. a \<noteq> current_process s \<Longrightarrow> a \<noteq> current_process s' \<Longrightarrow> procs s' a = procs s a"
proof -
  let ?n = "length as" and ?prev = "current_process s"
  have ch: "chain (procs s) (process_list s) as" "distinct as" using inv by (simp_all add: sched_inv_def)
  have pz: "?prev \<noteq> 0" using chain_nth(1) [OF ch(1) c(1)] c(2) by simp
  have first: "(if next_proc (procs s ?prev) = 0 then process_list s else next_proc (procs s ?prev)) = as ! ((c + 1) mod ?n)"
    using chain_succ [OF ch(1) c(1)] c(2) by auto
  obtain k where k: "1 \<le> k" "k \<le> ?n" "skip_dead s (as ! ((c + 1) mod ?n)) = Some (as ! ((c + k) mod ?n))"
    "\<And>i. 1 \<le> i \<Longrightarrow> i < k \<Longrightarrow> dead s (as ! ((c + i) mod ?n))"
    "k < ?n \<Longrightarrow> \<not> dead s (as ! ((c + k) mod ?n))"
    by (rule skip_dead_spec [OF ch c, of 1]) (use c in auto)
  let ?nxt = "as ! ((c + k) mod ?n)"
  show ?thesis
  proof (cases "k = ?n")
    case True
    then have "?nxt = ?prev" using c by simp
    then have "scheduler_tick ctx s = Some (s, None)"
      using k(3) first by (simp add: scheduler_tick_def Let_def)
    moreover have "as \<noteq> []" using c(1) by auto
    ultimately show ?thesis using that [of s None k] True k inv \<open>?nxt = ?prev\<close> by auto
  next
    case False
    then have kn: "k < ?n" using k(2) by simp
    have idx: "(c + k) mod ?n < ?n" "(c + k) mod ?n \<noteq> c" using mod_sum [OF c(1) kn] c(1) k(1) kn by (auto split: if_splits)
    then have ne: "?nxt \<noteq> ?prev" "?nxt \<in> set as" using c ch(2) by (metis nth_eq_iff_index_eq, simp)
    obtain s' where "scheduler_tick ctx s = Some (s', Some (esp (procs s ?nxt)))" "current_process s' = ?nxt" "sched_inv s' as"
      "\<And>a. dead s' a = dead s a" "saved ctx (kmem s) ?prev s'" "state (procs s' ?nxt) = PROCESS_RUNNING"
      "\<And>a. a \<noteq> ?prev \<Longrightarrow> a \<noteq> ?nxt \<Longrightarrow> procs s' a = procs s a"
      by (rule tick_switches [OF inv pz first k(3) ne k(5) [OF kn]]) (rule that)
    then show ?thesis using that [of s' _ k] k kn by simp
  qed
qed

text \<open>Several ticks in a row, each with the stack pointer it saves.\<close>

fun ticks :: "ctx list \<Rightarrow> sched \<Rightarrow> sched option" where
  "ticks [] s = Some s"
| "ticks (e # es) s = do { (s, r) \<leftarrow> scheduler_tick e s; ticks es s }"

lemma ticks_reach:
  assumes "sched_inv s as" "c < length as" "as ! c = current_process s" "d < length as"
    and "\<not> dead s (as ! ((c + d) mod length as))"
  shows "\<exists>m \<le> d. \<exists>s'. ticks (map f [0..<m]) s = Some s' \<and>
    current_process s' = as ! ((c + d) mod length as) \<and> sched_inv s' as"
  using assms
proof (induction d arbitrary: s c f rule: less_induct)
  case (less d)
  let ?n = "length as"
  show ?case
  proof (cases "d = 0")
    case True
    then show ?thesis using less.prems by (intro exI [of _ 0]) auto
  next
    case False
    obtain k s1 r where k: "scheduler_tick (f 0) s = Some (s1, r)" "0 < k" "k \<le> ?n"
      "current_process s1 = as ! ((c + k) mod ?n)"
      "\<And>i. 0 < i \<Longrightarrow> i < k \<Longrightarrow> dead s (as ! ((c + i) mod ?n))" "sched_inv s1 as" "\<And>a. dead s1 a = dead s a"
      by (rule scheduler_tick_spec [OF less.prems(1-3), of "f 0"]) blast
    have kd: "k \<le> d" using k(5) [of d] less.prems(5) False by (metis not_less neq0_conv)
    let ?c = "(c + k) mod ?n"
    have "?c < ?n" using less.prems(2) by (intro mod_less_divisor) linarith
    moreover have "(?c + (d - k)) mod ?n = (c + d) mod ?n" 
      using mod_add_left_eq [of "c + k" ?n "d - k"] kd by simp
    ultimately obtain m s' where "m \<le> d - k" "ticks (map (\<lambda>i. f (Suc i)) [0..<m]) s1 = Some s'"
      "current_process s' = as ! ((c + d) mod ?n)" "sched_inv s' as"
    proof -
      assume *: "?c < ?n" "(?c + (d - k)) mod ?n = (c + d) mod ?n"
      have "d - k < d" "d - k < ?n" "\<not> dead s1 (as ! ((?c + (d - k)) mod ?n))"
        using k(2,7) kd less.prems(4,5) *(2) by simp_all
      from less.IH [OF this(1) k(6) *(1) k(4) [symmetric] this(2,3), of "\<lambda>i. f (Suc i)"]
      show thesis unfolding *(2) using that by blast
    qed
    moreover have "map f [0..<Suc m] = f 0 # map (\<lambda>i. f (Suc i)) [0..<m]" by (simp only: map_upt_Suc list.map)
    ultimately show ?thesis
      using k(1,2) kd by (intro exI [of _ "Suc m"] conjI exI [of _ s']) auto
  qed
qed


subsection \<open>Creating a process\<close>

lemma heap_seg_payload:
  "heap_seg a bs m \<Longrightarrow> x \<in> live_words a bs \<Longrightarrow> heap_seg a bs (wput x v m)"
proof (induction a bs m rule: heap_seg.induct)
  case (2 a n f bs m)
  have b: "a + 12 + n \<le> 0x1100000" using "2.prems"(1) heap_seg_bound [of "a + 12 + n" bs m] by simp
  have "a + 12 \<le> x" using live_words_range [OF "2.prems"(2)] .
  moreover have "x < 0x1100000" using live_words_bound [OF "2.prems"] .
  moreover have "heap_seg (a + 12 + n) bs (wput x v m)"
  proof (cases "x < a + 12 + n")
    case True
    then show ?thesis using "2.prems"(1) by simp
  next
    case False
    then have "x \<in> live_words (a + 12 + n) bs" using "2.prems"(2) by (auto split: if_splits)
    then show ?thesis using "2.IH" "2.prems"(1) by simp
  qed
  ultimately show ?case using "2.prems"(1) b by (simp del: of_nat_add)
qed simp

lemma payload_write:
  assumes "heap_rep h bs" "(p, n) \<in> live 0x1000000 bs" "p \<le> x" "x + 4 \<le> p + n" "x mod 4 = 0"
  shows "hwrite (of_nat x) v h = Some (h\<lparr>hmem := wput x v (hmem h)\<rparr>)" "heap_rep (h\<lparr>hmem := wput x v (hmem h)\<rparr>) bs"
    "keeps (live 0x1000000 bs - {(p, n)}) h (h\<lparr>hmem := wput x v (hmem h)\<rparr>)"
proof -
  have seg: "heap_seg 0x1000000 bs (hmem h)" using assms(1) by (simp add: heap_rep_def)
  have r: "0x100000C \<le> p" "p + n \<le> 0x1100000" using live_range [OF assms(2)] live_bound [OF seg assms(2)] by simp_all
  then show "hwrite (of_nat x) v h = Some (h\<lparr>hmem := wput x v (hmem h)\<rparr>)"
    using in_heap [of x] assms(3-5) by (simp add: hwrite_def wput_def)
  have "x \<in> live_words 0x1000000 bs" using assms(2-4) by (auto simp: live_words_def intro!: bexI [of _ "(p, n)"])
  then show "heap_rep (h\<lparr>hmem := wput x v (hmem h)\<rparr>) bs"
    using assms(1) heap_seg_payload by (simp add: heap_rep_def)
  have "wd (wput x v (hmem h)) y = wd (hmem h) y"
    if "(q, k) \<in> live 0x1000000 bs" "(q, k) \<noteq> (p, n)" "q \<le> y" "y < q + k" for q k y
  proof -
    have "y \<noteq> x" using that live_apart [OF assms(2) that(1)] assms(3,4) by auto
    moreover have "y < 0x2000000" "x < 0x2000000" using that(4) live_bound [OF seg that(1)] r assms(4) by simp_all
    ultimately show ?thesis by simp
  qed
  then show "keeps (live 0x1000000 bs - {(p, n)}) h (h\<lparr>hmem := wput x v (hmem h)\<rparr>)"
    unfolding keeps_def by simp blast
qed

lemma push_words_spec:
  assumes "heap_rep h bs" "(p, n) \<in> live 0x1000000 bs" "p + 4 * length ws \<le> t" "t \<le> p + n" "t mod 4 = 0"
  shows "\<exists>m'. push_words ws (of_nat t) h = Some (h\<lparr>hmem := m'\<rparr>, of_nat (t - 4 * length ws)) \<and>
    heap_rep (h\<lparr>hmem := m'\<rparr>) bs \<and> keeps (live 0x1000000 bs - {(p, n)}) h (h\<lparr>hmem := m'\<rparr>) \<and>
    (\<forall>i < length ws. wd m' (t - 4 * (i + 1)) = ws ! i) \<and>
    (\<forall>x < 0x1100000. t \<le> x \<longrightarrow> wd m' x = wd (hmem h) x)"
  using assms
proof (induction ws arbitrary: t h)
  case Nil
  then show ?case by (intro exI [of _ "hmem h"]) (simp add: keeps_def)
next
  case (Cons w ws)
  let ?t = "t - 4"
  have t: "p + 4 * length ws \<le> ?t" "?t mod 4 = 0" "4 \<le> t" "?t + 4 \<le> p + n" using Cons.prems(3-5)
    by (auto simp: mod_eq_0_iff_dvd dvd_diff_nat)
  have seg: "heap_seg 0x1000000 bs (hmem h)" using Cons.prems(1) by (simp add: heap_rep_def)
  have tb: "t \<le> 0x1100000" using live_bound [OF seg Cons.prems(2)] Cons.prems(4) by simp
  have top: "of_nat t - 4 = (of_nat ?t :: u32)" using t(3) by (simp add: of_nat_diff)
  let ?h = "h\<lparr>hmem := wput ?t w (hmem h)\<rparr>"
  note w = payload_write [OF Cons.prems(1,2) _ t(4,2), of w]
  have w: "hwrite (of_nat ?t) w h = Some ?h" "heap_rep ?h bs" "keeps (live 0x1000000 bs - {(p, n)}) h ?h"
    using w t(1) by simp_all
  obtain m' where m': "push_words ws (of_nat ?t) ?h = Some (?h\<lparr>hmem := m'\<rparr>, of_nat (?t - 4 * length ws))"
    "heap_rep (?h\<lparr>hmem := m'\<rparr>) bs" "keeps (live 0x1000000 bs - {(p, n)}) ?h (?h\<lparr>hmem := m'\<rparr>)"
    "\<forall>i < length ws. wd m' (?t - 4 * (i + 1)) = ws ! i" "\<forall>x < 0x1100000. ?t \<le> x \<longrightarrow> wd m' x = wd (hmem ?h) x"
    using Cons.IH [OF w(2) Cons.prems(2) t(1) _ t(2)] t(4) by auto
  have "wd m' (t - 4 * (i + 1)) = (w # ws) ! i" if "i < length (w # ws)" for i
  proof (cases i)
    case 0
    then show ?thesis using m'(5) t(3) tb by simp
  next
    case (Suc j)
    then have "t - 4 * (i + 1) = ?t - 4 * (j + 1)" by simp
    then show ?thesis using m'(4) that Suc by simp
  qed
  moreover have "wd m' x = wd (hmem h) x" if "x < 0x1100000" "t \<le> x" for x
  proof -
    have "x \<noteq> ?t" using that(2) t(3) by simp
    then show ?thesis using m'(5) that t(3) by simp
  qed
  ultimately show ?case
    using m'(1,2) w(1) keeps_trans [OF w(3) m'(3)] top by (intro exI [of _ m']) (simp add: Let_def)
qed

definition owned :: "sched \<Rightarrow> blk list \<Rightarrow> u32 list \<Rightarrow> bool" where
  "owned s bs as \<longleftrightarrow> sched_inv s as \<and> heap_rep (kmem s) bs \<and>
     (\<forall>a \<in> set as. \<exists>n. 1240 \<le> n \<and> (unat a, n) \<in> live 0x1000000 bs)"

lemma initial_frame_nth: "i < 9 \<Longrightarrow> initial_frame entry ! i = (if i = 0 then entry else 0)"
  by (auto simp: initial_frame_def nth_Cons split: nat.split)

lemma frame_resumes:
  assumes "\<forall>i < 9. wd m (t - 4 * (i + 1)) = initial_frame entry ! i" "36 \<le> t"
  shows "resumed_eip (of_nat (t - 36)) (h\<lparr>hmem := m\<rparr>) = entry"
    "resumed_registers (of_nat (t - 36)) (h\<lparr>hmem := m\<rparr>) = replicate 8 0"
proof -
  have at: "m (of_nat (t - 36) + 4 * of_nat i) = (if i = 8 then entry else 0)" if "i < 9" for i
  proof -
    have "of_nat (t - 36) + 4 * of_nat i = (of_nat (t - 4 * (8 - i + 1)) :: u32)"
      using that assms(2) by (simp add: of_nat_diff algebra_simps)
    then show ?thesis using assms(1) [rule_format, of "8 - i"] initial_frame_nth [of "8 - i" entry] that
      by (auto simp: wd_def)
  qed
  show "resumed_eip (of_nat (t - 36)) (h\<lparr>hmem := m\<rparr>) = entry" using at [of 8] by (simp add: resumed_eip_def)
  show "resumed_registers (of_nat (t - 36)) (h\<lparr>hmem := m\<rparr>) = replicate 8 0"
    using at by (intro nth_equalityI) (simp_all add: resumed_registers_def)
qed

text \<open>Appending a new ready process to the list.\<close>

lemma sched_inv_append:
  assumes inv: "sched_inv s as" and new: "b \<notin> set as" "b \<noteq> 0" "next_proc p = 0" "state p = PROCESS_READY"
  shows "last_process ((procs s)(b := p)) (process_list s) = Some (last as)"
    "sched_inv (s\<lparr>procs := ((procs s)(b := p))(last as := (((procs s)(b := p)) (last as))\<lparr>next_proc := b\<rparr>)\<rparr>) (as @ [b])"
    "last as \<noteq> b"
proof -
  let ?ps = "(procs s)(b := p)"
  have ne: "as \<noteq> []" using inv by (auto simp: sched_inv_def)
  have ch: "chain ?ps (process_list s) as"
    using inv new(1) by (simp add: sched_inv_def)
  show "last_process ?ps (process_list s) = Some (last as)" using last_process_spec [OF ch ne] .
  show lb: "last as \<noteq> b" using new(1) ne by auto
  have "chain (?ps(last as := (?ps (last as))\<lparr>next_proc := b\<rparr>)) (process_list s) (as @ [b])"
    using inv new by (intro chain_append [OF ch ne]) (auto simp: sched_inv_def)
  then show "sched_inv (s\<lparr>procs := ?ps(last as := (?ps (last as))\<lparr>next_proc := b\<rparr>)\<rparr>) (as @ [b])"
    using inv new lb unfolding sched_inv_def by auto
qed

lemma sched_inv_other:
  assumes "sched_inv s as" "b \<notin> set as"
  shows "sched_inv (s\<lparr>kmem := h, procs := (procs s)(b := p)\<rparr>) as"
  using assms by (auto simp: sched_inv_def)

lemma process_create_fails:
  assumes own: "owned s bs as"
    and k: "kmalloc sizeof_process_t (kmem s) = Some (h, proc, out)" "kmalloc KERNEL_STACK_SIZE h = Some (h', 0, out')" "proc \<noteq> 0"
  shows "\<exists>s' bs' p. process_create entry s = Some (s', 0, out @ out') \<and> owned s' bs' as \<and>
    live 0x1000000 bs' = live 0x1000000 bs \<and> keeps (live 0x1000000 bs) (kmem s) (kmem s') \<and>
    s' = s\<lparr>kmem := kmem s', procs := (procs s)(proc := p)\<rparr> \<and> proc \<notin> set as"
proof -
  have rep: "heap_rep (kmem s) bs" using own by (simp add: owned_def)
  obtain b1 n where a: "heap_rep h b1" "keeps (live 0x1000000 bs) (kmem s) h"
    "live 0x1000000 b1 = insert (unat proc, n) (live 0x1000000 bs)" "\<And>j. (unat proc, j) \<notin> live 0x1000000 bs"
    using kheap.alloc_block [OF rep, of sizeof_process_t] k by (auto simp: sizeof_process_t_def)
  have h': "heap_rep h' b1" "keeps (live 0x1000000 b1) h h'"
    using kheap.alloc_block [OF a(1), of KERNEL_STACK_SIZE] k(2) by (auto simp: KERNEL_STACK_SIZE_def)
  obtain h2 b2 where f: "kfree proc h' = Some h2" "heap_rep h2 b2" "live 0x1000000 b2 = live 0x1000000 b1 - {(unat proc, n)}"
    "keeps (live 0x1000000 b1 - {(unat proc, n)}) h' h2"
    using kheap.release_block [OF h'(1), of proc n] a(3) by auto
  have same: "live 0x1000000 b1 - {(unat proc, n)} = live 0x1000000 bs" using a(3,4) by auto
  have "keeps (live 0x1000000 bs) h h'" using h'(2) unfolding a(3) keeps_def by simp
  then have kp: "keeps (live 0x1000000 bs) (kmem s) h2" 
    using keeps_trans [OF keeps_trans [OF a(2)]] f(4) same by simp
  have new: "proc \<notin> set as" using own a(4) by (auto simp: owned_def)
  let ?s = "s\<lparr>kmem := h2, procs := (procs s)(proc := (procs s proc)\<lparr>stack := 0\<rparr>)\<rparr>"
  have "process_create entry s = Some (?s, 0, out @ out')"
    using k f(1) by (simp add: process_create_def)
  moreover have "owned ?s b2 as"
    using own f(2,3) same sched_inv_other [OF _ new] by (simp add: owned_def)
  ultimately show ?thesis using f(3) same kp new
    by (intro exI [of _ ?s] exI [of _ b2] exI [of _ "(procs s proc)\<lparr>stack := 0\<rparr>"]) simp
qed

lemma keeps_subset: "keeps L h h' \<Longrightarrow> K \<subseteq> L \<Longrightarrow> keeps K h h'"
  unfolding keeps_def by blast

text \<open>A new process: its structure and its stack are new blocks, and the stack holds the first frame.\<close>

lemma process_create_succeeds:
  assumes own: "owned s bs as"
    and k: "kmalloc sizeof_process_t (kmem s) = Some (h, proc, out)" "kmalloc KERNEL_STACK_SIZE h = Some (h', stk, out')"
      "proc \<noteq> 0" "stk \<noteq> 0"
  obtains s' bs' n m where "process_create entry s = Some (s', proc, out @ out' @ [(''Process: created PID %d'' @ nl, [KInt (next_pid s)])])"
    "owned s' bs' (as @ [proc])" "live 0x1000000 bs' = live 0x1000000 bs \<union> {(unat proc, n), (unat stk, m)}"
    "(unat proc, n) \<notin> live 0x1000000 bs" "(unat stk, m) \<notin> live 0x1000000 bs" "4096 \<le> m" "proc \<noteq> stk"
    "keeps (live 0x1000000 bs) (kmem s) (kmem s')" "proc \<notin> set as"
    "pid (procs s' proc) = next_pid s" "state (procs s' proc) = PROCESS_READY" "next_pid s' = next_pid s + 1"
    "current_process s' = current_process s" "stack (procs s' proc) = stk" "esp (procs s' proc) = stk + 4060"
    "resumed_eip (esp (procs s' proc)) (kmem s') = entry" "resumed_registers (esp (procs s' proc)) (kmem s') = replicate 8 0"
proof -
  let ?L = "live 0x1000000"
  have rep: "heap_rep (kmem s) bs" using own by (simp add: owned_def)
  obtain b1 n where a: "heap_rep h b1" "keeps (?L bs) (kmem s) h" "1240 \<le> n"
    "?L b1 = insert (unat proc, n) (?L bs)" "\<And>j. (unat proc, j) \<notin> ?L bs"
    using kheap.alloc_block [OF rep, of sizeof_process_t] k by (auto simp: sizeof_process_t_def)
  obtain b2 m where b: "heap_rep h' b2" "keeps (?L b1) h h'" "4096 \<le> m"
    "?L b2 = insert (unat stk, m) (?L b1)" "\<And>j. (unat stk, j) \<notin> ?L b1"
    using kheap.alloc_block [OF a(1), of KERNEL_STACK_SIZE] k by (auto simp: KERNEL_STACK_SIZE_def)
  have stk: "(unat stk, m) \<in> ?L b2" using b(4) by simp
  have seg: "heap_seg 0x1000000 b2 (hmem h')" using b(1) by (simp add: heap_rep_def)
  have al: "unat stk mod 4 = 0" using live_aligned [OF seg _ stk] by simp
  let ?t = "unat stk + 4096"
  have tm: "?t mod 4 = 0" using al by presburger
  have len: "length (initial_frame entry) = 9" by (simp add: initial_frame_def)
  obtain m' where p: "push_words (initial_frame entry) (of_nat ?t) h' = Some (h'\<lparr>hmem := m'\<rparr>, of_nat (?t - 36))"
    "heap_rep (h'\<lparr>hmem := m'\<rparr>) b2" "keeps (?L b2 - {(unat stk, m)}) h' (h'\<lparr>hmem := m'\<rparr>)"
    "\<forall>i < 9. wd m' (?t - 4 * (i + 1)) = initial_frame entry ! i"
    using push_words_spec [OF b(1) stk _ _ tm, of "initial_frame entry"] b(3) unfolding len by auto
  have e: "of_nat ?t = stk + KERNEL_STACK_SIZE" "of_nat (?t - 36) = stk + 4060" by (simp_all add: KERNEL_STACK_SIZE_def)
  have new: "proc \<notin> set as" using own a(5) by (auto simp: owned_def)
  have inv: "sched_inv s as" using own by (simp add: owned_def)
  let ?p = "(procs s proc)\<lparr>stack := stk, pid := next_pid s, state := PROCESS_READY, page_dir := 0, next_proc := 0,
    fds := init_fds (fds (procs s proc)), esp := stk + 4060\<rparr>"
  let ?ps = "(procs s)(proc := ?p)"
  note ap = sched_inv_append [OF inv new k(3), of ?p, simplified]
  let ?s = "s\<lparr>kmem := h'\<lparr>hmem := m'\<rparr>, next_pid := next_pid s + 1,
    procs := ?ps(last as := (?ps (last as))\<lparr>next_proc := proc\<rparr>)\<rparr>"
  have create: "process_create entry s = Some (?s, proc, out @ out' @ [(''Process: created PID %d'' @ nl, [KInt (next_pid s)])])"
    using k p(1) ap(1,3) unfolding e by (simp add: process_create_def)
  have "sched_inv ?s (as @ [proc])" using ap(2) by (simp add: sched_inv_def)
  then have own': "owned ?s b2 (as @ [proc])"
    using own p(2) a(3,4) b(4) by (fastforce simp: owned_def)
  have "keeps (?L bs) h h'" "keeps (?L bs) h' (h'\<lparr>hmem := m'\<rparr>)"
    using keeps_subset [OF b(2), of "?L bs"] keeps_subset [OF p(3), of "?L bs"] a(4) b(4,5) by auto
  then have kp: "keeps (?L bs) (kmem s) (kmem ?s)" using keeps_trans [OF keeps_trans [OF a(2)]] by simp
  have fr: "resumed_eip (stk + 4060) (h'\<lparr>hmem := m'\<rparr>) = entry" "resumed_registers (stk + 4060) (h'\<lparr>hmem := m'\<rparr>) = replicate 8 0"
    using frame_resumes [OF p(4), of h'] unfolding e by simp_all
  have "proc \<noteq> stk" using a(4) b(5) [of n] by auto
  then show thesis
    using that [OF create own', of n m] a(4,5) b(3,4,5) kp new fr ap(3) by (simp add: insert_commute)
qed

lemma process_init_spec:
  assumes "heap_rep (kmem s) bs" "kmalloc sizeof_process_t (kmem s) = Some (h, p, out)" "p \<noteq> 0"
  shows "\<exists>s' bs'. process_init s = Some (s', out @ [(''Process: kernel process created (PID 0)'' @ nl, [])]) \<and>
    owned s' bs' [p] \<and> keeps (live 0x1000000 bs) (kmem s) (kmem s') \<and> current_process s' = p \<and> kmem s' = h \<and>
    state (procs s' p) = PROCESS_RUNNING \<and> pid (procs s' p) = next_pid s \<and> next_pid s' = next_pid s + 1"
proof -
  obtain bs' k where "heap_rep h bs'" "keeps (live 0x1000000 bs) (kmem s) h" "1240 \<le> k" "(unat p, k) \<in> live 0x1000000 bs'"
    using kheap.alloc_block [OF assms(1), of sizeof_process_t] assms(2,3) by (auto simp: sizeof_process_t_def)
  then show ?thesis
    using assms(2,3) by (auto simp: process_init_def Let_def owned_def sched_inv_def intro!: exI [of _ bs'])
qed

text \<open>Process exit and the ticks after it.\<close>

lemma process_exit_spec:
  assumes "sched_inv s as"
  obtains s' where "process_exit s = Some s'" "sched_inv s' as" "current_process s' = current_process s"
    "\<And>a. dead s' a = (a = current_process s \<or> dead s a)" "\<And>a. a \<noteq> current_process s \<Longrightarrow> procs s' a = procs s a"
proof -
  let ?c = "current_process s"
  obtain c where "c < length as" "as ! c = ?c" using assms by (auto simp: sched_inv_def in_set_conv_nth)
  then have "?c \<noteq> 0" using chain_nth(1) [of "procs s" "process_list s" as c] assms by (simp add: sched_inv_def)
  then have "process_exit s = Some (s\<lparr>procs := (procs s)(?c := (procs s ?c)\<lparr>state := PROCESS_DEAD\<rparr>)\<rparr>)" (is "_ = Some ?s")
    by (simp add: process_exit_def)
  moreover have "chain (procs ?s) (process_list s) as = chain (procs s) (process_list s) as" by (rule chain_cong) simp
  ultimately show thesis using assms that [of ?s] by (simp add: sched_inv_def dead_def)
qed

lemma current_index:
  assumes "sched_inv s as"
  obtains c where "c < length as" "as ! c = current_process s"
  using assms by (auto simp: sched_inv_def in_set_conv_nth)

lemma tick_not_dead:
  assumes "sched_inv s as" "dead s a" "b \<in> set as" "\<not> dead s b"
  shows "\<exists>s' r. scheduler_tick e s = Some (s', r) \<and> sched_inv s' as \<and> (\<forall>x. dead s' x = dead s x) \<and> current_process s' \<noteq> a"
proof -
  let ?n = "length as"
  obtain c where c: "c < ?n" "as ! c = current_process s" using current_index [OF assms(1)] .
  obtain j where j: "j < ?n" "as ! j = b" using assms(3) by (auto simp: in_set_conv_nth)
  obtain k s' r where k: "scheduler_tick e s = Some (s', r)" "0 < k" "k \<le> ?n" "current_process s' = as ! ((c + k) mod ?n)"
    "\<And>i. 0 < i \<Longrightarrow> i < k \<Longrightarrow> dead s (as ! ((c + i) mod ?n))"
    "k < ?n \<Longrightarrow> \<not> dead s (as ! ((c + k) mod ?n))" "sched_inv s' as" "\<And>a. dead s' a = dead s a"
    by (rule scheduler_tick_spec [OF assms(1) c, of e]) blast
  have "\<not> dead s (current_process s')"
  proof (cases "k < ?n")
    case True
    then show ?thesis using k(4,6) by simp
  next
    case False
    then have kn: "k = ?n" "current_process s' = as ! c" using k(3,4) c(1) by simp_all
    show ?thesis
    proof (cases "j = c")
      case True
      then show ?thesis using j kn assms(4) by simp
    next
      case ne: False
      let ?i = "if c < j then j - c else ?n + j - c"
      have "(c + ?i) mod ?n = j" "0 < ?i" "?i < k" using ne j(1) c(1) kn by (auto simp: mod_if)
      then show ?thesis using k(5) [of ?i] j(2) assms(4) by auto
    qed
  qed
  then show ?thesis using k(1,7,8) assms(2) by auto
qed

lemma ticks_not_dead:
  assumes "sched_inv s as" "dead s a" "b \<in> set as" "\<not> dead s b" "es \<noteq> []"
  shows "\<exists>s'. ticks es s = Some s' \<and> sched_inv s' as \<and> current_process s' \<noteq> a"
  using assms
proof (induction es arbitrary: s)
  case (Cons e es)
  obtain s1 r where t: "scheduler_tick e s = Some (s1, r)" "sched_inv s1 as" "\<forall>x. dead s1 x = dead s x" "current_process s1 \<noteq> a"
    using tick_not_dead [OF Cons.prems(1-4)] by blast
  then show ?case using Cons.IH [OF t(2)] Cons.prems by (cases "es = []") auto
qed simp


subsection \<open>A running system for the examples\<close>

definition no_process :: process_t where
  "no_process = \<lparr>pid = 0, esp = 0, page_dir = 0, stack = 0, state = PROCESS_DEAD,
     fds = replicate MAX_FD \<lparr>fd_used = 0, fd_name = replicate 64 0, fd_position = 0, fd_size = 0\<rparr>, next_proc = 0\<rparr>"

definition sched_zero :: sched where
  "sched_zero = \<lparr>current_process = 0, process_list = 0, next_pid = 0, procs = \<lambda>_. no_process, kmem = heap_boot\<rparr>"

lemma sched_boot_state:
  obtains s bs where "process_init sched_zero = Some (s, [(''Process: kernel process created (PID 0)'' @ nl, [])])"
    "owned s bs [0x100000C]" "current_process s = 0x100000C" "heap_rep (kmem s) [(1240, False), (1047312, True)]"
proof -
  obtain h where h: "kmalloc sizeof_process_t heap_boot = Some (h, 0x100000C, [])" "heap_rep h [(1240, False), (1047312, True)]"
    using kmalloc_spec [OF heap_boot_rep, of sizeof_process_t] by (auto simp: up4_def sizeof_process_t_def)
  then obtain s bs where "process_init sched_zero = Some (s, [(''Process: kernel process created (PID 0)'' @ nl, [])])"
    "owned s bs [0x100000C]" "current_process s = 0x100000C" "kmem s = h"
    using process_init_spec [of sched_zero "[(0xFFFF4, True)]" h "0x100000C" "[]"] heap_boot_rep
    by (auto simp: sched_zero_def)
  then show thesis using that h(2) by blast
qed

definition sched_demo :: sched where
  "sched_demo = \<lparr>current_process = 0x1000100, process_list = 0x1000100, next_pid = 3,
     procs = (\<lambda>_. no_process)
       (0x1000100 := no_process\<lparr>state := PROCESS_RUNNING, next_proc := 0x1000200\<rparr>,
        0x1000200 := no_process\<lparr>pid := 1, next_proc := 0x1000300\<rparr>,
        0x1000300 := no_process\<lparr>pid := 2, state := PROCESS_READY, esp := 0x1000F00\<rparr>),
     kmem = heap_boot\<rparr>"

lemma sched_demo_inv:
  "sched_inv sched_demo [0x1000100, 0x1000200, 0x1000300]" "current_process sched_demo = 0x1000100"
  "dead sched_demo 0x1000200" "\<not> dead sched_demo 0x1000300" "\<not> dead sched_demo 0x1000100"
  by (simp_all add: sched_inv_def sched_demo_def dead_def no_process_def)


subsection \<open>Properties\<close>

text \<open>C26. The scheduler is round robin: a tick makes the next process of the list that is not dead the
  current one, skipping only dead ones and wrapping at the end of the list. The switch
  continues at the stack pointer saved in the new process, which is marked running; the
  registers and the return address of the old one are saved where a switch back pops them,
  and no third process changes. When every other process is dead nothing changes at all.\<close>

theorem scheduler_tick_round_robin:
  assumes "sched_inv s as" "c < length as" "as ! c = current_process s"
  shows "\<exists>k s' r. scheduler_tick ctx s = Some (s', r) \<and> 0 < k \<and> k \<le> length as \<and> sched_inv s' as \<and>
    current_process s' = as ! ((c + k) mod length as) \<and>
    (\<forall>i. 0 < i \<and> i < k \<longrightarrow> dead s (as ! ((c + i) mod length as))) \<and>
    (if k = length as then s' = s \<and> r = None
     else \<not> dead s (current_process s') \<and> r = Some (esp (procs s (current_process s'))) \<and>
       saved ctx (kmem s) (current_process s) s' \<and> state (procs s' (current_process s')) = PROCESS_RUNNING \<and>
       (\<forall>a. a \<noteq> current_process s \<longrightarrow> a \<noteq> current_process s' \<longrightarrow> procs s' a = procs s a))"
proof -
  obtain k s' r where k: "scheduler_tick ctx s = Some (s', r)" "0 < k" "k \<le> length as"
    "current_process s' = as ! ((c + k) mod length as)"
    "\<And>i. 0 < i \<Longrightarrow> i < k \<Longrightarrow> dead s (as ! ((c + i) mod length as))"
    "k < length as \<Longrightarrow> \<not> dead s (as ! ((c + k) mod length as))"
    "sched_inv s' as" "\<And>a. dead s' a = dead s a" "k = length as \<Longrightarrow> s' = s \<and> r = None"
    "k < length as \<Longrightarrow> r = Some (esp (procs s (current_process s'))) \<and> saved ctx (kmem s) (current_process s) s' \<and>
       state (procs s' (current_process s')) = PROCESS_RUNNING"
    "\<And>a. a \<noteq> current_process s \<Longrightarrow> a \<noteq> current_process s' \<Longrightarrow> procs s' a = procs s a"
    by (rule scheduler_tick_spec [OF assms, of ctx]) (rule that)
  then show ?thesis by (intro exI [of _ k] exI [of _ s'] exI [of _ r]) simp
qed

theorem scheduler_tick_round_robin_witness:
  "\<exists>s'. scheduler_tick ([1, 2, 3, 4, 5, 6, 7, 8], 0x1F0020) sched_demo = Some (s', Some 0x1000F00) \<and>
     current_process s' = 0x1000300 \<and> esp (procs s' 0x1000100) = 0x1F0000 \<and>
     resumed_registers 0x1F0000 (kmem s') = [8, 7, 6, 5, 4, 3, 2, 1]"
proof -
  let ?x = "([1, 2, 3, 4, 5, 6, 7, 8], 0x1F0020) :: ctx"
  let ?as = "[0x1000100, 0x1000200, 0x1000300] :: u32 list"
  have c: "0 < length ?as" "?as ! 0 = current_process sched_demo" using sched_demo_inv(2) by simp_all
  obtain k s' r where k: "scheduler_tick ?x sched_demo = Some (s', r)" "0 < k" "k \<le> length ?as"
    "current_process s' = ?as ! ((0 + k) mod length ?as)"
    "\<forall>i. 0 < i \<and> i < k \<longrightarrow> dead sched_demo (?as ! ((0 + i) mod length ?as))"
    "if k = length ?as then s' = sched_demo \<and> r = None
     else \<not> dead sched_demo (current_process s') \<and> r = Some (esp (procs sched_demo (current_process s'))) \<and>
       saved ?x (kmem sched_demo) (current_process sched_demo) s' \<and> state (procs s' (current_process s')) = PROCESS_RUNNING \<and>
       (\<forall>a. a \<noteq> current_process sched_demo \<longrightarrow> a \<noteq> current_process s' \<longrightarrow> procs s' a = procs sched_demo a)"
    using scheduler_tick_round_robin [OF sched_demo_inv(1) c, of ?x] by (elim exE conjE) (rule that)
  have "k \<noteq> 1" using k(4,6) sched_demo_inv(3) by auto
  moreover have "k \<noteq> 3" using k(5) [rule_format, of 2] sched_demo_inv(4) by auto
  ultimately have "k = 2" using k(2,3) by simp
  then show ?thesis using k(1,4,6) sched_demo_inv(2) by (auto simp: sched_demo_def saved_def)
qed

text \<open>C27. No process starves: every process of the list that is not dead becomes the current one after
  fewer ticks than there are processes, whatever the stack pointers saved on the way.\<close>

theorem scheduler_fair:
  assumes "sched_inv s as" "a \<in> set as" "\<not> dead s a"
  shows "\<exists>m < length as. \<exists>s'. ticks (map f [0..<m]) s = Some s' \<and> current_process s' = a \<and> sched_inv s' as"
proof -
  let ?n = "length as"
  obtain c where c: "c < ?n" "as ! c = current_process s" using current_index [OF assms(1)] .
  obtain j where j: "j < ?n" "as ! j = a" using assms(2) by (auto simp: in_set_conv_nth)
  let ?d = "if c \<le> j then j - c else ?n + j - c"
  have d: "(c + ?d) mod ?n = j" "?d < ?n" using j(1) c(1) by (auto simp: mod_if)
  then have "\<not> dead s (as ! ((c + ?d) mod ?n))" using j(2) assms(3) by simp
  from ticks_reach [OF assms(1) c d(2) this, of f] obtain m s' where "m \<le> ?d" "ticks (map f [0..<m]) s = Some s'"
    "current_process s' = as ! ((c + ?d) mod ?n)" "sched_inv s' as" by (elim exE conjE) (rule that)
  then show ?thesis using d j(2) by (intro exI [of _ m] conjI exI [of _ s']) simp_all
qed

theorem scheduler_fair_witness:
  "\<exists>m < 3. \<exists>s'. ticks (map (\<lambda>i. ([], 0x1000800)) [0..<m]) sched_demo = Some s' \<and> current_process s' = 0x1000300"
  using scheduler_fair [OF sched_demo_inv(1) _ sched_demo_inv(4), of "\<lambda>i. ([], 0x1000800)"] by (simp add: numeral_eq_Suc) blast

text \<open>C28. A process that called \<open>process_exit\<close> is never current again after the next tick, as long as
  some other process is not dead.\<close>

theorem process_exit_not_resumed:
  assumes "sched_inv s as" "b \<in> set as" "b \<noteq> current_process s" "\<not> dead s b" "es \<noteq> []"
  shows "\<exists>s1 s2. process_exit s = Some s1 \<and> ticks es s1 = Some s2 \<and> sched_inv s2 as \<and>
    current_process s2 \<noteq> current_process s"
proof -
  obtain s1 where s1: "process_exit s = Some s1" "sched_inv s1 as" "\<And>a. dead s1 a = (a = current_process s \<or> dead s a)"
    by (rule process_exit_spec [OF assms(1)]) (rule that)
  then show ?thesis using ticks_not_dead [OF s1(2) _ assms(2) _ assms(5), of "current_process s"] assms(3,4) by auto
qed

theorem process_exit_not_resumed_witness:
  "\<exists>s1 s2. process_exit sched_demo = Some s1 \<and> ticks [([], 1), ([], 2), ([], 3)] s1 = Some s2 \<and> current_process s2 \<noteq> 0x1000100"
proof -
  have "(0x1000300 :: u32) \<noteq> current_process sched_demo" using sched_demo_inv(2) by simp
  from process_exit_not_resumed [OF sched_demo_inv(1) _ this sched_demo_inv(4), of "[([], 1), ([], 2), ([], 3)]"]
  show ?thesis using sched_demo_inv(2) by auto
qed

text \<open>C29. \<open>process_create\<close> either fails with the null pointer, leaving the processes, their order and
  the allocated blocks as they were, or appends one ready process with the next process id
  whose structure and stack are new blocks; switching to it pops zeros into the registers
  and continues at the entry point. The contents of all blocks allocated before are kept.\<close>

theorem process_create_ready:
  assumes "owned s bs as"
  shows "\<exists>s' p ms bs'. process_create entry s = Some (s', p, ms) \<and> keeps (live 0x1000000 bs) (kmem s) (kmem s') \<and>
    current_process s' = current_process s \<and>
    (if p = 0 then owned s' bs' as \<and> live 0x1000000 bs' = live 0x1000000 bs \<and> next_pid s' = next_pid s \<and>
       (\<forall>a \<in> set as. procs s' a = procs s a)
     else owned s' bs' (as @ [p]) \<and> p \<notin> set as \<and> next_pid s' = next_pid s + 1 \<and> pid (procs s' p) = next_pid s \<and>
       state (procs s' p) = PROCESS_READY \<and> esp (procs s' p) = stack (procs s' p) + 4060 \<and>
       (\<exists>n m. 4096 \<le> m \<and> p \<noteq> stack (procs s' p) \<and>
          live 0x1000000 bs' = live 0x1000000 bs \<union> {(unat p, n), (unat (stack (procs s' p)), m)} \<and>
          (unat p, n) \<notin> live 0x1000000 bs \<and> (unat (stack (procs s' p)), m) \<notin> live 0x1000000 bs) \<and>
       resumed_registers (esp (procs s' p)) (kmem s') = replicate 8 0 \<and> resumed_eip (esp (procs s' p)) (kmem s') = entry)"
proof -
  have rep: "heap_rep (kmem s) bs" using assms by (simp add: owned_def)
  obtain h p out b1 where h: "kmalloc sizeof_process_t (kmem s) = Some (h, p, out)" "heap_rep h b1"
    "keeps (live 0x1000000 bs) (kmem s) h" "p = 0 \<Longrightarrow> b1 = bs"
    using kheap.alloc_block [OF rep, of sizeof_process_t] by (auto simp: sizeof_process_t_def split: if_splits)
  obtain h' stk out' where k: "kmalloc KERNEL_STACK_SIZE h = Some (h', stk, out')"
    using kheap.alloc_block [OF h(2), of KERNEL_STACK_SIZE] by (auto simp: KERNEL_STACK_SIZE_def)
  consider "p = 0" | "p \<noteq> 0" "stk = 0" | "p \<noteq> 0" "stk \<noteq> 0" by blast
  then show ?thesis
  proof cases
    case 1
    then have "process_create entry s = Some (s\<lparr>kmem := h\<rparr>, 0, out)" using h(1) by (simp add: process_create_def)
    moreover have "owned (s\<lparr>kmem := h\<rparr>) bs as" using assms h 1 by (simp add: owned_def sched_inv_def)
    ultimately show ?thesis using h(3) by (intro exI [of _ "s\<lparr>kmem := h\<rparr>"] exI [of _ 0] exI [of _ out] exI [of _ bs]) simp
  next
    case 2
    obtain s' bs' q where f: "process_create entry s = Some (s', 0, out @ out')" "owned s' bs' as"
      "live 0x1000000 bs' = live 0x1000000 bs" "keeps (live 0x1000000 bs) (kmem s) (kmem s')"
      "s' = s\<lparr>kmem := kmem s', procs := (procs s)(p := q)\<rparr>" "p \<notin> set as"
      using process_create_fails [OF assms h(1) k [unfolded 2(2)] 2(1), of entry] by (elim exE conjE) (rule that)
    have "current_process s' = current_process s" "next_pid s' = next_pid s" "\<forall>a \<in> set as. procs s' a = procs s a"
      using f(6) by (subst f(5); auto)+
    then show ?thesis using f(1-4) by (intro exI [of _ s'] exI [of _ 0] exI [of _ "out @ out'"] exI [of _ bs']) simp
  next
    case 3
    let ?ms = "out @ out' @ [(''Process: created PID %d'' @ nl, [KInt (next_pid s)])]"
    show ?thesis
    proof (rule process_create_succeeds [OF assms h(1) k 3, of entry], goal_cases)
      case (1 s' bs' n m)
      then show ?thesis using 3
        by (intro exI [of _ s'] exI [of _ p] exI [of _ ?ms] exI [of _ bs']) auto
    qed
  qed
qed

theorem process_create_ready_witness:
  "\<exists>s s' p ms bs'. process_init sched_zero = Some (s, [(''Process: kernel process created (PID 0)'' @ nl, [])]) \<and>
     process_create 0x400000 s = Some (s', p, ms) \<and> current_process s' = 0x100000C \<and>
     (if p = 0 then owned s' bs' [0x100000C]
      else owned s' bs' [0x100000C, p] \<and> resumed_eip (esp (procs s' p)) (kmem s') = 0x400000)"
proof -
  obtain s bs where s: "process_init sched_zero = Some (s, [(''Process: kernel process created (PID 0)'' @ nl, [])])"
    "owned s bs [0x100000C]" "current_process s = 0x100000C"
    by (rule sched_boot_state)
  show ?thesis
    using process_create_ready [OF s(2), of "0x400000"] s(1,3)
    by (elim exE conjE) (simp split: if_splits, blast, metis)
qed

end
