(* ===== verification/Diskfmt.thy ===== *)
theory Diskfmt
  imports Kprintf
begin

text \<open>
  The on-disk format of AshFS, \<open>include/fs.h\<close> and the inode helpers of \<open>kernel/fs.c\<close>: the two
  packed structures as records, their bytes, and the inode table in sectors 1 to 16 (two
  200-byte inodes to a sector). The disk is a store of 512-byte sectors; the driver puts
  28 bits of the sector number on the bus, so the others do not count.
\<close>

definition MAX_FILES :: nat where [const_defs]: "MAX_FILES = 32"
definition MAX_FILE_BLOCKS :: nat where [const_defs]: "MAX_FILE_BLOCKS = 32"
definition FS_BLOCK_SIZE :: u32 where [const_defs]: "FS_BLOCK_SIZE = 512"
definition MAX_FILENAME :: nat where [const_defs]: "MAX_FILENAME = 64"
definition SUPERBLOCK_SECTOR :: u32 where [const_defs]: "SUPERBLOCK_SECTOR = 0"
definition INODE_START_SECTOR :: u32 where [const_defs]: "INODE_START_SECTOR = 1"
definition DATA_START_SECTOR :: u32 where [const_defs]: "DATA_START_SECTOR = 33"

record superblock_t =
  magic :: u32
  version :: u32
  total_blocks :: u32
  inode_start :: u32
  data_start :: u32
  free_blocks :: u32

record inode_t =
  inode_name :: bytes
  inode_size :: u32
  inode_blocks :: "u32 list"
  inode_used :: u8
  inode_padding :: bytes

definition sizeof_inode_t :: nat where [const_defs]: "sizeof_inode_t = 200"
definition INODES_PER_SECTOR :: nat where "INODES_PER_SECTOR = 512 div sizeof_inode_t"

text \<open>A 32-bit word in memory, lowest byte first.\<close>

definition le32 :: "u32 \<Rightarrow> bytes" where
  "le32 w = [ucast w, ucast (drop_bit 8 w), ucast (drop_bit 16 w), ucast (drop_bit 24 w)]"

definition un32 :: "bytes \<Rightarrow> u32" where
  "un32 bs = ucast (bs ! 0) OR push_bit 8 (ucast (bs ! 1)) OR push_bit 16 (ucast (bs ! 2)) OR
     push_bit 24 (ucast (bs ! 3))"

text \<open>The bytes of the structures, and the structures the bytes stand for.\<close>

definition superblock_bytes :: "superblock_t \<Rightarrow> bytes" where
  "superblock_bytes s = concat (map le32
     [magic s, version s, total_blocks s, inode_start s, data_start s, free_blocks s])"

definition superblock_of :: "bytes \<Rightarrow> superblock_t" where
  "superblock_of bs = \<lparr>magic = un32 bs, version = un32 (drop 4 bs), total_blocks = un32 (drop 8 bs),
     inode_start = un32 (drop 12 bs), data_start = un32 (drop 16 bs), free_blocks = un32 (drop 20 bs)\<rparr>"

definition inode_bytes :: "inode_t \<Rightarrow> bytes" where
  "inode_bytes x = inode_name x @ le32 (inode_size x) @ concat (map le32 (inode_blocks x)) @
     [inode_used x] @ inode_padding x"

definition inode_of :: "bytes \<Rightarrow> inode_t" where
  "inode_of bs = \<lparr>inode_name = take 64 bs, inode_size = un32 (drop 64 bs),
     inode_blocks = map (\<lambda>i. un32 (drop (68 + 4 * i) bs)) [0..<32],
     inode_used = bs ! 196, inode_padding = take 3 (drop 197 bs)\<rparr>"

text \<open>\<open>memcpy (dst + off, src, n)\<close> and \<open>memset\<close> on a buffer.\<close>

definition copy_to :: "nat \<Rightarrow> bytes \<Rightarrow> nat \<Rightarrow> bytes \<Rightarrow> bytes" where
  "copy_to off src n dst = take off dst @ take n src @ drop (off + n) dst"

type_synonym disk = "u32 \<Rightarrow> bytes"

definition read_sector :: "u32 \<Rightarrow> disk \<Rightarrow> bytes" where
  "read_sector lba d = d (lba AND 0x0FFFFFFF)"

definition write_sector :: "u32 \<Rightarrow> bytes \<Rightarrow> disk \<Rightarrow> disk" where
  "write_sector lba buf d = d(lba AND 0x0FFFFFFF := buf)"

definition inode_sector :: "nat \<Rightarrow> u32" where
  "inode_sector index = INODE_START_SECTOR + of_nat (index div INODES_PER_SECTOR)"

definition inode_read :: "nat \<Rightarrow> disk \<Rightarrow> inode_t" where
  "inode_read index d =
     inode_of (take sizeof_inode_t
       (drop (index mod INODES_PER_SECTOR * sizeof_inode_t) (read_sector (inode_sector index) d)))"

definition inode_write :: "nat \<Rightarrow> inode_t \<Rightarrow> disk \<Rightarrow> disk" where
  "inode_write index inode d =
     write_sector (inode_sector index)
       (copy_to (index mod INODES_PER_SECTOR * sizeof_inode_t) (inode_bytes inode) sizeof_inode_t
         (read_sector (inode_sector index) d)) d"

subsection \<open>Bytes and words\<close>

lemma length_le32 [simp]: "length (le32 w) = 4"
  by (simp add: le32_def)

lemma un32_le32 [simp]: "un32 (le32 w @ bs) = w"
proof -
  have "bit (un32 (le32 w @ bs)) n = bit w n" if "n < 32" for n
  proof -
    consider "n < 8" | "8 \<le> n" "n < 16" | "16 \<le> n" "n < 24" | "24 \<le> n" by linarith
    then show ?thesis using that by cases (auto simp: un32_def le32_def bit_simps)
  qed
  then show ?thesis by (intro bit_word_eqI) simp
qed

lemma un32_le32_single [simp]: "un32 (le32 w) = w"
  using un32_le32 [of w "[]"] by simp

lemma four_bytes:
  assumes "4 \<le> length bs"
  obtains a b c d r where "bs = a # b # c # d # r"
  using assms by (auto simp: Suc_le_length_iff eval_nat_numeral)

lemma byte_high_bits: "\<not> bit (a :: u8) (8 + n)" "\<not> bit (a :: u8) (16 + n)" "\<not> bit (a :: u8) (24 + n)"
  using bit_imp_le_length [of a] by fastforce+

lemma le32_un32: "4 \<le> length bs \<Longrightarrow> le32 (un32 bs) = take 4 bs"
  by (erule four_bytes)
    (auto simp: un32_def le32_def bit_simps byte_high_bits intro!: bit_word_eqI)

lemma un32_zeros: "4 \<le> n \<Longrightarrow> un32 (replicate n 0) = 0"
  by (simp add: un32_def)

lemma length_le32s [simp]: "length (concat (map le32 ws)) = 4 * length ws"
  by (induction ws) auto

lemma un32_nth_le32s: "i < length ws \<Longrightarrow> un32 (drop (4 * i) (concat (map le32 ws) @ bs)) = ws ! i"
proof (induction ws arbitrary: i)
  case (Cons w ws)
  then show ?case
    by (cases i) (simp_all add: algebra_simps)
qed simp

lemma un32_nth_le32s': "i < length ws \<Longrightarrow> un32 (drop (4 * i) (concat (map le32 ws)) @ bs) = ws ! i"
  using un32_nth_le32s [of i ws bs] by simp

lemma le32s_of_bytes:
  "4 * n \<le> length bs \<Longrightarrow> concat (map le32 (map (\<lambda>i. un32 (drop (4 * i) bs)) [0..<n])) = take (4 * n) bs"
proof (induction n)
  case (Suc n)
  have "le32 (un32 (drop (4 * n) bs)) = take 4 (drop (4 * n) bs)"
    using Suc.prems by (intro le32_un32) simp
  moreover have "take (4 * Suc n) bs = take (4 * n) bs @ take 4 (drop (4 * n) bs)"
    by (simp add: take_add [symmetric] add.commute)
  ultimately show ?case using Suc by simp
qed simp

subsection \<open>The structures and their bytes\<close>

definition inode_ok :: "inode_t \<Rightarrow> bool" where
  "inode_ok x \<longleftrightarrow> length (inode_name x) = 64 \<and> length (inode_blocks x) = 32 \<and> length (inode_padding x) = 3"

lemma length_inode_bytes [simp]: "inode_ok x \<Longrightarrow> length (inode_bytes x) = 200"
  by (simp add: inode_ok_def inode_bytes_def)

lemma inode_ok_of [simp]: "length bs = 200 \<Longrightarrow> inode_ok (inode_of bs)"
  by (simp add: inode_ok_def inode_of_def)

lemma inode_of_bytes:
  assumes "inode_ok x"
  shows "inode_of (inode_bytes x) = x"
proof -
  have len: "length (inode_name x) = 64" "length (inode_blocks x) = 32" "length (inode_padding x) = 3"
    using assms by (simp_all add: inode_ok_def)
  have "map (\<lambda>i. un32 (drop (68 + 4 * i) (inode_bytes x))) [0..<32] = inode_blocks x"
    using len by (intro nth_equalityI) (auto simp: inode_bytes_def un32_nth_le32s')
  moreover have "inode_bytes x ! 196 = inode_used x" "take 3 (drop 197 (inode_bytes x)) = inode_padding x"
    "take 64 (inode_bytes x) = inode_name x" "un32 (drop 64 (inode_bytes x)) = inode_size x"
    using len by (simp_all add: inode_bytes_def nth_append)
  ultimately show ?thesis by (simp add: inode_of_def)
qed

lemma inode_bytes_of:
  assumes "length bs = 200"
  shows "inode_bytes (inode_of bs) = bs"
proof -
  have "(\<lambda>i. un32 (drop (68 + 4 * i) bs)) = (\<lambda>i. un32 (drop (4 * i) (drop 68 bs)))"
    by (simp add: add.commute)
  then have "concat (map le32 (map (\<lambda>i. un32 (drop (68 + 4 * i) bs)) [0..<32])) = take 128 (drop 68 bs)"
    using le32s_of_bytes [of 32 "drop 68 bs"] assms by (simp only:) simp
  moreover have "le32 (un32 (drop 64 bs)) = take 4 (drop 64 bs)" using assms by (intro le32_un32) simp
  moreover have "[bs ! 196] = take 1 (drop 196 bs)" using assms by (simp add: take_Suc_conv_app_nth hd_drop_conv_nth take_Suc)
  moreover have "take 3 (drop 197 bs) = drop 197 bs" using assms by simp
  moreover have "drop 196 bs = take 1 (drop 196 bs) @ drop 197 bs" "drop 68 bs = take 128 (drop 68 bs) @ drop 196 bs"
    "drop 64 bs = take 4 (drop 64 bs) @ drop 68 bs" "bs = take 64 bs @ drop 64 bs"
    using append_take_drop_id [of 1 "drop 196 bs"] append_take_drop_id [of 128 "drop 68 bs"]
      append_take_drop_id [of 4 "drop 64 bs"] by simp_all
  ultimately show ?thesis
    unfolding inode_bytes_def inode_of_def inode_t.simps by metis
qed

lemma superblock_of_bytes [simp]: "superblock_of (superblock_bytes s @ bs) = s"
  by (simp add: superblock_of_def superblock_bytes_def drop_append)

lemma length_superblock_bytes [simp]: "length (superblock_bytes s) = 24"
  by (simp add: superblock_bytes_def)

subsection \<open>The inode table\<close>

definition disk_ok :: "disk \<Rightarrow> bool" where
  "disk_ok d \<longleftrightarrow> (\<forall>b. length (d b) = 512)"

lemma low28: "unat w < 268435456 \<Longrightarrow> w AND 0x0FFFFFFF = (w :: u32)"
proof -
  assume "unat w < 268435456"
  moreover have "w AND 0x0FFFFFFF = take_bit 28 w" by (simp add: take_bit_eq_mask mask_eq_exp_minus_1)
  ultimately show ?thesis by (simp add: take_bit_eq_mod word_eq_unat unat_mod)
qed

text \<open>The table as 32 slots of 200 bytes, and what writes to it and elsewhere do to a slot.\<close>

definition slot_sector :: "nat \<Rightarrow> u32" where "slot_sector i = 1 + of_nat (i div 2)"

definition slot :: "disk \<Rightarrow> nat \<Rightarrow> bytes" where
  "slot d i = take 200 (drop (i mod 2 * 200) (d (slot_sector i)))"

lemma unat_slot_sector: "i < 32 \<Longrightarrow> unat (slot_sector i) = 1 + i div 2"
  by (simp add: slot_sector_def unat_add_u32 unat_of_nat_u32)

lemma inode_sector_slot: "i < 32 \<Longrightarrow> inode_sector i AND 0x0FFFFFFF = slot_sector i"
  using unat_slot_sector [of i] low28 [of "slot_sector i"]
  by (simp add: inode_sector_def slot_sector_def INODE_START_SECTOR_def INODES_PER_SECTOR_def sizeof_inode_t_def)

lemma slot_sector_eq: "i < 32 \<Longrightarrow> j < 32 \<Longrightarrow> (slot_sector i = slot_sector j) = (i div 2 = j div 2)"
  by (simp add: word_eq_unat unat_slot_sector)

lemma slot_sector_range: "i < 32 \<Longrightarrow> slot_sector i = w \<Longrightarrow> 1 \<le> unat w \<and> unat w < 17"
  using unat_slot_sector [of i] by auto

lemma disk_ok_length [simp]: "disk_ok d \<Longrightarrow> length (d b) = 512"
  by (simp add: disk_ok_def)

lemma length_slot [simp]: "disk_ok d \<Longrightarrow> i < 32 \<Longrightarrow> length (slot d i) = 200"
  by (simp add: slot_def)

lemma inode_read_slot: "i < 32 \<Longrightarrow> inode_read i d = inode_of (slot d i)"
  by (simp add: inode_read_def read_sector_def inode_sector_slot slot_def INODES_PER_SECTOR_def sizeof_inode_t_def)

lemma inode_write_sector:
  "i < 32 \<Longrightarrow> inode_write i x d = d(slot_sector i :=
     copy_to (i mod 2 * 200) (inode_bytes x) 200 (d (slot_sector i)))"
  by (simp add: inode_write_def write_sector_def read_sector_def inode_sector_slot INODES_PER_SECTOR_def sizeof_inode_t_def)

lemma copy_to_slots:
  assumes "length dst = 512" "length src = 200" "p < 2" "q < 2"
  shows "take 200 (drop (q * 200) (copy_to (p * 200) src 200 dst)) =
    (if q = p then src else take 200 (drop (q * 200) dst))"
  using assms by (auto simp: copy_to_def less_2_cases_iff)

lemma slot_inode_write:
  assumes "disk_ok d" "inode_ok x" "i < 32" "j < 32"
  shows "slot (inode_write i x d) j = (if j = i then inode_bytes x else slot d j)"
proof (cases "j div 2 = i div 2")
  case True
  then have "(j = i) = (j mod 2 = i mod 2)" by (metis div_mult_mod_eq)
  then show ?thesis
    using True assms copy_to_slots [of "d (slot_sector i)" "inode_bytes x" "i mod 2" "j mod 2"] slot_sector_eq [of j i]
    by (simp add: slot_def inode_write_sector)
next
  case False
  then show ?thesis using assms slot_sector_eq [of j i] by (auto simp: slot_def inode_write_sector)
qed

lemma disk_ok_inode_write: "disk_ok d \<Longrightarrow> inode_ok x \<Longrightarrow> i < 32 \<Longrightarrow> disk_ok (inode_write i x d)"
  by (auto simp: disk_ok_def inode_write_sector copy_to_def)

lemma inode_write_other: "i < 32 \<Longrightarrow> unat s = 0 \<or> 17 \<le> unat s \<Longrightarrow> inode_write i x d s = d s"
  using slot_sector_range [of i s] by (auto simp: inode_write_sector)

lemma slot_write_other:
  assumes "unat b = 0 \<or> 17 \<le> unat b" "i < 32"
  shows "slot (d(b := buf)) i = slot d i"
  using slot_sector_range [OF assms(2), of b] assms(1) by (auto simp: slot_def)

lemma disk_ok_write [simp]: "disk_ok d \<Longrightarrow> length buf = 512 \<Longrightarrow> disk_ok (d(b := buf))"
  by (simp add: disk_ok_def)

text \<open>Reading back an inode gives what was written, and the other 31 are not touched.\<close>

lemma inode_write_read:
  assumes "disk_ok d" "inode_ok x" "i < 32" "j < 32"
  shows "inode_read j (inode_write i x d) = (if j = i then x else inode_read j d)"
  using assms slot_inode_write [OF assms] inode_of_bytes by (simp add: inode_read_slot)

lemma inode_ok_read: "disk_ok d \<Longrightarrow> i < 32 \<Longrightarrow> inode_ok (inode_read i d)"
  by (simp add: inode_read_slot)

end
