(* ===== verification/Fs.thy ===== *)
theory Fs
  imports Diskfmt
begin

text \<open>
  The file system, \<open>kernel/fs.c\<close>: the cached superblock and the disk. Every operation reads the
  inode table from the disk and writes it back through the helpers of \<^verbatim>\<open>Diskfmt\<close>. Buffers of
  the caller are byte lists; a copy past the end of one, and an index outside the
  1024-entry map of \<open>block_alloc\<close>, are \<open>None\<close>. The abstract file system is a map from names
  to contents, and each operation is related to its update of that map.
\<close>

record fs =
  superblock :: superblock_t
  disk :: disk

definition FS_MAGIC :: u32 where [const_defs]: "FS_MAGIC = 0xA5075"

subsection \<open>String helpers\<close>

text \<open>\<open>char\<close> is signed; the terminator ends the list.\<close>

fun fs_strcmp :: "bytes \<Rightarrow> bytes \<Rightarrow> int" where
  "fs_strcmp [] [] = 0"
| "fs_strcmp [] (b # bs) = 0 - sint b"
| "fs_strcmp (a # as) [] = sint a - 0"
| "fs_strcmp (a # as) (b # bs) =
     (if a \<noteq> 0 \<and> b \<noteq> 0 \<and> a = b then fs_strcmp as bs else sint a - sint b)"

function fs_strcpy_loop :: "nat \<Rightarrow> bytes \<Rightarrow> bytes \<Rightarrow> nat \<Rightarrow> bytes" where
  "fs_strcpy_loop i dst src limit =
     (if i < limit - 1 \<and> i < length src \<and> src ! i \<noteq> 0
      then fs_strcpy_loop (i + 1) (dst[i := src ! i]) src limit
      else dst[i := 0])"
  by pat_completeness auto
termination
  by (relation "measure (\<lambda>(i, dst, src, limit). limit - i)") auto

declare fs_strcpy_loop.simps [simp del]

definition fs_strcpy :: "bytes \<Rightarrow> bytes \<Rightarrow> nat \<Rightarrow> bytes" where
  "fs_strcpy dst src limit = fs_strcpy_loop 0 dst src limit"

text \<open>The string at the start of an inode in memory: up to the first zero byte.\<close>

definition name_str :: "inode_t \<Rightarrow> bytes" where
  "name_str inode = takeWhile (\<lambda>c. c \<noteq> 0) (inode_bytes inode)"

subsection \<open>Inode and block search\<close>

function inode_find_loop :: "bytes \<Rightarrow> disk \<Rightarrow> nat \<Rightarrow> int" where
  "inode_find_loop name d i =
     (if i < MAX_FILES
      then let inode = inode_read i d
           in if inode_used inode \<noteq> 0 \<and> fs_strcmp (name_str inode) name = 0 then int i
              else inode_find_loop name d (i + 1)
      else -1)"
  by pat_completeness auto
termination
  by (relation "measure (\<lambda>(name, d, i). MAX_FILES - i)") auto

definition inode_find :: "bytes \<Rightarrow> disk \<Rightarrow> int" where
  "inode_find name d = inode_find_loop name d 0"

function inode_alloc_loop :: "disk \<Rightarrow> nat \<Rightarrow> int" where
  "inode_alloc_loop d i =
     (if i < MAX_FILES
      then if inode_used (inode_read i d) = 0 then int i else inode_alloc_loop d (i + 1)
      else -1)"
  by pat_completeness auto
termination
  by (relation "measure (\<lambda>(d, i). MAX_FILES - i)") auto

definition inode_alloc :: "disk \<Rightarrow> int" where
  "inode_alloc d = inode_alloc_loop d 0"

fun mark_blocks :: "u32 list \<Rightarrow> bytes \<Rightarrow> bytes option" where
  "mark_blocks [] used = Some used"
| "mark_blocks (b # bs) used =
     (if b = 0 then mark_blocks bs used
      else let k = unat (b - DATA_START_SECTOR)
           in if k < length used then mark_blocks bs (used[k := 1]) else None)"

function mark_inodes :: "nat \<Rightarrow> disk \<Rightarrow> bytes \<Rightarrow> bytes option" where
  "mark_inodes i d used =
     (if i < MAX_FILES
      then let inode = inode_read i d
           in do { used \<leftarrow> (if inode_used inode \<noteq> 0 then mark_blocks (inode_blocks inode) used
                            else Some used);
                   mark_inodes (i + 1) d used }
      else Some used)"
  by pat_completeness auto
termination
  by (relation "measure (\<lambda>(i, d, used). MAX_FILES - i)") auto

text \<open>The scan for the first unmarked block; the inner \<open>None\<close> is the end of the loop.\<close>

function block_scan :: "bytes \<Rightarrow> u32 \<Rightarrow> u32 \<Rightarrow> u32 option option" where
  "block_scan used tot i =
     (if i < tot
      then if unat i < length used
           then if used ! unat i = 0 then Some (Some i) else block_scan used tot (i + 1)
           else None
      else Some None)"
  by pat_completeness auto
termination
  by (relation "measure (\<lambda>(used, tot, i). unat tot - unat i)") (auto simp: word_less_nat_alt)

declare inode_find_loop.simps [simp del] inode_alloc_loop.simps [simp del]
  mark_inodes.simps [simp del] block_scan.simps [simp del]

definition block_alloc :: "fs \<Rightarrow> (fs \<times> u32) option" where
  "block_alloc f =
     (let sb = superblock f
      in if free_blocks sb = 0 then Some (f, 0)
         else do { used \<leftarrow> mark_inodes 0 (disk f) (replicate 1024 0);
                   r \<leftarrow> block_scan used (total_blocks sb) 0;
                   Some (case r of None \<Rightarrow> (f, 0)
                     | Some i \<Rightarrow> (f\<lparr>superblock := sb\<lparr>free_blocks := free_blocks sb - 1\<rparr>\<rparr>,
                                 DATA_START_SECTOR + i)) })"

subsection \<open>Public operations\<close>

text \<open>The superblock sector: the structure in a zeroed buffer.\<close>

definition superblock_flush :: "fs \<Rightarrow> fs" where
  "superblock_flush f = f\<lparr>disk := write_sector SUPERBLOCK_SECTOR
     (copy_to 0 (superblock_bytes (superblock f)) 24 (replicate 512 0)) (disk f)\<rparr>"

definition fs_init :: "fs \<Rightarrow> fs \<times> msg list" where
  "fs_init f =
     (let f = f\<lparr>superblock := superblock_of (take 24 (read_sector SUPERBLOCK_SECTOR (disk f)))\<rparr>
      in if magic (superblock f) \<noteq> FS_MAGIC
         then let f = superblock_flush (f\<lparr>superblock := \<lparr>magic = FS_MAGIC, version = 1,
                        total_blocks = 1024, inode_start = INODE_START_SECTOR,
                        data_start = DATA_START_SECTOR, free_blocks = 1024\<rparr>\<rparr>);
                  f = f\<lparr>disk := fold (\<lambda>i. write_sector (INODE_START_SECTOR + of_nat i) (replicate 512 0))
                        [0..<32] (disk f)\<rparr>
              in (f, [(''FS: no AshFS found, formatting...'' @ nl, []),
                      (''FS: AshFS formatted successfully'' @ nl, [])])
         else (f, [(''FS: AshFS found, version %d, %d free blocks'' @ nl,
                    [KInt (version (superblock f)), KInt (free_blocks (superblock f))])]))"

definition not_found :: "bytes \<Rightarrow> msg" where
  "not_found name = (''FS: file '' @ [CHR 0x27] @ ''%s'' @ [CHR 0x27] @ '' not found'' @ nl, [KStr (Some name)])"

definition fs_create :: "bytes \<Rightarrow> fs \<Rightarrow> fs \<times> int \<times> msg list" where
  "fs_create name f =
     (if 0 \<le> inode_find name (disk f)
      then (f, -1, [(''FS: file '' @ [CHR 0x27] @ ''%s'' @ [CHR 0x27] @ '' already exists'' @ nl,
                     [KStr (Some name)])])
      else let index = inode_alloc (disk f)
           in if index < 0 then (f, -1, [(''FS: no free inodes'' @ nl, [])])
              else let inode = inode_of (replicate 200 0);
                       inode = inode\<lparr>inode_name := fs_strcpy (inode_name inode) name MAX_FILENAME\<rparr>;
                       inode = inode\<lparr>inode_size := 0, inode_used := 1\<rparr>
                   in (f\<lparr>disk := inode_write (nat index) inode (disk f)\<rparr>, 0,
                       [(''FS: created '' @ [CHR 0x27] @ ''%s'' @ [CHR 0x27] @ nl, [KStr (Some name)])]))"

function fs_write_loop ::
    "bytes \<Rightarrow> u32 \<Rightarrow> u32 \<Rightarrow> u32 \<Rightarrow> u32 \<Rightarrow> inode_t \<Rightarrow> fs \<Rightarrow> (fs \<times> inode_t \<times> bool) option" where
  "fs_write_loop data sz blocks_needed i written inode f =
     (if i < blocks_needed
      then do { (f, block) \<leftarrow> block_alloc f;
                if block = 0 then Some (f, inode, False)
                else let inode = inode\<lparr>inode_blocks := (inode_blocks inode)[unat i := block]\<rparr>;
                         to_write = (if sz - written > FS_BLOCK_SIZE then FS_BLOCK_SIZE else sz - written)
                     in if unat written + unat to_write \<le> length data
                        then let buf = copy_to 0 (drop (unat written) data) (unat to_write) (replicate 512 0)
                             in fs_write_loop data sz blocks_needed (i + 1) (written + to_write) inode
                                  (f\<lparr>disk := write_sector block buf (disk f)\<rparr>)
                        else None }
      else Some (f, inode, True))"
  by pat_completeness auto
termination
  by (relation "measure (\<lambda>(data, sz, n, i, written, inode, f). unat n - unat i)")
    (auto simp: word_less_nat_alt)

definition fs_write :: "bytes \<Rightarrow> bytes \<Rightarrow> u32 \<Rightarrow> fs \<Rightarrow> (fs \<times> int \<times> msg list) option" where
  "fs_write name data sz f =
     (let index = inode_find name (disk f)
      in if index < 0 then Some (f, -1, [not_found name])
         else let inode = inode_read (nat index) (disk f);
                  blocks_needed = (sz + FS_BLOCK_SIZE - 1) div FS_BLOCK_SIZE
              in if of_nat MAX_FILE_BLOCKS < blocks_needed
                 then Some (f, -1, [(''FS: file too large'' @ nl, [])])
                 else do { (f, inode, ok) \<leftarrow> fs_write_loop data sz blocks_needed 0 0 inode f;
                           if \<not> ok then Some (f, -1, [(''FS: disk full'' @ nl, [])])
                           else let inode = inode\<lparr>inode_size := sz\<rparr>;
                                    f = f\<lparr>disk := inode_write (nat index) inode (disk f)\<rparr>;
                                    f = superblock_flush f
                                in Some (f, 0, [(''FS: wrote %d bytes to '' @ [CHR 0x27] @ ''%s'' @ [CHR 0x27] @ nl,
                                                 [KInt sz, KStr (Some name)])]) })"

function fs_read_loop :: "inode_t \<Rightarrow> disk \<Rightarrow> u32 \<Rightarrow> nat \<Rightarrow> u32 \<Rightarrow> bytes \<Rightarrow> (bytes \<times> u32) option" where
  "fs_read_loop inode d to_read i rd buf =
     (if i < MAX_FILE_BLOCKS \<and> rd < to_read
      then let b = inode_blocks inode ! i
           in if b = 0 then Some (buf, rd)
              else let chunk = (if to_read - rd > FS_BLOCK_SIZE then FS_BLOCK_SIZE else to_read - rd)
                   in if unat rd + unat chunk \<le> length buf
                      then fs_read_loop inode d to_read (i + 1) (rd + chunk)
                             (copy_to (unat rd) (read_sector b d) (unat chunk) buf)
                      else None
      else Some (buf, rd))"
  by pat_completeness auto
termination
  by (relation "measure (\<lambda>(inode, d, to_read, i, rd, buf). MAX_FILE_BLOCKS - i)") auto

declare fs_write_loop.simps [simp del] fs_read_loop.simps [simp del]

definition fs_read :: "bytes \<Rightarrow> bytes \<Rightarrow> u32 \<Rightarrow> fs \<Rightarrow> (bytes \<times> int \<times> msg list) option" where
  "fs_read name buf sz f =
     (let index = inode_find name (disk f)
      in if index < 0 then Some (buf, -1, [not_found name])
         else let inode = inode_read (nat index) (disk f);
                  to_read = (if sz < inode_size inode then sz else inode_size inode)
              in do { (buf, rd) \<leftarrow> fs_read_loop inode (disk f) to_read 0 0 buf;
                      Some (buf, sint rd, []) })"

fun release_blocks :: "u32 list \<Rightarrow> u32 \<Rightarrow> u32 list \<times> u32" where
  "release_blocks [] free = ([], free)"
| "release_blocks (b # bs) free =
     (if b \<noteq> 0 then let (cs, free) = release_blocks bs (free + 1) in (0 # cs, free)
      else let (cs, free) = release_blocks bs free in (b # cs, free))"

definition fs_delete :: "bytes \<Rightarrow> fs \<Rightarrow> fs \<times> int \<times> msg list" where
  "fs_delete name f =
     (let index = inode_find name (disk f)
      in if index < 0 then (f, -1, [not_found name])
         else let inode = inode_read (nat index) (disk f);
                  (blocks, free) = release_blocks (inode_blocks inode) (free_blocks (superblock f));
                  f = f\<lparr>superblock := (superblock f)\<lparr>free_blocks := free\<rparr>\<rparr>;
                  inode = inode\<lparr>inode_blocks := blocks, inode_used := 0\<rparr>;
                  f = f\<lparr>disk := inode_write (nat index) inode (disk f)\<rparr>;
                  f = superblock_flush f
              in (f, 0, [(''FS: deleted '' @ [CHR 0x27] @ ''%s'' @ [CHR 0x27] @ nl, [KStr (Some name)])]))"

definition list_entry :: "disk \<Rightarrow> nat \<Rightarrow> msg list" where
  "list_entry d i =
     (let inode = inode_read i d
      in if inode_used inode \<noteq> 0
         then [(''  %s (%d bytes)'' @ nl, [KStr (Some (name_str inode)), KInt (inode_size inode)])]
         else [])"

definition fs_list :: "fs \<Rightarrow> msg list" where
  "fs_list f =
     (let entries = concat (map (list_entry (disk f)) [0..<MAX_FILES])
      in [(nl @ ''Files on AshFS:'' @ nl, []),
          (''Name                             Size'' @ nl, []),
          (''----                             ----'' @ nl, [])] @
         entries @ (if entries = [] then [(''(no files)'' @ nl, [])] else []))"


subsection \<open>Names\<close>

lemma fs_strcmp_eq:
  assumes "0 \<notin> set a" "0 \<notin> set b"
  shows "fs_strcmp a b = 0 \<longleftrightarrow> a = b"
  using assms
proof (induction a b rule: fs_strcmp.induct)
  case (4 a as b bs)
  then show ?case by (auto dest: signed_word_eqI)
qed (auto simp: signed_eq_0_iff)

lemma fs_strcpy_loop_spec:
  assumes "0 \<notin> set src" "i \<le> length src" "i \<le> limit - 1" "limit \<le> length dst" "0 < limit"
  shows "fs_strcpy_loop i dst src limit =
    take i dst @ drop i (take (limit - 1) src) @ 0 # drop (min (limit - 1) (length src) + 1) dst"
  using assms
proof (induction i dst src limit rule: fs_strcpy_loop.induct)
  case (1 i dst src limit)
  have nz: "src ! i \<noteq> 0" if "i < length src" using that 1(2) by (metis nth_mem)
  show ?case
  proof (cases "i < limit - 1 \<and> i < length src")
    case True
    have "i < length dst" using True 1(5) by linarith
    then have "take (i + 1) (dst[i := src ! i]) = take i dst @ [src ! i]"
      by (simp add: take_Suc_conv_app_nth)
    moreover have "drop i (take (limit - 1) src) = src ! i # drop (i + 1) (take (limit - 1) src)"
      using True by (simp add: Cons_nth_drop_Suc [symmetric])
    ultimately show ?thesis using True 1 nz by (subst fs_strcpy_loop.simps) simp
  next
    case False
    then have "i = min (limit - 1) (length src)" using 1 by auto
    then show ?thesis using False 1(2-6) by (subst fs_strcpy_loop.simps) (auto simp: upd_conv_take_nth_drop)
  qed
qed

lemma fs_strcpy_spec:
  assumes "0 \<notin> set src" "length src < limit" "limit \<le> length dst"
  shows "fs_strcpy dst src limit = src @ 0 # drop (length src + 1) dst"
proof -
  have "min (limit - 1) (length src) = length src" using assms(2) by simp
  then show ?thesis using fs_strcpy_loop_spec [of src 0 limit dst] assms by (simp add: fs_strcpy_def)
qed

lemma name_str_array: "0 \<in> set (inode_name x) \<Longrightarrow> name_str x = takeWhile (\<lambda>c. c \<noteq> 0) (inode_name x)"
  by (simp add: name_str_def inode_bytes_def takeWhile_append1)

lemma name_str_no_zero: "0 \<notin> set (name_str x)"
  by (auto simp: name_str_def dest: set_takeWhileD)

subsection \<open>The inode table as a set of named files\<close>

definition used_at :: "disk \<Rightarrow> nat \<Rightarrow> bool" where
  "used_at d i \<longleftrightarrow> inode_used (inode_read i d) \<noteq> 0"

definition named :: "bytes \<Rightarrow> disk \<Rightarrow> nat \<Rightarrow> bool" where
  "named name d i \<longleftrightarrow> i < 32 \<and> used_at d i \<and> name_str (inode_read i d) = name"

lemma inode_find_loop_spec:
  assumes "0 \<notin> set name" "i \<le> 32" "\<forall>j < i. \<not> named name d j"
  shows "(inode_find_loop name d i = -1 \<and> (\<forall>j. \<not> named name d j)) \<or>
    (\<exists>k. inode_find_loop name d i = int k \<and> named name d k \<and> (\<forall>j < k. \<not> named name d j))"
  using assms
proof (induction name d i rule: inode_find_loop.induct)
  case (1 name d i)
  have match: "(inode_used (inode_read i d) \<noteq> 0 \<and> fs_strcmp (name_str (inode_read i d)) name = 0) = named name d i"
    if "i < 32" using that 1(2) fs_strcmp_eq [OF name_str_no_zero] by (simp add: named_def used_at_def)
  show ?case
  proof (cases "i < 32 \<and> \<not> named name d i")
    case True
    then have "inode_find_loop name d i = inode_find_loop name d (i + 1)"
      using match by (subst inode_find_loop.simps) (auto simp: Let_def MAX_FILES_def)
    moreover have "\<forall>j < i + 1. \<not> named name d j" using True 1(4) less_Suc_eq by auto
    ultimately show ?thesis using 1(1) [OF _ refl] True 1(2) match by (auto simp: MAX_FILES_def)
  next
    case False
    then show ?thesis
    proof (cases "i < 32")
      case True
      then show ?thesis using False match 1(4) by (subst (1 2) inode_find_loop.simps) (auto simp: MAX_FILES_def Let_def)
    next
      case F: False
      then show ?thesis using 1(3,4) by (subst inode_find_loop.simps) (auto simp: MAX_FILES_def named_def)
    qed
  qed
qed

lemma inode_find_cases:
  assumes "0 \<notin> set name"
  obtains (missing) "inode_find name d = -1" "\<And>j. \<not> named name d j"
  | (found) k where "inode_find name d = int k" "named name d k" "\<And>j. j < k \<Longrightarrow> \<not> named name d j"
  using inode_find_loop_spec [of name 0 d] assms unfolding inode_find_def by auto

lemma inode_alloc_loop_spec:
  assumes "i \<le> 32" "\<forall>j < i. used_at d j"
  shows "(inode_alloc_loop d i = -1 \<and> (\<forall>j < 32. used_at d j)) \<or>
    (\<exists>k < 32. inode_alloc_loop d i = int k \<and> \<not> used_at d k \<and> (\<forall>j < k. used_at d j))"
  using assms
proof (induction d i rule: inode_alloc_loop.induct)
  case (1 d i)
  show ?case
  proof (cases "i < 32 \<and> used_at d i")
    case True
    then have "inode_alloc_loop d i = inode_alloc_loop d (i + 1)"
      by (subst inode_alloc_loop.simps) (auto simp: MAX_FILES_def used_at_def)
    then show ?thesis using 1 True by (auto simp: MAX_FILES_def used_at_def less_Suc_eq)
  next
    case False
    then show ?thesis using 1(2,3)
      by (subst (1 2) inode_alloc_loop.simps) (auto simp: MAX_FILES_def used_at_def le_eq_less_or_eq)
  qed
qed

lemma inode_alloc_cases:
  obtains (full) "inode_alloc d = -1" "\<And>j. j < 32 \<Longrightarrow> used_at d j"
  | (free) k where "inode_alloc d = int k" "k < 32" "\<not> used_at d k" "\<And>j. j < k \<Longrightarrow> used_at d j"
  using inode_alloc_loop_spec [of 0 d] unfolding inode_alloc_def by auto


text \<open>The contents of a file: its leading blocks, cut to its size.\<close>

definition lead_blocks :: "inode_t \<Rightarrow> u32 list" where
  "lead_blocks x = takeWhile (\<lambda>b. b \<noteq> 0) (inode_blocks x)"

definition content :: "disk \<Rightarrow> inode_t \<Rightarrow> bytes" where
  "content d x = take (unat (inode_size x)) (concat (map d (lead_blocks x)))"

definition files :: "disk \<Rightarrow> bytes \<Rightarrow> bytes option" where
  "files d name = (if 0 \<in> set name \<or> inode_find name d < 0 then None
     else Some (content d (inode_read (nat (inode_find name d)) d)))"

definition block_ok :: "u32 \<Rightarrow> bool" where
  "block_ok b \<longleftrightarrow> b = 0 \<or> (33 \<le> unat b \<and> unat b < 1057)"

definition inode_inv :: "inode_t \<Rightarrow> bool" where
  "inode_inv x \<longleftrightarrow> inode_ok x \<and> 0 \<in> set (inode_name x) \<and> (\<forall>b \<in> set (inode_blocks x). block_ok b) \<and>
     unat (inode_size x) \<le> 512 * length (lead_blocks x)"

definition table_inv :: "disk \<Rightarrow> bool" where
  "table_inv d \<longleftrightarrow> disk_ok d \<and>
     (\<forall>i < 32. used_at d i \<longrightarrow> inode_inv (inode_read i d)) \<and>
     (\<forall>i < 32. \<forall>j < 32. i \<noteq> j \<longrightarrow> used_at d i \<longrightarrow> used_at d j \<longrightarrow>
        name_str (inode_read i d) \<noteq> name_str (inode_read j d) \<and>
        set (inode_blocks (inode_read i d)) \<inter> set (inode_blocks (inode_read j d)) \<subseteq> {0})"

definition fs_inv :: "fs \<Rightarrow> bool" where
  "fs_inv f \<longleftrightarrow> table_inv (disk f) \<and> unat (total_blocks (superblock f)) \<le> 1024"

lemma option_ext: "(\<And>c. a = Some c \<longleftrightarrow> b = Some c) \<Longrightarrow> a = b"
  by (cases a; cases b) auto

lemma named_unique: "table_inv d \<Longrightarrow> named n d i \<Longrightarrow> named n d j \<Longrightarrow> i = j"
  unfolding table_inv_def named_def by blast

lemma named_no_zero: "named n d i \<Longrightarrow> 0 \<notin> set n"
  using name_str_no_zero by (auto simp: named_def)

lemma inode_find_named:
  assumes "table_inv d" "named n d i"
  shows "inode_find n d = int i"
  by (cases rule: inode_find_cases [OF named_no_zero [OF assms(2)], of d]) (use assms named_unique in auto)

lemma files_iff:
  assumes "table_inv d"
  shows "files d n = Some c \<longleftrightarrow> (\<exists>i. named n d i \<and> c = content d (inode_read i d))"
proof (cases "0 \<in> set n")
  case True
  then show ?thesis using named_no_zero by (auto simp: files_def)
next
  case False
  then show ?thesis
    by (cases rule: inode_find_cases [OF False, of d])
      (use assms False inode_find_named [OF assms] in \<open>auto simp: files_def dest: named_unique\<close>)
qed

lemma files_None_iff:
  assumes "table_inv d"
  shows "files d n = None \<longleftrightarrow> (\<forall>j. \<not> named n d j)"
  using files_iff [OF assms, of n] by (metis not_None_eq)

lemma inode_find_missing:
  assumes "table_inv d" "0 \<notin> set n" "files d n = None"
  shows "inode_find n d = -1"
  by (cases rule: inode_find_cases [OF assms(2), of d]) (use assms files_None_iff in auto)

text \<open>One inode changes, the other files keep their inode and their contents.\<close>

definition table_step :: "nat \<Rightarrow> inode_t \<Rightarrow> disk \<Rightarrow> disk \<Rightarrow> bool" where
  "table_step i x d d' \<longleftrightarrow> i < 32 \<and> disk_ok d' \<and> inode_read i d' = x \<and>
     (\<forall>j < 32. j \<noteq> i \<longrightarrow> inode_read j d' = inode_read j d \<and>
        (used_at d j \<longrightarrow> content d' (inode_read j d) = content d (inode_read j d)))"

lemma table_step_used: "table_step i x d d' \<Longrightarrow> j < 32 \<Longrightarrow> used_at d' j = (if j = i then inode_used x \<noteq> 0 else used_at d j)"
  by (simp add: table_step_def used_at_def)

lemma table_step_named:
  "table_step i x d d' \<Longrightarrow> named n d' j \<longleftrightarrow> (if j = i then inode_used x \<noteq> 0 \<and> name_str x = n else named n d j)"
  by (auto simp: table_step_def used_at_def named_def)

lemma table_step_content:
  assumes "table_step i x d d'" "named n d j" "j \<noteq> i"
  shows "content d' (inode_read j d') = content d (inode_read j d)"
  using assms by (simp add: table_step_def named_def)

lemma table_inv_step:
  assumes "table_inv d" "table_step i x d d'"
    and "inode_used x \<noteq> 0 \<Longrightarrow> inode_inv x"
    and "\<And>j. inode_used x \<noteq> 0 \<Longrightarrow> j < 32 \<Longrightarrow> j \<noteq> i \<Longrightarrow> used_at d j \<Longrightarrow>
      name_str (inode_read j d) \<noteq> name_str x \<and> set (inode_blocks (inode_read j d)) \<inter> set (inode_blocks x) \<subseteq> {0}"
  shows "table_inv d'"
proof -
  have rd: "inode_read j d' = (if j = i then x else inode_read j d)" if "j < 32" for j
    using assms(2) that by (simp add: table_step_def)
  note us = table_step_used [OF assms(2)]
  have "inode_inv (inode_read j d')" if "j < 32" "used_at d' j" for j
    using that assms(1,3) us [of j] rd [of j] by (auto simp: table_inv_def split: if_splits)
  moreover have "name_str (inode_read j d') \<noteq> name_str (inode_read k d') \<and>
      set (inode_blocks (inode_read j d')) \<inter> set (inode_blocks (inode_read k d')) \<subseteq> {0}"
    if "j < 32" "k < 32" "j \<noteq> k" "used_at d' j" "used_at d' k" for j k
  proof (cases "j = i \<or> k = i")
    case False
    then show ?thesis
      using that assms(1) us [of j] us [of k] rd [of j] rd [of k] by (auto simp: table_inv_def)
  next
    case True
    then show ?thesis
      using that assms(4) [of j] assms(4) [of k] us [of j] us [of k] rd [of j] rd [of k]
      by (auto split: if_splits)
  qed
  ultimately show ?thesis using assms(2) unfolding table_inv_def table_step_def by blast
qed

lemma files_step_put:
  assumes "table_inv d" "table_inv d'" "table_step i x d d'" "inode_used x \<noteq> 0"
    and "used_at d i \<Longrightarrow> name_str (inode_read i d) = name_str x"
  shows "files d' = (files d)(name_str x \<mapsto> content d' x)"
proof
  fix n
  show "files d' n = ((files d)(name_str x \<mapsto> content d' x)) n"
  proof (cases "n = name_str x")
    case True
    then have "named n d' i" using assms(3,4) by (auto simp: named_def table_step_def used_at_def)
    then have "files d' n = Some (content d' (inode_read i d'))" using files_iff [OF assms(2)] by blast
    then show ?thesis using True assms(3) by (simp add: table_step_def)
  next
    case False
    have "files d' n = Some c \<longleftrightarrow> files d n = Some c" for c
    proof -
      have "named n d' j \<and> c = content d' (inode_read j d') \<longleftrightarrow> named n d j \<and> c = content d (inode_read j d)" for j
      proof (cases "j = i")
        case True
        then have "\<not> named n d j" "\<not> named n d' j"
          using False assms(5) table_step_named [OF assms(3), of n j] by (auto simp: named_def)
        then show ?thesis by blast
      next
        case j: False
        then show ?thesis
          using table_step_named [OF assms(3), of n j] table_step_content [OF assms(3) _ j] by auto
      qed
      then show ?thesis using files_iff [OF assms(1)] files_iff [OF assms(2)] by simp
    qed
    then have "files d' n = files d n" by (rule option_ext)
    then show ?thesis using False by simp
  qed
qed

lemma files_step_del:
  assumes "table_inv d" "table_inv d'" "table_step i x d d'" "inode_used x = 0" "named n0 d i"
  shows "files d' = (files d)(n0 := None)"
proof
  fix n
  have *: "named n d' j \<and> c = content d' (inode_read j d') \<longleftrightarrow> n \<noteq> n0 \<and> named n d j \<and> c = content d (inode_read j d)" for j c
  proof (cases "j = i")
    case True
    then have "\<not> named n d' j" using assms(4) table_step_named [OF assms(3), of n j] by simp
    moreover have "n = n0" if "named n d j" using that True assms(5) by (simp add: named_def)
    ultimately show ?thesis by blast
  next
    case False
    then have "n \<noteq> n0" if "named n d j" using that named_unique [OF assms(1,5), of j] by blast
    then show ?thesis
      using False table_step_named [OF assms(3), of n j] table_step_content [OF assms(3) _ False] by auto
  qed
  then have "files d' n = Some c \<longleftrightarrow> ((files d)(n0 := None)) n = Some c" for c
    using files_iff [OF assms(1)] files_iff [OF assms(2)] by auto
  then show "files d' n = ((files d)(n0 := None)) n" by (rule option_ext)
qed

text \<open>Storing an inode and the superblock, after changes to data blocks of no other file.\<close>

lemma content_cong:
  assumes "\<forall>b \<in> set (inode_blocks x). b \<noteq> 0 \<longrightarrow> d' b = d b"
  shows "content d' x = content d x"
proof -
  have "map d' (lead_blocks x) = map d (lead_blocks x)"
    using assms by (auto simp: lead_blocks_def dest: set_takeWhileD)
  then show ?thesis by (simp only: content_def)
qed

lemma unat_block_ok: "block_ok b \<Longrightarrow> b \<noteq> 0 \<Longrightarrow> 33 \<le> unat b \<and> unat b < 1057"
  by (simp add: block_ok_def)

lemma table_step_write:
  assumes "table_inv d" "disk_ok d1" "inode_ok x" "i < 32" "length sbuf = 512"
    and "\<And>j. j < 32 \<Longrightarrow> slot d1 j = slot d j"
    and "\<And>j b. j < 32 \<Longrightarrow> j \<noteq> i \<Longrightarrow> used_at d j \<Longrightarrow> b \<in> set (inode_blocks (inode_read j d)) \<Longrightarrow> b \<noteq> 0 \<Longrightarrow> d1 b = d b"
  shows "table_step i x d ((inode_write i x d1)(0 := sbuf))" "table_step i x d (inode_write i x d1)"
proof -
  let ?w = "inode_write i x d1" and ?d = "(inode_write i x d1)(0 := sbuf)"
  have ok: "disk_ok ?w" "disk_ok ?d" using disk_ok_inode_write assms(2-5) by simp_all
  have rd: "inode_read j ?w = (if j = i then x else inode_read j d)" if "j < 32" for j
    using inode_write_read [OF assms(2,3,4) that] inode_read_slot [OF that] assms(6) [OF that] by simp
  have rd0: "inode_read j ?d = inode_read j ?w" if "j < 32" for j
    using that by (simp add: inode_read_slot slot_write_other)
  have "?d b = d b \<and> ?w b = d b" if "j < 32" "j \<noteq> i" "used_at d j" "b \<in> set (inode_blocks (inode_read j d))" "b \<noteq> 0" for j b
  proof -
    have "block_ok b" using assms(1) that by (auto simp: table_inv_def inode_inv_def)
    then have "33 \<le> unat b" using unat_block_ok that(5) by blast
    then show ?thesis using inode_write_other [OF assms(4), of b] assms(7) that by simp
  qed
  then have "content ?d (inode_read j d) = content d (inode_read j d)"
    "content ?w (inode_read j d) = content d (inode_read j d)" if "j < 32" "j \<noteq> i" "used_at d j" for j
    using that by (auto intro!: content_cong)
  then show "table_step i x d ?d" "table_step i x d ?w"
    using assms(4) ok rd rd0 by (auto simp: table_step_def)
qed

abbreviation with_super :: "superblock_t \<Rightarrow> disk \<Rightarrow> disk" where
  "with_super sb d \<equiv> d(0 := superblock_bytes sb @ replicate 488 0)"

text \<open>
  A file is stored: data blocks that no file has may change, then its inode and the superblock are
  written. The inode's name and blocks are its own.
\<close>

lemma table_put:
  assumes T: "table_inv d" and i: "i < 32" and d1: "disk_ok d1" "\<And>j. j < 32 \<Longrightarrow> slot d1 j = slot d j"
      "\<And>j b. j < 32 \<Longrightarrow> used_at d j \<Longrightarrow> b \<in> set (inode_blocks (inode_read j d)) \<Longrightarrow> b \<noteq> 0 \<Longrightarrow> d1 b = d b"
    and x: "inode_inv x" "inode_used x \<noteq> 0" "used_at d i \<Longrightarrow> name_str (inode_read i d) = name_str x"
      "\<And>j. j < 32 \<Longrightarrow> j \<noteq> i \<Longrightarrow> used_at d j \<Longrightarrow>
         name_str (inode_read j d) \<noteq> name_str x \<and> set (inode_blocks (inode_read j d)) \<inter> set (inode_blocks x) \<subseteq> {0}"
  shows "table_inv (with_super sb (inode_write i x d1))" "inode_read i (with_super sb (inode_write i x d1)) = x"
    "files (with_super sb (inode_write i x d1)) = (files d)(name_str x \<mapsto> content (with_super sb (inode_write i x d1)) x)"
proof -
  let ?d = "with_super sb (inode_write i x d1)"
  have step: "table_step i x d ?d"
    by (rule table_step_write(1) [OF T d1(1) _ i _ d1(2,3)]) (use x(1) in \<open>simp_all add: inode_inv_def\<close>)
  show T': "table_inv ?d" by (rule table_inv_step [OF T step x(1,4)])
  show "inode_read i ?d = x" using step by (simp add: table_step_def)
  show "files ?d = (files d)(name_str x \<mapsto> content ?d x)" by (rule files_step_put [OF T T' step x(2,3)])
qed

subsection \<open>Block allocation\<close>

definition taken :: "disk \<Rightarrow> nat \<Rightarrow> bool" where
  "taken d k \<longleftrightarrow> (\<exists>i < 32. used_at d i \<and> (\<exists>b \<in> set (inode_blocks (inode_read i d)). unat b = 33 + k))"

lemma mark_blocks_spec:
  assumes "\<forall>b \<in> set bs. block_ok b" "length used = 1024"
  shows "\<exists>u. mark_blocks bs used = Some u \<and> length u = 1024 \<and>
    (\<forall>k < 1024. u ! k \<noteq> 0 \<longleftrightarrow> used ! k \<noteq> 0 \<or> (\<exists>b \<in> set bs. unat b = 33 + k))"
  using assms
proof (induction bs arbitrary: used)
  case (Cons b bs)
  show ?case
  proof (cases "b = 0")
    case False
    then have b: "33 \<le> unat b" "unat b < 1057" using Cons.prems by (auto simp: block_ok_def)
    then have k: "unat (b - DATA_START_SECTOR) = unat b - 33"
      by (simp add: DATA_START_SECTOR_def unat_sub_u32)
    let ?u = "used[unat b - 33 := 1]"
    obtain u where "mark_blocks bs ?u = Some u" "length u = 1024"
      "\<forall>k < 1024. u ! k \<noteq> 0 \<longleftrightarrow> ?u ! k \<noteq> 0 \<or> (\<exists>b \<in> set bs. unat b = 33 + k)"
      using Cons.IH [of ?u] Cons.prems by auto
    moreover have "(unat b - 33 = k) = (unat b = 33 + k)" for k using b(1) by auto
    ultimately show ?thesis
      using False b k Cons.prems(2) by (intro exI [of _ u]) (auto simp: nth_list_update Let_def)
  qed (use Cons in auto)
qed auto

lemma mark_inodes_spec:
  assumes "\<forall>j < 32. used_at d j \<longrightarrow> (\<forall>b \<in> set (inode_blocks (inode_read j d)). block_ok b)" "length used = 1024"
  shows "\<exists>u. mark_inodes i d used = Some u \<and> length u = 1024 \<and>
    (\<forall>k < 1024. u ! k \<noteq> 0 \<longleftrightarrow> used ! k \<noteq> 0 \<or>
       (\<exists>j < 32. i \<le> j \<and> used_at d j \<and> (\<exists>b \<in> set (inode_blocks (inode_read j d)). unat b = 33 + k)))"
  using assms
proof (induction i d used rule: mark_inodes.induct)
  case (1 i d used)
  show ?case
  proof (cases "i < 32")
    case True
    let ?x = "inode_read i d"
    obtain u where u: "(if inode_used ?x \<noteq> 0 then mark_blocks (inode_blocks ?x) used else Some used) = Some u"
      "length u = 1024" "\<forall>k < 1024. u ! k \<noteq> 0 \<longleftrightarrow> used ! k \<noteq> 0 \<or>
         (used_at d i \<and> (\<exists>b \<in> set (inode_blocks ?x). unat b = 33 + k))"
    proof (cases "used_at d i")
      case T: True
      then show ?thesis
        using that mark_blocks_spec [of "inode_blocks ?x" used] 1(2,3) True by (auto simp: used_at_def)
    qed (use that [of used] 1(3) in \<open>auto simp: used_at_def\<close>)
    obtain v where v: "mark_inodes (i + 1) d u = Some v" "length v = 1024" "\<forall>k < 1024. v ! k \<noteq> 0 \<longleftrightarrow> u ! k \<noteq> 0 \<or>
       (\<exists>j < 32. i + 1 \<le> j \<and> used_at d j \<and> (\<exists>b \<in> set (inode_blocks (inode_read j d)). unat b = 33 + k))"
      using 1(1) [OF _ refl u(1) 1(2) u(2)] True by (auto simp: MAX_FILES_def)
    have "mark_inodes i d used = Some v"
      using True u(1) v(1) by (subst mark_inodes.simps) (simp add: MAX_FILES_def Let_def)
    moreover have "(i \<le> j) = (j = i \<or> i + 1 \<le> j)" for j by auto
    ultimately show ?thesis using u(3) v(2,3) True by auto
  qed (use 1(3) in \<open>auto simp: mark_inodes.simps [of i] MAX_FILES_def\<close>)
qed

lemma block_scan_spec:
  assumes "unat tot \<le> length used" "\<forall>k < unat i. used ! k \<noteq> 0"
  shows "(block_scan used tot i = Some None \<and> (\<forall>k < unat tot. used ! k \<noteq> 0)) \<or>
    (\<exists>k < unat tot. block_scan used tot i = Some (Some (of_nat k)) \<and> used ! k = 0 \<and> (\<forall>j < k. used ! j \<noteq> 0))"
  using assms
proof (induction used tot i rule: block_scan.induct)
  case (1 used tot i)
  show ?case
  proof (cases "i < tot \<and> used ! unat i \<noteq> 0")
    case True
    then have i: "unat i < unat tot" "unat (i + 1) = Suc (unat i)" by (auto simp: word_less_nat_alt)
    then have "block_scan used tot i = block_scan used tot (i + 1)"
      using True 1(2) by (subst block_scan.simps) simp
    then show ?thesis using 1(1) True 1(2,3) i by (auto simp: less_Suc_eq)
  next
    case False
    then show ?thesis
    proof (cases "i < tot")
      case T: True
      then have "unat i < unat tot" by (simp add: word_less_nat_alt)
      then show ?thesis using False T 1(2,3)
        by (intro disjI2 exI [of _ "unat i"]) (auto simp: block_scan.simps [of used tot i])
    next
      case F: False
      then show ?thesis using 1(3) by (intro disjI1) (auto simp: block_scan.simps [of used tot i] word_less_nat_alt)
    qed
  qed
qed

lemma block_alloc_spec:
  assumes "fs_inv f" "free_blocks (superblock f) \<noteq> 0"
  obtains (full) "block_alloc f = Some (f, 0)" "\<And>k. k < unat (total_blocks (superblock f)) \<Longrightarrow> taken (disk f) k"
  | (free) k where "k < unat (total_blocks (superblock f))" "\<not> taken (disk f) k" "\<And>j. j < k \<Longrightarrow> taken (disk f) j"
    "block_alloc f = Some (f\<lparr>superblock := (superblock f)\<lparr>free_blocks := free_blocks (superblock f) - 1\<rparr>\<rparr>, of_nat (33 + k))"
proof -
  let ?n = "unat (total_blocks (superblock f))"
  have n: "?n \<le> 1024" using assms(1) by (simp add: fs_inv_def)
  obtain u where u: "mark_inodes 0 (disk f) (replicate 1024 0) = Some u" "length u = 1024"
    "\<And>k. k < 1024 \<Longrightarrow> (u ! k \<noteq> 0) = taken (disk f) k"
    using mark_inodes_spec [of "disk f" "replicate 1024 0" 0] assms(1)
    by (auto simp: fs_inv_def table_inv_def inode_inv_def taken_def)
  consider "block_scan u (total_blocks (superblock f)) 0 = Some None" "\<forall>k < ?n. u ! k \<noteq> 0"
    | k where "k < ?n" "block_scan u (total_blocks (superblock f)) 0 = Some (Some (of_nat k))" "u ! k = 0" "\<forall>j < k. u ! j \<noteq> 0"
    using block_scan_spec [of "total_blocks (superblock f)" u 0] n u(2) by auto
  then show ?thesis
  proof cases
    case 1
    then show ?thesis using full u n assms(2) by (simp add: block_alloc_def)
  next
    case 2
    then have "\<not> taken (disk f) k" "\<forall>j < k. taken (disk f) j" using u(3) [of k] u(3) n by simp_all
    with 2 show ?thesis
      using free [of k] u(1) assms(2) by (simp add: block_alloc_def DATA_START_SECTOR_def Let_def)
  qed
qed


lemma block_alloc_first:
  assumes "fs_inv f" "free_blocks (superblock f) \<noteq> 0" "k < unat (total_blocks (superblock f))"
    and "\<not> taken (disk f) k" "\<And>j. j < k \<Longrightarrow> taken (disk f) j"
  shows "block_alloc f =
    Some (f\<lparr>superblock := (superblock f)\<lparr>free_blocks := free_blocks (superblock f) - 1\<rparr>\<rparr>, of_nat (33 + k))"
proof (cases rule: block_alloc_spec [OF assms(1,2)])
  case 1
  then show ?thesis using assms(3,4) by blast
next
  case (2 j)
  then have "j = k" using assms(4,5) by (metis nat_neq_iff)
  then show ?thesis using 2(4) by simp
qed

subsection \<open>Creating and deleting\<close>

lemma superblock_flush_disk:
  "disk (superblock_flush f) = (disk f)(0 := superblock_bytes (superblock f) @ replicate 488 0)"
  by (simp add: superblock_flush_def write_sector_def SUPERBLOCK_SECTOR_def copy_to_def)

lemma superblock_flush_sb [simp]: "superblock (superblock_flush f) = superblock f"
  by (simp add: superblock_flush_def)

lemma zero_inode:
  "inode_of (replicate 200 0) =
     \<lparr>inode_name = replicate 64 0, inode_size = 0, inode_blocks = replicate 32 0, inode_used = 0,
      inode_padding = replicate 3 0\<rparr>"
  by (auto simp: inode_of_def un32_zeros intro!: nth_equalityI)

definition new_inode :: "bytes \<Rightarrow> inode_t" where
  "new_inode name = \<lparr>inode_name = name @ 0 # replicate (63 - length name) 0, inode_size = 0,
     inode_blocks = replicate 32 0, inode_used = 1, inode_padding = replicate 3 0\<rparr>"

lemma new_inode_inv:
  assumes "0 \<notin> set name" "length name \<le> 63"
  shows "inode_inv (new_inode name)" "name_str (new_inode name) = name" "content d (new_inode name) = []"
    "inode_used (new_inode name) = 1" "set (inode_blocks (new_inode name)) = {0}"
proof -
  have "0 \<in> set (inode_name (new_inode name))" by (simp add: new_inode_def)
  then show "name_str (new_inode name) = name"
    using assms(1) by (simp add: name_str_array) (simp add: new_inode_def takeWhile_append)
  show "inode_inv (new_inode name)"
    using assms by (auto simp: new_inode_def inode_inv_def inode_ok_def block_ok_def)
qed (simp_all add: new_inode_def content_def)

definition created :: "bytes \<Rightarrow> msg list" where
  "created name = [(''FS: created '' @ [CHR 0x27] @ ''%s'' @ [CHR 0x27] @ nl, [KStr (Some name)])]"

lemma fs_create_new:
  assumes inv: "fs_inv f" and name: "0 \<notin> set name" "length name \<le> 63" "files (disk f) name = None"
    and free: "i < 32" "\<not> used_at (disk f) i"
  obtains f' k where "fs_create name f = (f', 0, created name)" "fs_inv f'" "superblock f' = superblock f"
    "files (disk f') = (files (disk f))(name \<mapsto> [])"
    "table_step k (new_inode name) (disk f) (disk f')" "\<And>j. j < k \<Longrightarrow> used_at (disk f) j"
proof -
  let ?d = "disk f"
  have T: "table_inv ?d" using inv by (simp add: fs_inv_def)
  obtain k where k: "inode_alloc ?d = int k" "k < 32" "\<not> used_at ?d k" "\<And>j. j < k \<Longrightarrow> used_at ?d j"
    by (cases rule: inode_alloc_cases [of ?d]) (use free in blast)+
  have copy: "fs_strcpy (replicate 64 0) name MAX_FILENAME = name @ 0 # replicate (63 - length name) 0"
    using fs_strcpy_spec [of name MAX_FILENAME "replicate 64 0"] name by (simp add: MAX_FILENAME_def)
  let ?d' = "inode_write k (new_inode name) ?d"
  have x: "inode_ok (new_inode name)" using new_inode_inv(1) [OF name(1,2)] by (simp add: inode_inv_def)
  have step: "table_step k (new_inode name) ?d ?d'"
    using T by (intro table_step_write(2) [where sbuf = "replicate 512 0"]) (auto simp: x k table_inv_def)
  have T': "table_inv ?d'"
    by (rule table_inv_step [OF T step])
      (use new_inode_inv [OF name(1,2)] files_None_iff [OF T, of name] name(3) in \<open>auto simp: named_def\<close>)
  have "files ?d' = (files ?d)(name \<mapsto> [])"
    using files_step_put [OF T T' step] new_inode_inv [OF name(1,2)] k(3) by simp
  moreover have "fs_create name f = (f\<lparr>disk := ?d'\<rparr>, 0, created name)"
    using inode_find_missing [OF T name(1,3)] k copy
    by (simp add: fs_create_def zero_inode new_inode_def created_def)
  ultimately show ?thesis using that [of "f\<lparr>disk := ?d'\<rparr>" k] T' inv step k(4) by (simp add: fs_inv_def)
qed

lemma release_blocks_spec:
  "release_blocks bs free = (replicate (length bs) 0, free + of_nat (length (filter (\<lambda>b. b \<noteq> 0) bs)))"
  by (induction bs arbitrary: free) auto

definition deleted :: "bytes \<Rightarrow> msg list" where
  "deleted name = [(''FS: deleted '' @ [CHR 0x27] @ ''%s'' @ [CHR 0x27] @ nl, [KStr (Some name)])]"

lemma fs_delete_named:
  assumes inv: "fs_inv f" and name: "named name (disk f) i"
  obtains f' where "fs_delete name f = (f', 0, deleted name)" "fs_inv f'"
    "files (disk f') = (files (disk f))(name := None)"
    "superblock f' = (superblock f)\<lparr>free_blocks := free_blocks (superblock f) +
       of_nat (length (filter (\<lambda>b. b \<noteq> 0) (inode_blocks (inode_read i (disk f)))))\<rparr>"
    "superblock_of (take 24 (read_sector 0 (disk f'))) = superblock f'"
proof -
  let ?d = "disk f" and ?y = "inode_read i (disk f)"
  have T: "table_inv ?d" using inv by (simp add: fs_inv_def)
  have i: "i < 32" using name by (simp add: named_def)
  let ?x = "?y\<lparr>inode_blocks := replicate (length (inode_blocks ?y)) 0, inode_used := 0\<rparr>"
  let ?sb = "(superblock f)\<lparr>free_blocks := free_blocks (superblock f) +
       of_nat (length (filter (\<lambda>b. b \<noteq> 0) (inode_blocks ?y)))\<rparr>"
  let ?sbuf = "superblock_bytes ?sb @ replicate 488 0"
  let ?d' = "(inode_write i ?x ?d)(0 := ?sbuf)"
  have x: "inode_ok ?x" using inode_ok_read [of ?d i] T i by (simp add: table_inv_def inode_ok_def)
  have step: "table_step i ?x ?d ?d'"
    using T by (intro table_step_write(1)) (auto simp: x i table_inv_def)
  have T': "table_inv ?d'" by (rule table_inv_step [OF T step]) simp_all
  have "files ?d' = (files ?d)(name := None)"
    using files_step_del [OF T T' step _ name] by simp
  moreover have "fs_delete name f = (\<lparr>superblock = ?sb, disk = ?d'\<rparr>, 0, deleted name)"
    using inode_find_named [OF T name]
    by (simp add: fs_delete_def Let_def release_blocks_spec superblock_flush_def write_sector_def
        SUPERBLOCK_SECTOR_def copy_to_def deleted_def)
  moreover have "superblock_of (take 24 (read_sector 0 ?d')) = ?sb"
    using superblock_of_bytes [of ?sb "[]"] by (simp add: read_sector_def)
  ultimately show ?thesis using that [of "\<lparr>superblock = ?sb, disk = ?d'\<rparr>"] T' inv by (simp add: fs_inv_def)
qed


subsection \<open>Reading\<close>

lemma concat_sectors:
  assumes "\<And>b. b \<in> set L \<Longrightarrow> length (d b) = 512"
  shows "length (concat (map d L)) = 512 * length L"
    "i < length L \<Longrightarrow> take 512 (drop (512 * i) (concat (map d L))) = d (L ! i)"
  using assms
proof (induction L arbitrary: i)
  case (Cons b L)
  { case 1 then show ?case using Cons.IH(1) by simp }
  { case 2 then show ?case using Cons.IH(2) by (cases i) (simp_all add: algebra_simps) }
qed auto

lemma read_sector_block: "block_ok b \<Longrightarrow> read_sector b d = d b"
  using low28 [of b] by (auto simp: read_sector_def block_ok_def)

lemma lead_blocks_nth:
  "i < length (lead_blocks x) \<Longrightarrow> inode_blocks x ! i = lead_blocks x ! i \<and> lead_blocks x ! i \<noteq> 0 \<and>
     lead_blocks x ! i \<in> set (inode_blocks x) \<and> i < length (inode_blocks x)"
  unfolding lead_blocks_def
  using takeWhile_nth [of i _ "inode_blocks x"] nth_mem [of i "takeWhile (\<lambda>b. b \<noteq> 0) (inode_blocks x)"]
    length_takeWhile_le [of "\<lambda>b. b \<noteq> 0" "inode_blocks x"]
  by (auto dest: set_takeWhileD)

text \<open>One chunk of a read: the buffer has the contents up to its end.\<close>

lemma chunk_copied:
  assumes "c = min 512 (t - r)" "r < t" "t \<le> length buf" "t \<le> length C" "blk = take 512 (drop r C)"
  shows "take (r + c) (copy_to r blk c buf) @ drop (r + c) (take t C) @ drop t (copy_to r blk c buf) = take r buf @ drop r (take t C) @ drop t buf"
proof -
  have l: "length (take c blk) = c" "r + c \<le> t" using assms by auto
  then have "take (r + c) (copy_to r blk c buf) = take r buf @ take c blk" "drop t (copy_to r blk c buf) = drop t buf"
    using assms(2,3) by (simp_all add: copy_to_def)
  moreover have "take c blk = take c (drop r (take t C))" using assms(1,5) by (simp add: drop_take)
  moreover have "drop (r + c) (take t C) = drop c (drop r (take t C))" unfolding drop_drop by (simp add: add.commute)
  moreover have "take c xs @ drop c xs @ ys = xs @ ys" for xs ys :: bytes by (simp flip: append_assoc)
  ultimately show ?thesis by (simp only: append_assoc)
qed

lemma fs_read_loop_spec:
  assumes "inode_inv x" "disk_ok d" "unat to_read \<le> 512 * length (lead_blocks x)" "unat to_read \<le> length buf"
    and "unat rd = min (512 * i) (unat to_read)"
  shows "fs_read_loop x d to_read i rd buf =
    Some (take (unat rd) buf @ drop (unat rd) (take (unat to_read) (concat (map d (lead_blocks x)))) @
          drop (unat to_read) buf, to_read)"
  using assms
proof (induction x d to_read i rd buf rule: fs_read_loop.induct)
  case (1 x d to_read i rd buf)
  let ?L = "lead_blocks x" and ?t = "unat to_read" and ?r = "unat rd"
  let ?C = "concat (map d ?L)"
  have C: "length ?C = 512 * length ?L" using 1(3) by (intro concat_sectors(1)) simp
  show ?case
  proof (cases "?r < ?t")
    case False
    then have "?r = ?t" using 1(6) by simp
    then have "rd = to_read" "\<not> rd < to_read" by (simp_all add: word_eq_unat word_less_nat_alt)
    then show ?thesis using C 1(4) by (subst fs_read_loop.simps) simp
  next
    case True
    then have r: "?r = 512 * i" "i < length ?L" using 1(4,6) by auto
    have b: "inode_blocks x ! i = ?L ! i" "?L ! i \<noteq> 0" "block_ok (?L ! i)" "i < 32"
      using lead_blocks_nth [OF r(2)] 1(2) by (auto simp: inode_inv_def inode_ok_def)
    define c where "c = (if to_read - rd > FS_BLOCK_SIZE then FS_BLOCK_SIZE else to_read - rd)"
    have "unat (to_read - rd) = ?t - ?r" using True by (intro unat_sub_u32) simp
    then have c: "unat c = min 512 (?t - ?r)" by (auto simp: c_def FS_BLOCK_SIZE_def word_less_nat_alt)
    have rc: "unat (rd + c) = ?r + unat c" using c True unat_u32_less [of to_read] by (intro unat_add_u32) linarith
    let ?buf = "copy_to ?r (d (?L ! i)) (unat c) buf"
    have a: "i < MAX_FILE_BLOCKS \<and> rd < to_read" using True b(4) by (simp add: MAX_FILE_BLOCKS_def word_less_nat_alt)
    have nz: "inode_blocks x ! i \<noteq> 0" using b by simp
    have fits: "?r + unat c \<le> length buf" using c True 1(5) by linarith
    have eq: "copy_to ?r (read_sector (inode_blocks x ! i) d) (unat c) buf = ?buf"
      using b read_sector_block [OF b(3), of d] by simp
    have step: "fs_read_loop x d to_read i rd buf = fs_read_loop x d to_read (i + 1) (rd + c) ?buf"
      unfolding fs_read_loop.simps [of x d to_read i rd buf] Let_def c_def [symmetric] using a nz fits eq by simp
    have pre: "unat (rd + c) = min (512 * (i + 1)) ?t" using rc c r True by auto
    have len: "length ?buf = length buf" using c True 1(3,5) by (simp add: copy_to_def)
    have rest: "fs_read_loop x d to_read (i + 1) (rd + c) ?buf =
        Some (take (unat (rd + c)) ?buf @ drop (unat (rd + c)) (take ?t ?C) @ drop ?t ?buf, to_read)"
      using 1(1) [OF a refl nz refl, folded c_def, OF fits 1(2,3,4), unfolded eq] pre len 1(5) by simp
    have blk: "d (?L ! i) = take 512 (drop ?r ?C)" using concat_sectors(2) [of ?L d i] 1(3) r disk_ok_length by metis
    have "take (?r + unat c) ?buf @ drop (?r + unat c) (take ?t ?C) @ drop ?t ?buf = take ?r buf @ drop ?r (take ?t ?C) @ drop ?t buf"
      by (rule chunk_copied [OF c True 1(5) _ blk]) (use C 1(4) in simp)
    then show ?thesis using step rest rc by simp
  qed
qed


lemma content_length: "inode_inv x \<Longrightarrow> disk_ok d \<Longrightarrow> length (content d x) = unat (inode_size x)"
  using concat_sectors(1) [of "lead_blocks x" d] by (simp add: content_def inode_inv_def)

lemma inode_size_bound: "inode_inv x \<Longrightarrow> unat (inode_size x) \<le> 16384"
  using length_takeWhile_le [of "\<lambda>b. b \<noteq> 0" "inode_blocks x"]
  by (simp add: inode_inv_def inode_ok_def lead_blocks_def)

lemma sint_small: "unat (w :: u32) < 2147483648 \<Longrightarrow> sint w = int (unat w)"
  by (simp add: sint_cases)

lemma fs_read_named:
  assumes inv: "fs_inv f" and c: "files (disk f) name = Some c" and n: "n = min (unat sz) (length c)" "n \<le> length buf"
  shows "fs_read name buf sz f = Some (take n c @ drop n buf, int n, [])"
proof -
  let ?d = "disk f"
  have T: "table_inv ?d" "disk_ok ?d" using inv by (simp_all add: fs_inv_def table_inv_def)
  obtain i where i: "named name ?d i" "c = content ?d (inode_read i ?d)" using files_iff [OF T(1)] c by blast
  let ?x = "inode_read i ?d"
  have x: "inode_inv ?x" using i(1) T(1) by (auto simp: named_def table_inv_def)
  have len: "length c = unat (inode_size ?x)" using content_length [OF x T(2)] i(2) by simp
  define to_read where "to_read = (if sz < inode_size ?x then sz else inode_size ?x)"
  have tr: "unat to_read = n" using n(1) len by (auto simp: to_read_def word_less_nat_alt)
  have bound: "n \<le> 512 * length (lead_blocks ?x)" using n(1) len x by (auto simp: inode_inv_def)
  have "fs_read_loop ?x ?d to_read 0 0 buf =
      Some (take n (concat (map ?d (lead_blocks ?x))) @ drop n buf, to_read)"
    using fs_read_loop_spec [OF x T(2), of to_read buf 0 0] tr n(2) bound by simp
  moreover have "take n (concat (map ?d (lead_blocks ?x))) = take n c"
    using n(1) len i(2) by (simp add: content_def)
  moreover have "sint to_read = int n"
    using sint_small [of to_read] tr n(1) len inode_size_bound [OF x] by simp
  ultimately show ?thesis
    using inode_find_named [OF T(1) i(1)] by (simp add: fs_read_def to_read_def [symmetric])
qed

lemma fs_read_missing:
  assumes "fs_inv f" "0 \<notin> set name" "files (disk f) name = None"
  shows "fs_read name buf sz f = Some (buf, -1, [not_found name])"
  using inode_find_missing [of "disk f" name] assms by (simp add: fs_read_def fs_inv_def)


subsection \<open>Writing\<close>

lemma inode_find_cong:
  assumes "\<And>i. i < 32 \<Longrightarrow> inode_read i d' = inode_read i d"
  shows "inode_find n d' = inode_find n d"
proof -
  have "inode_find_loop n d' i = inode_find_loop n d i" for i
  proof (induction "32 - i" arbitrary: i)
    case 0
    then show ?case by (simp add: inode_find_loop.simps [of n _ i] MAX_FILES_def)
  next
    case (Suc k)
    then have "inode_find_loop n d' (i + 1) = inode_find_loop n d (i + 1)" "i < 32" by simp_all
    then show ?case using assms [of i] by (simp add: inode_find_loop.simps [of n _ i] MAX_FILES_def Let_def)
  qed
  then show ?thesis by (simp add: inode_find_def)
qed

text \<open>Overwriting a block that no file has changes no inode and no file.\<close>

lemma free_block_write:
  assumes "table_inv d" "\<not> taken d k" "k < 1024" "length buf = 512"
  shows "table_inv (d(of_nat (33 + k) := buf))" "taken (d(of_nat (33 + k) := buf)) = taken d"
    "inode_find n (d(of_nat (33 + k) := buf)) = inode_find n d"
    "i < 32 \<Longrightarrow> inode_read i (d(of_nat (33 + k) := buf)) = inode_read i d"
    "files (d(of_nat (33 + k) := buf)) = files d"
proof -
  let ?b = "of_nat (33 + k) :: u32" and ?d = "d(of_nat (33 + k) := buf)"
  have ub: "unat ?b = 33 + k" using assms(3) by (simp only: unat_of_nat_u32)
  show rd: "inode_read i ?d = inode_read i d" if "i < 32" for i
    using that ub slot_write_other [of ?b i d buf] by (simp add: inode_read_slot)
  have us: "used_at ?d i = used_at d i" if "i < 32" for i using rd that by (simp add: used_at_def)
  show "table_inv ?d" using assms(1,4) rd us unfolding table_inv_def by simp
  show tk: "taken ?d = taken d" using rd us by (simp add: taken_def fun_eq_iff cong: conj_cong)
  have nm: "named n ?d j = named n d j" for n j using rd us by (auto simp: named_def)
  show "inode_find n ?d = inode_find n d" for n using rd by (rule inode_find_cong)
  show "files ?d = files d"
  proof
    fix n
    have same: "content ?d (inode_read j d) = content d (inode_read j d)" if "named n d j" for j
    proof (rule content_cong, intro ballI impI)
      fix b assume "b \<in> set (inode_blocks (inode_read j d))"
      then have "unat b \<noteq> 33 + k" using that assms(2) by (auto simp: taken_def named_def)
      then show "?d b = d b" using ub by auto
    qed
    have "named n ?d j \<and> c = content ?d (inode_read j ?d) \<longleftrightarrow> named n d j \<and> c = content d (inode_read j d)" for j c
    proof (cases "named n d j")
      case True
      then have "j < 32" by (simp add: named_def)
      then show ?thesis using True nm [of n j] rd [of j] same by simp
    qed (use nm [of n j] in simp)
    then have "files ?d n = Some c \<longleftrightarrow> files d n = Some c" for c
      using files_iff [OF assms(1)] files_iff [OF \<open>table_inv ?d\<close>] by simp
    then show "files ?d n = files d n" by (rule option_ext)
  qed
qed

definition padded :: "bytes \<Rightarrow> bytes" where
  "padded bs = bs @ replicate (512 - length bs) 0"

text \<open>The chunk of the data at block \<open>i\<close> of the loop.\<close>

definition chunk_at :: "bytes \<Rightarrow> nat \<Rightarrow> nat \<Rightarrow> bytes" where
  "chunk_at data sz i = take 512 (drop (512 * i) (take sz data))"

lemma fs_write_step:
  fixes sz :: u32
  assumes inv: "fs_inv f" and k: "k < unat (total_blocks (superblock f))" "\<not> taken (disk f) k" "\<And>j. j < k \<Longrightarrow> taken (disk f) j"
    and fr: "free_blocks (superblock f) \<noteq> 0" and i: "i < needed" "512 * unat i < unat sz" "unat written = 512 * unat i"
    and data: "unat sz \<le> length data"
  shows "fs_write_loop data sz needed i written x f =
    fs_write_loop data sz needed (i + 1) (of_nat (min (512 * (unat i + 1)) (unat sz)))
      (x\<lparr>inode_blocks := (inode_blocks x)[unat i := of_nat (33 + k)]\<rparr>)
      (f\<lparr>superblock := (superblock f)\<lparr>free_blocks := free_blocks (superblock f) - 1\<rparr>,
         disk := (disk f)(of_nat (33 + k) := padded (chunk_at data (unat sz) (unat i)))\<rparr>)"
proof -
  have k': "k < 1024" using k(1) inv by (simp add: fs_inv_def)
  have ub: "unat (of_nat (33 + k) :: u32) = 33 + k" using k' by (simp only: unat_of_nat_u32)
  then have nz: "of_nat (33 + k) \<noteq> (0 :: u32)" by (metis add_is_0 unat_0 zero_neq_numeral)
  have ba: "block_alloc f = Some (f\<lparr>superblock := (superblock f)\<lparr>free_blocks := free_blocks (superblock f) - 1\<rparr>\<rparr>, of_nat (33 + k))"
    by (rule block_alloc_first [OF inv fr k])
  define c where "c = (if sz - written > FS_BLOCK_SIZE then FS_BLOCK_SIZE else sz - written)"
  have "unat (sz - written) = unat sz - 512 * unat i" using i(2,3) by (simp add: unat_sub_u32)
  then have c: "unat c = min 512 (unat sz - 512 * unat i)"
    by (auto simp: c_def FS_BLOCK_SIZE_def word_less_nat_alt)
  have sum: "unat written + unat c = min (512 * (unat i + 1)) (unat sz)" using c i(2,3) by auto
  have "unat written + unat c < 4294967296" unfolding sum using unat_u32_less [of sz] by linarith
  then have "unat (written + c) = min (512 * (unat i + 1)) (unat sz)" using sum by (simp add: unat_add_u32)
  then have wc: "written + c = of_nat (min (512 * (unat i + 1)) (unat sz))" by (metis unat_of_nat_u32 unat_u32_less word_eq_unat)
  have fits: "unat written + unat c \<le> length data" using c i data by simp
  have buf: "copy_to 0 (drop (unat written) data) (unat c) (replicate 512 0) = padded (chunk_at data (unat sz) (unat i))"
    using c i data by (simp add: copy_to_def padded_def chunk_at_def drop_take min.commute)
  have ws: "write_sector (of_nat (33 + k)) b d = d(of_nat (33 + k) := b)" for b d
    using low28 [of "of_nat (33 + k)"] ub k' by (simp add: write_sector_def)
  show ?thesis
    unfolding fs_write_loop.simps [of data sz needed i] ba Let_def c_def [symmetric]
    using i(1) nz fits buf ws wc by simp
qed


text \<open>
  The loop: no inode is written before it ends, so \<open>block_alloc\<close> finds the same block every
  time. Every entry of the inode is that block, and the block holds the last chunk.
\<close>

lemma fs_write_loop_spec:
  fixes sz needed i written :: u32
  assumes inv: "fs_inv f" and k: "k < unat (total_blocks (superblock f))" "\<not> taken (disk f) k" "\<And>j. j < k \<Longrightarrow> taken (disk f) j"
    and N: "unat needed = N" "N = (unat sz + 511) div 512" "N \<le> length (inode_blocks x)"
    and i: "unat i \<le> N" "N - unat i \<le> unat (free_blocks (superblock f))" "unat written = min (512 * unat i) (unat sz)"
    and data: "unat sz \<le> length data"
  shows "fs_write_loop data sz needed i written x f =
    Some (f\<lparr>superblock := (superblock f)\<lparr>free_blocks := free_blocks (superblock f) - of_nat (N - unat i)\<rparr>,
            disk := (if unat i < N then (disk f)(of_nat (33 + k) := padded (chunk_at data (unat sz) (N - 1))) else disk f)\<rparr>,
          x\<lparr>inode_blocks := take (unat i) (inode_blocks x) @ replicate (N - unat i) (of_nat (33 + k)) @ drop N (inode_blocks x)\<rparr>, True)"
  using inv k i N(3)
proof (induction "N - unat i" arbitrary: i written x f)
  case 0
  then have "\<not> i < needed" "unat i = N" using N(1) by (simp_all add: word_less_nat_alt)
  then show ?case by (subst fs_write_loop.simps) simp
next
  case (Suc n)
  let ?f = "f\<lparr>superblock := (superblock f)\<lparr>free_blocks := free_blocks (superblock f) - 1\<rparr>,
    disk := (disk f)(of_nat (33 + k) := padded (chunk_at data (unat sz) (unat i)))\<rparr>"
  let ?x = "x\<lparr>inode_blocks := (inode_blocks x)[unat i := of_nat (33 + k)]\<rparr>"
  have iN: "unat i < N" "i < needed" using Suc.hyps(2) N(1) by (simp_all add: word_less_nat_alt)
  then have i1: "unat (i + 1) = unat i + 1" by simp
  have sz: "512 * unat i < unat sz" using iN(1) N(2) by linarith
  have free: "free_blocks (superblock f) \<noteq> 0" using Suc.prems(6) iN(1) by auto
  then have fr1: "unat (free_blocks (superblock f) - 1) = unat (free_blocks (superblock f)) - 1"
    using unat_sub_u32 [of 1 "free_blocks (superblock f)"] by (simp add: Suc_le_eq unat_gt_0)
  have w: "unat written = 512 * unat i" using Suc.prems(7) sz by simp
  have len: "length (padded (chunk_at data (unat sz) (unat i))) = 512" by (simp add: padded_def chunk_at_def)
  have k': "k < 1024" "table_inv (disk f)" using Suc.prems(1,2) by (simp_all add: fs_inv_def)
  note fw = free_block_write [OF k'(2) Suc.prems(3) k'(1) len]
  have inv': "fs_inv ?f" using Suc.prems(1) fw(1) by (simp add: fs_inv_def)
  have w': "unat (of_nat (min (512 * (unat i + 1)) (unat sz)) :: u32) = min (512 * unat (i + 1)) (unat sz)"
    unfolding i1 using unat_u32_less [of sz] by (intro unat_of_nat_u32) linarith
  have "fs_write_loop data sz needed i written x f =
      fs_write_loop data sz needed (i + 1) (of_nat (min (512 * (unat i + 1)) (unat sz))) ?x ?f"
    by (rule fs_write_step [OF Suc.prems(1-4) free iN(2) sz w data])
  also have "\<dots> = Some (?f\<lparr>superblock := (superblock ?f)\<lparr>free_blocks := free_blocks (superblock ?f) - of_nat (N - unat (i + 1))\<rparr>,
            disk := (if unat (i + 1) < N then (disk ?f)(of_nat (33 + k) := padded (chunk_at data (unat sz) (N - 1))) else disk ?f)\<rparr>,
          ?x\<lparr>inode_blocks := take (unat (i + 1)) (inode_blocks ?x) @ replicate (N - unat (i + 1)) (of_nat (33 + k)) @ drop N (inode_blocks ?x)\<rparr>, True)"
  proof (rule Suc.hyps(1) [OF _ inv'])
    show "\<not> taken (disk ?f) k" "\<And>j. j < k \<Longrightarrow> taken (disk ?f) j" using fw(2) Suc.prems(3,4) by simp_all
    show "N - unat (i + 1) \<le> unat (free_blocks (superblock ?f))" using fr1 Suc.prems(6) i1 by simp
  qed (use Suc.hyps(2) i1 iN Suc.prems w' in simp_all)
  finally have loop: "fs_write_loop data sz needed i written x f = \<dots>" .
  have split: "N - unat i = Suc (N - unat (i + 1))" using iN i1 by simp
  have "take (unat (i + 1)) (inode_blocks ?x) = take (unat i) (inode_blocks x) @ [of_nat (33 + k)]"
    "drop N (inode_blocks ?x) = drop N (inode_blocks x)"
    using iN Suc.prems(8) i1 by (simp_all add: take_Suc_conv_app_nth)
  moreover have "unat i = N - 1" if "\<not> unat (i + 1) < N" using that iN i1 by simp
  ultimately show ?case
    unfolding loop split using iN(1) by (simp add: algebra_simps) 
qed


lemma fs_write_blocks_needed:
  fixes sz :: u32
  assumes "unat sz \<le> 16384"
  shows "unat ((sz + FS_BLOCK_SIZE - 1) div FS_BLOCK_SIZE) = (unat sz + 511) div 512"
    "\<not> of_nat MAX_FILE_BLOCKS < (sz + FS_BLOCK_SIZE - 1) div FS_BLOCK_SIZE"
proof -
  show *: "unat ((sz + FS_BLOCK_SIZE - 1) div FS_BLOCK_SIZE) = (unat sz + 511) div 512"
    using assms unat_add_u32 [of 511 sz] by (simp add: FS_BLOCK_SIZE_def unat_div)
  show "\<not> of_nat MAX_FILE_BLOCKS < (sz + FS_BLOCK_SIZE - 1) div FS_BLOCK_SIZE"
    unfolding word_less_nat_alt * using assms by (simp add: MAX_FILE_BLOCKS_def)
qed

text \<open>The inode after the loop: every block it was given is the same one.\<close>

definition written_inode :: "inode_t \<Rightarrow> u32 \<Rightarrow> u32 \<Rightarrow> inode_t" where
  "written_inode x sz b =
     (let N = (unat sz + 511) div 512
      in x\<lparr>inode_blocks := replicate N b @ drop N (inode_blocks x), inode_size := sz\<rparr>)"

lemma written_inode_inv:
  assumes "inode_inv x" "unat sz \<le> 16384" "block_ok b" "b \<noteq> 0"
  shows "inode_inv (written_inode x sz b)"
    "set (inode_blocks (written_inode x sz b)) \<subseteq> insert b (set (inode_blocks x))"
    "length (d b) = 512 \<Longrightarrow>
       content d (written_inode x sz b) = take (unat sz) (concat (replicate ((unat sz + 511) div 512) (d b)))"
proof -
  let ?N = "(unat sz + 511) div 512" and ?x = "written_inode x sz b"
  have N: "?N \<le> 32" "unat sz \<le> 512 * ?N" using assms(2) by linarith+
  have bl: "inode_blocks ?x = replicate ?N b @ drop ?N (inode_blocks x)" by (simp add: written_inode_def Let_def)
  show sub: "set (inode_blocks ?x) \<subseteq> insert b (set (inode_blocks x))"
    unfolding bl by (auto dest: in_set_dropD)
  have lead: "lead_blocks ?x = replicate ?N b @ takeWhile (\<lambda>b. b \<noteq> 0) (drop ?N (inode_blocks x))"
    unfolding lead_blocks_def bl using assms(4) by (simp add: takeWhile_append)
  then have "?N \<le> length (lead_blocks ?x)" by simp
  then have "unat sz \<le> 512 * length (lead_blocks ?x)" using N(2) by linarith
  moreover have "length (inode_blocks ?x) = 32" using assms(1) N(1) by (simp add: bl inode_inv_def inode_ok_def)
  moreover have "\<forall>c \<in> set (inode_blocks ?x). block_ok c" using sub assms(1,3) by (auto simp: inode_inv_def)
  ultimately show "inode_inv ?x"
    using assms(1) by (simp add: inode_inv_def inode_ok_def) (simp add: written_inode_def Let_def)
  show "content d ?x = take (unat sz) (concat (replicate ?N (d b)))" if "length (d b) = 512"
  proof -
    have "length (concat (replicate ?N (d b))) = 512 * ?N" using that by (simp add: length_concat sum_list_replicate)
    then show ?thesis using N(2) by (simp add: content_def lead) (simp add: written_inode_def Let_def map_replicate)
  qed
qed

lemma name_written:
  assumes "inode_inv x" "unat sz \<le> 16384"
  shows "name_str (written_inode x sz b) = name_str x"
  using assms name_str_array [of x] name_str_array [of "written_inode x sz b"]
  by (simp add: written_inode_def Let_def inode_inv_def)

lemma written_content:
  assumes "inode_inv x" "unat sz \<le> 16384" "block_ok b" "b \<noteq> 0" and N: "0 < (unat sz + 511) div 512 \<Longrightarrow> d b = P" "length P = 512"
  shows "content d (written_inode x sz b) = take (unat sz) (concat (replicate ((unat sz + 511) div 512) P))"
proof (cases "0 < (unat sz + 511) div 512")
  case True
  then show ?thesis using written_inode_inv(3) [OF assms(1-4), of d] N by simp
next
  case False
  then have "unat sz = 0" by linarith
  then show ?thesis by (simp add: content_def written_inode_def Let_def)
qed

text \<open>What the loop leaves is one chunk in the first free block, the last one written there.\<close>

lemma fs_write_to:
  fixes sz :: u32
  assumes inv: "fs_inv f" and name: "named name (disk f) i" and data: "unat sz \<le> length data" "unat sz \<le> 16384"
    and k: "k < unat (total_blocks (superblock f))" "\<not> taken (disk f) k" "\<And>j. j < k \<Longrightarrow> taken (disk f) j"
    and N: "N = (unat sz + 511) div 512" "N \<le> unat (free_blocks (superblock f))"
  defines "d1 \<equiv> if 0 < N then (disk f)(of_nat (33 + k) := padded (chunk_at data (unat sz) (N - 1))) else disk f"
    and "sb \<equiv> (superblock f)\<lparr>free_blocks := free_blocks (superblock f) - of_nat N\<rparr>"
    and "x \<equiv> written_inode (inode_read i (disk f)) sz (of_nat (33 + k))"
  obtains ms where "fs_write name data sz f = Some (f\<lparr>superblock := sb, disk := with_super sb (inode_write i x d1)\<rparr>, 0, ms)"
proof -
  let ?y = "inode_read i (disk f)" and ?b = "of_nat (33 + k) :: u32"
  have T: "table_inv (disk f)" using inv by (simp add: fs_inv_def)
  have y: "inode_inv ?y" using name T by (auto simp: named_def table_inv_def)
  have "fs_write_loop data sz ((sz + FS_BLOCK_SIZE - 1) div FS_BLOCK_SIZE) 0 0 ?y f =
      Some (f\<lparr>superblock := sb, disk := d1\<rparr>, ?y\<lparr>inode_blocks := replicate N ?b @ drop N (inode_blocks ?y)\<rparr>, True)"
    using fs_write_loop_spec [OF inv k fs_write_blocks_needed(1) [OF data(2)] refl, where i = 0 and written = 0] y data N
    by (simp add: inode_inv_def inode_ok_def d1_def sb_def)
  then have "\<exists>ms. fs_write name data sz f = Some (superblock_flush (f\<lparr>superblock := sb, disk := inode_write i x d1\<rparr>), 0, ms)"
    using inode_find_named [OF T name] fs_write_blocks_needed(2) [OF data(2)] N(1) by (simp add: fs_write_def Let_def written_inode_def x_def)
  moreover have "superblock_flush (f\<lparr>superblock := sb, disk := inode_write i x d1\<rparr>) = f\<lparr>superblock := sb, disk := with_super sb (inode_write i x d1)\<rparr>"
    using superblock_flush_disk [of "f\<lparr>superblock := sb, disk := inode_write i x d1\<rparr>"] by (intro fs.equality) simp_all
  ultimately show thesis using that by auto
qed

lemma free_block_word:
  assumes "k < 1024"
  shows "unat (of_nat (33 + k) :: u32) = 33 + k" "block_ok (of_nat (33 + k))" "of_nat (33 + k) \<noteq> (0 :: u32)"
proof -
  show u: "unat (of_nat (33 + k) :: u32) = 33 + k" using assms by (simp only: unat_of_nat_u32)
  then show "block_ok (of_nat (33 + k))" "of_nat (33 + k) \<noteq> (0 :: u32)" using assms by (auto simp: block_ok_def word_eq_unat)
qed

lemma fs_write_named:
  fixes sz :: u32
  assumes inv: "fs_inv f" and name: "named name (disk f) i" and data: "unat sz \<le> length data" "unat sz \<le> 16384"
    and k: "k < unat (total_blocks (superblock f))" "\<not> taken (disk f) k"
    and free: "(unat sz + 511) div 512 \<le> unat (free_blocks (superblock f))"
  obtains f' ms b where "fs_write name data sz f = Some (f', 0, ms)" "fs_inv f'"
    "inode_read i (disk f') = written_inode (inode_read i (disk f)) sz b" "b \<noteq> 0"
    "files (disk f') = (files (disk f))(name \<mapsto> take (unat sz) (concat (replicate ((unat sz + 511) div 512)
       (padded (chunk_at data (unat sz) ((unat sz + 511) div 512 - 1))))))"
    "superblock f' = (superblock f)\<lparr>free_blocks := free_blocks (superblock f) - of_nat ((unat sz + 511) div 512)\<rparr>"
    "superblock_of (take 24 (read_sector 0 (disk f'))) = superblock f'"
proof -
  let ?N = "(unat sz + 511) div 512" and ?d = "disk f" and ?y = "inode_read i (disk f)"
  define k0 where "k0 = (LEAST k. \<not> taken ?d k)"
  have k0: "\<not> taken ?d k0" "\<And>j. j < k0 \<Longrightarrow> taken ?d j" "k0 \<le> k"
    unfolding k0_def using LeastI [of "\<lambda>k. \<not> taken ?d k" k] Least_le [of "\<lambda>k. \<not> taken ?d k" k] k(2)
    by (auto dest: not_less_Least)
  have T: "table_inv ?d" "disk_ok ?d" "k0 < unat (total_blocks (superblock f))" "k0 < 1024"
    using inv k k0(3) by (simp_all add: fs_inv_def table_inv_def)
  let ?b = "of_nat (33 + k0) :: u32" and ?P = "padded (chunk_at data (unat sz) (?N - 1))"
  let ?d1 = "if 0 < ?N then ?d(?b := ?P) else ?d" and ?x = "written_inode ?y sz ?b"
  let ?sb = "(superblock f)\<lparr>free_blocks := free_blocks (superblock f) - of_nat ?N\<rparr>"
  let ?f = "f\<lparr>superblock := ?sb, disk := with_super ?sb (inode_write i ?x ?d1)\<rparr>"
  note b = free_block_word [OF T(4)]
  obtain ms where fw: "fs_write name data sz f = Some (?f, 0, ms)" by (rule fs_write_to [OF inv name data T(3) k0(1,2) refl free])
  have i: "i < 32" "used_at ?d i" "name_str ?y = name" and y: "inode_inv ?y" using name T(1) by (auto simp: named_def table_inv_def)
  have lenP: "length ?P = 512" by (simp add: padded_def chunk_at_def)
  note x = written_inode_inv [OF y data(2) b(2,3)] name_written [OF y data(2), of ?b]
  have used: "inode_used ?x \<noteq> 0" using i(2) by (simp add: written_inode_def Let_def used_at_def)
  have notin: "?b \<notin> set (inode_blocks (inode_read j ?d))" if "j < 32" "used_at ?d j" for j
    using k0(1) that b(1) by (auto simp: taken_def)
  have d1: "disk_ok ?d1" "\<And>j. j < 32 \<Longrightarrow> slot ?d1 j = slot ?d j"
    "\<And>j c. j < 32 \<Longrightarrow> used_at ?d j \<Longrightarrow> c \<in> set (inode_blocks (inode_read j ?d)) \<Longrightarrow> c \<noteq> 0 \<Longrightarrow> ?d1 c = ?d c"
    using T(2) lenP b(1) slot_write_other [of ?b _ ?d ?P] notin by auto
  have own: "name_str (inode_read j ?d) \<noteq> name_str ?x \<and> set (inode_blocks (inode_read j ?d)) \<inter> set (inode_blocks ?x) \<subseteq> {0}"
    if "j < 32" "j \<noteq> i" "used_at ?d j" for j
  proof -
    have "name_str (inode_read j ?d) \<noteq> name_str ?y" "set (inode_blocks (inode_read j ?d)) \<inter> set (inode_blocks ?y) \<subseteq> {0}"
      using T(1) i that by (auto simp: table_inv_def)
    then show ?thesis using x(2,4) notin [OF that(1,3)] by auto
  qed
  note P = table_put [OF T(1) i(1) d1 x(1) used x(4) [symmetric] own, where sb = ?sb]
  have "content (disk ?f) ?x = take (unat sz) (concat (replicate ?N ?P))"
    by (rule written_content [OF y data(2) b(2,3)]) (use inode_write_other [OF i(1), of ?b ?x ?d1] b(1) lenP in auto)
  then have "files (disk ?f) = (files ?d)(name \<mapsto> take (unat sz) (concat (replicate ?N ?P)))" using P(3) x(4) i(3) by simp
  moreover have "superblock_of (take 24 (read_sector 0 (disk ?f))) = ?sb" using superblock_of_bytes [of ?sb "[]"] by (simp add: read_sector_def)
  moreover have "fs_inv ?f" using inv P(1) by (simp add: fs_inv_def)
  ultimately show ?thesis using that [OF fw _ _ b(3)] P(2) by simp
qed

subsection \<open>Mounting and formatting\<close>

definition formatted_sb :: superblock_t where
  "formatted_sb = \<lparr>magic = FS_MAGIC, version = 1, total_blocks = 1024, inode_start = INODE_START_SECTOR,
     data_start = DATA_START_SECTOR, free_blocks = 1024\<rparr>"

lemma format_table:
  "n \<le> 32 \<Longrightarrow> fold (\<lambda>i. write_sector (INODE_START_SECTOR + of_nat i) z) [0..<n] d b =
     (if 1 \<le> unat b \<and> unat b \<le> n then z else d b)"
proof (induction n)
  case (Suc n)
  have u: "unat (1 + of_nat n :: u32) = Suc n" using Suc.prems by (simp add: unat_add_u32 unat_of_nat_u32)
  then have "(1 + of_nat n :: u32) AND 0x0FFFFFFF = 1 + of_nat n" using Suc.prems by (intro low28) simp
  then show ?case
    using Suc u by (auto simp: write_sector_def INODE_START_SECTOR_def word_eq_unat)
qed auto

lemma zero_table_empty:
  assumes "\<And>i. i < 32 \<Longrightarrow> d (slot_sector i) = replicate 512 0" "disk_ok d"
  shows "table_inv d" "\<not> used_at d i \<or> 32 \<le> i" "files d = (\<lambda>_. None)"
proof -
  have "slot d i = replicate 200 0" if "i < 32" for i
    using assms(1) [OF that] by (simp add: slot_def)
  then have "inode_read i d = inode_of (replicate 200 0)" if "i < 32" for i using that by (simp add: inode_read_slot)
  then have us: "\<not> used_at d i" if "i < 32" for i using that by (simp add: used_at_def zero_inode)
  then show "\<not> used_at d i \<or> 32 \<le> i" by force
  show T: "table_inv d" using us assms(2) by (simp add: table_inv_def)
  show "files d = (\<lambda>_. None)" using files_None_iff [OF T] us by (auto simp: named_def fun_eq_iff)
qed

lemma fs_init_format:
  assumes "disk_ok (disk f)" "magic (superblock_of (take 24 (disk f 0))) \<noteq> FS_MAGIC"
  obtains f' ms where "fs_init f = (f', ms)" "fs_inv f'" "superblock f' = formatted_sb" "files (disk f') = (\<lambda>_. None)"
    "superblock_of (take 24 (disk f' 0)) = formatted_sb" "\<And>i. i < 32 \<Longrightarrow> \<not> used_at (disk f') i"
proof -
  let ?e = "(disk f)(0 := superblock_bytes formatted_sb @ replicate 488 0)"
  let ?d = "fold (\<lambda>i. write_sector (INODE_START_SECTOR + of_nat i) (replicate 512 0)) [0..<32] ?e"
  let ?f = "\<lparr>superblock = formatted_sb, disk = ?d\<rparr>"
  have d: "?d b = (if 1 \<le> unat b \<and> unat b \<le> 32 then replicate 512 0 else ?e b)" for b
    using format_table [of 32 "replicate 512 0" ?e b] by simp
  have ok: "disk_ok ?d" using assms(1) d by (simp add: disk_ok_def)
  have z: "?d (slot_sector i) = replicate 512 0" if "i < 32" for i
  proof -
    have "i div 2 \<le> 31" using that by simp
    then show ?thesis using d [of "slot_sector i"] unat_slot_sector [OF that] by simp
  qed
  note t = zero_table_empty [OF z ok]
  have init: "fst (fs_init f) = ?f"
    using assms(2) by (simp add: fs_init_def read_sector_def SUPERBLOCK_SECTOR_def formatted_sb_def superblock_flush_def
        write_sector_def copy_to_def Let_def)
  show ?thesis
  proof (rule that [of ?f "snd (fs_init f)"])
    show "fs_init f = (?f, snd (fs_init f))" using init by (metis prod.collapse)
    show "fs_inv ?f" using t(1) by (simp add: fs_inv_def formatted_sb_def)
    show "superblock_of (take 24 (disk ?f 0)) = formatted_sb"
      using superblock_of_bytes [of formatted_sb "[]"] d [of 0] by simp
    show "\<not> used_at (disk ?f) i" if "i < 32" for i using t(2) [of i] that by auto
  qed (use t(3) in simp_all)
qed

lemma fs_init_found:
  assumes "magic (superblock_of (take 24 (disk f 0))) = FS_MAGIC"
  shows "fst (fs_init f) = f\<lparr>superblock := superblock_of (take 24 (disk f 0))\<rparr>"
  using assms by (simp add: fs_init_def read_sector_def SUPERBLOCK_SECTOR_def Let_def)


subsection \<open>What the clients of the file system rely on\<close>

text \<open>
  The shell, the system calls and the program loader see files by name. The interface gives
  each call its meaning on the map \<open>view\<close> from names to contents.
\<close>

locale named_files =
  fixes create :: "bytes \<Rightarrow> 's \<Rightarrow> 's \<times> int \<times> msg list"
    and remove :: "bytes \<Rightarrow> 's \<Rightarrow> 's \<times> int \<times> msg list"
    and load :: "bytes \<Rightarrow> bytes \<Rightarrow> u32 \<Rightarrow> 's \<Rightarrow> (bytes \<times> int \<times> msg list) option"
    and inv :: "'s \<Rightarrow> bool"
    and view :: "'s \<Rightarrow> bytes \<Rightarrow> bytes option"
    and room :: "'s \<Rightarrow> bool"
  assumes load_found: "inv s \<Longrightarrow> view s n = Some c \<Longrightarrow> k = min (unat z) (length c) \<Longrightarrow> k \<le> length buf \<Longrightarrow>
      load n buf z s = Some (take k c @ drop k buf, int k, [])"
    and load_missing: "inv s \<Longrightarrow> 0 \<notin> set n \<Longrightarrow> view s n = None \<Longrightarrow> \<exists>ms. load n buf z s = Some (buf, -1, ms)"
    and create_new: "inv s \<Longrightarrow> 0 \<notin> set n \<Longrightarrow> length n \<le> 63 \<Longrightarrow> view s n = None \<Longrightarrow> room s \<Longrightarrow>
      \<exists>s' ms. create n s = (s', 0, ms) \<and> inv s' \<and> view s' = (view s)(n \<mapsto> [])"
    and remove_found: "inv s \<Longrightarrow> view s n \<noteq> None \<Longrightarrow>
      \<exists>s' ms. remove n s = (s', 0, ms) \<and> inv s' \<and> view s' = (view s)(n := None)"
begin

lemma load_whole:
  assumes "inv s" "view s n = Some c" "length c \<le> unat z" "length c \<le> length buf"
  shows "\<exists>buf'. load n buf z s = Some (buf', int (length c), []) \<and> take (length c) buf' = c"
  using load_found [OF assms(1,2) refl, of z buf] assms(3,4) by simp

lemma load_never_fails:
  assumes "inv s" "0 \<notin> set n" "unat z \<le> length buf"
  shows "\<exists>buf' r ms. load n buf z s = Some (buf', r, ms) \<and> r \<le> int (unat z) \<and> length buf' = length buf"
proof (cases "view s n")
  case None
  then obtain ms where "load n buf z s = Some (buf, -1, ms)" using load_missing [OF assms(1,2)] by blast
  moreover have "(-1 :: int) \<le> int (unat z)" by linarith
  ultimately show ?thesis by blast
next
  case (Some c)
  define k where "k = min (unat z) (length c)"
  have "load n buf z s = Some (take k c @ drop k buf, int k, [])"
    using load_found [OF assms(1) Some k_def] assms(3) by (simp add: k_def)
  moreover have "length (take k c @ drop k buf) = length buf" using assms(3) by (simp add: k_def)
  moreover have "int k \<le> int (unat z)" unfolding k_def by linarith
  ultimately show ?thesis by blast
qed

lemma create_remove:
  assumes "inv s" "0 \<notin> set n" "length n \<le> 63" "view s n = None" "room s"
  shows "\<exists>s' ms s'' ms'. create n s = (s', 0, ms) \<and> remove n s' = (s'', 0, ms') \<and> inv s'' \<and> view s'' = view s"
proof -
  obtain s' ms where c: "create n s = (s', 0, ms)" "inv s'" "view s' = (view s)(n \<mapsto> [])"
    using create_new [OF assms] by blast
  then obtain s'' ms' where "remove n s' = (s'', 0, ms')" "inv s''" "view s'' = (view s')(n := None)"
    using remove_found [of s' n] by auto
  with c assms(4) show ?thesis by (auto simp: fun_upd_idem)
qed

end

interpretation afs: named_files fs_create fs_delete fs_read fs_inv "\<lambda>f. files (disk f)"
    "\<lambda>f. \<exists>i < 32. \<not> used_at (disk f) i"
proof unfold_locales
  fix s :: fs and n c buf :: bytes and k and z :: u32
  assume "fs_inv s" "files (disk s) n = Some c" "k = min (unat z) (length c)" "k \<le> length buf"
  then show "fs_read n buf z s = Some (take k c @ drop k buf, int k, [])" by (rule fs_read_named)
next
  fix s :: fs and n buf :: bytes and z :: u32
  assume "fs_inv s" "0 \<notin> set n" "files (disk s) n = None"
  then show "\<exists>ms. fs_read n buf z s = Some (buf, -1, ms)" using fs_read_missing by blast
next
  fix s :: fs and n
  assume "fs_inv s" "0 \<notin> set n" "length n \<le> 63" "files (disk s) n = None" "\<exists>i < 32. \<not> used_at (disk s) i"
  then show "\<exists>s' ms. fs_create n s = (s', 0, ms) \<and> fs_inv s' \<and> files (disk s') = (files (disk s))(n \<mapsto> [])"
    using fs_create_new by metis
next
  fix s :: fs and n
  assume "fs_inv s" "files (disk s) n \<noteq> None"
  then obtain i where "named n (disk s) i" using files_None_iff by (auto simp: fs_inv_def)
  then show "\<exists>s' ms. fs_delete n s = (s', 0, ms) \<and> fs_inv s' \<and> files (disk s') = (files (disk s))(n := None)"
    using fs_delete_named \<open>fs_inv s\<close> by metis
qed

text \<open>The refusals.\<close>

lemma fs_create_refused:
  assumes "fs_inv f" "0 \<notin> set name" "\<not> (files (disk f) name = None \<and> (\<exists>i < 32. \<not> used_at (disk f) i))"
  shows "\<exists>ms. fs_create name f = (f, -1, ms)"
proof -
  consider "files (disk f) name \<noteq> None" | "files (disk f) name = None" "\<forall>i < 32. used_at (disk f) i" using assms(3) by auto
  then show ?thesis
  proof cases
    case 1
    then have "0 \<le> inode_find name (disk f)" by (auto simp: files_def split: if_splits)
    then show ?thesis by (simp add: fs_create_def)
  next
    case 2
    then have "inode_alloc (disk f) = -1" by (cases rule: inode_alloc_cases [of "disk f"]) auto
    moreover have "inode_find name (disk f) = -1"
      using inode_find_missing [of "disk f" name] assms 2 by (simp add: fs_inv_def)
    ultimately show ?thesis by (simp add: fs_create_def)
  qed
qed

lemma fs_delete_refused:
  assumes "fs_inv f" "0 \<notin> set name" "files (disk f) name = None"
  shows "fs_delete name f = (f, -1, [not_found name])"
proof -
  have "inode_find name (disk f) = -1" using inode_find_missing assms by (simp add: fs_inv_def)
  then show ?thesis by (simp add: fs_delete_def)
qed

subsection \<open>A formatted disk for the examples\<close>

definition fs_blank :: fs where
  "fs_blank = \<lparr>superblock = \<lparr>magic = 0, version = 0, total_blocks = 0, inode_start = 0, data_start = 0, free_blocks = 0\<rparr>,
     disk = \<lambda>_. replicate 512 0\<rparr>"

definition fs_boot :: fs where "fs_boot = fst (fs_init fs_blank)"

lemma fs_blank_ready: "disk_ok (disk fs_blank)" "magic (superblock_of (take 24 (disk fs_blank 0))) \<noteq> FS_MAGIC"
  by (simp_all add: fs_blank_def disk_ok_def superblock_of_def un32_zeros FS_MAGIC_def)

lemma fs_boot_state:
  "fs_inv fs_boot" "superblock fs_boot = formatted_sb" "files (disk fs_boot) = (\<lambda>_. None)"
  "i < 32 \<Longrightarrow> \<not> used_at (disk fs_boot) i" "superblock_of (take 24 (disk fs_boot 0)) = formatted_sb"
proof -
  obtain f' ms where "fs_init fs_blank = (f', ms)" "fs_inv f'" "superblock f' = formatted_sb" "files (disk f') = (\<lambda>_. None)"
    "superblock_of (take 24 (disk f' 0)) = formatted_sb" "\<And>i. i < 32 \<Longrightarrow> \<not> used_at (disk f') i"
    by (rule fs_init_format [OF fs_blank_ready]) blast
  then show "fs_inv fs_boot" "superblock fs_boot = formatted_sb" "files (disk fs_boot) = (\<lambda>_. None)"
    "i < 32 \<Longrightarrow> \<not> used_at (disk fs_boot) i" "superblock_of (take 24 (disk fs_boot 0)) = formatted_sb"
    by (simp_all add: fs_boot_def)
qed

abbreviation hello :: bytes where "hello \<equiv> [0x68, 0x65, 0x6C, 0x6C, 0x6F]"

definition fs_hello :: fs where "fs_hello = fst (fs_create hello fs_boot)"

lemma fs_hello_state:
  "fs_inv fs_hello" "superblock fs_hello = formatted_sb" "files (disk fs_hello) = [hello \<mapsto> []]"
  "named hello (disk fs_hello) 0" "\<not> taken (disk fs_hello) k" "\<not> used_at (disk fs_hello) 31"
proof -
  have n: "(0 :: u8) \<notin> set hello" "length hello \<le> 63" "files (disk fs_boot) hello = None"
    by (simp_all add: fs_boot_state(3))
  obtain f' j where f': "fs_create hello fs_boot = (f', 0, created hello)" "fs_inv f'"
    "superblock f' = superblock fs_boot" "files (disk f') = (files (disk fs_boot))(hello \<mapsto> [])"
    "table_step j (new_inode hello) (disk fs_boot) (disk f')" "\<And>i. i < j \<Longrightarrow> used_at (disk fs_boot) i"
    by (rule fs_create_new [OF fs_boot_state(1) n, of 0]) (use fs_boot_state(4) in auto)
  then have e: "f' = fs_hello" by (simp add: fs_hello_def)
  have j: "j = 0" using f'(6) [of 0] fs_boot_state(4) [of 0] by auto
  note step = f'(5) [unfolded e j]
  show "fs_inv fs_hello" "superblock fs_hello = formatted_sb" "files (disk fs_hello) = [hello \<mapsto> []]"
    using f'(2,3,4) e fs_boot_state by simp_all
  have us: "used_at (disk fs_hello) i = (i = 0)" if "i < 32" for i
    using table_step_used [OF step that] fs_boot_state(4) [OF that] new_inode_inv(4) [OF n(1,2)] by simp
  then show "\<not> used_at (disk fs_hello) 31" by simp
  show "named hello (disk fs_hello) 0"
    using table_step_named [OF step, of hello 0] new_inode_inv [OF n(1,2)] by simp
  have "inode_read 0 (disk fs_hello) = new_inode hello" using step by (simp add: table_step_def)
  then show "\<not> taken (disk fs_hello) k" using us new_inode_inv(5) [OF n(1,2)] by (auto simp: taken_def)
qed

subsection \<open>Properties\<close>

text \<open>C23. \<open>fs_create\<close> of a new name of at most 63 characters adds an empty file to the map of files, in
  the first free inode, and keeps the invariant of the inode table; an existing name or a
  full table is refused with -1 and the disk is not touched.\<close>

theorem fs_create_adds_file:
  assumes "fs_inv f" "0 \<notin> set name" "length name \<le> 63"
  shows "if files (disk f) name = None \<and> (\<exists>i < 32. \<not> used_at (disk f) i)
    then \<exists>f' ms. fs_create name f = (f', 0, ms) \<and> fs_inv f' \<and> files (disk f') = (files (disk f))(name \<mapsto> [])
    else \<exists>ms. fs_create name f = (f, -1, ms)"
proof (cases "files (disk f) name = None \<and> (\<exists>i < 32. \<not> used_at (disk f) i)")
  case True
  then show ?thesis using afs.create_new [OF assms] by simp
next
  case False
  then show ?thesis using fs_create_refused [OF assms(1,2)] unfolding if_not_P [OF False] by blast
qed

theorem fs_create_adds_file_witness:
  "\<exists>f' ms. fs_create hello fs_boot = (f', 0, ms) \<and> files (disk f') = [hello \<mapsto> []]"
proof -
  have "\<exists>i < 32. \<not> used_at (disk fs_boot) i" using fs_boot_state(4) [of 0] by (intro exI [of _ 0]) simp
  then show ?thesis
    using fs_create_adds_file [OF fs_boot_state(1), of hello] fs_boot_state(3) by (auto simp: fun_upd_def)
qed

text \<open>C20. A file of at most one block is written whole: after \<open>fs_write\<close> the map of files has the
  data under the name and every other file unchanged, the invariant holds, and the
  superblock on disk is the cached one.\<close>

theorem fs_write_one_block:
  fixes sz :: u32
  assumes "fs_inv f" "files (disk f) name \<noteq> None" "0 < unat sz" "unat sz \<le> 512" "unat sz \<le> length data"
    and "k < unat (total_blocks (superblock f))" "\<not> taken (disk f) k" "free_blocks (superblock f) \<noteq> 0"
  shows "\<exists>f' ms. fs_write name data sz f = Some (f', 0, ms) \<and> fs_inv f' \<and>
    files (disk f') = (files (disk f))(name \<mapsto> take (unat sz) data) \<and>
    superblock_of (take 24 (disk f' 0)) = superblock f'"
proof -
  obtain i where i: "named name (disk f) i" using files_None_iff assms(1,2) by (auto simp: fs_inv_def)
  have N: "(unat sz + 511) div 512 = 1" using assms(3,4) by simp
  have fr: "(unat sz + 511) div 512 \<le> unat (free_blocks (superblock f))"
    using assms(8) by (simp add: N Suc_le_eq unat_gt_0)
  obtain f' ms b where "fs_write name data sz f = Some (f', 0, ms)" "fs_inv f'"
    "files (disk f') = (files (disk f))(name \<mapsto> take (unat sz) (concat (replicate ((unat sz + 511) div 512)
       (padded (chunk_at data (unat sz) ((unat sz + 511) div 512 - 1))))))"
    "superblock_of (take 24 (read_sector 0 (disk f'))) = superblock f'"
    by (rule fs_write_named [OF assms(1) i assms(5) _ assms(6,7) fr]) (use assms(4) in simp_all)
  moreover have "take (unat sz) (padded (chunk_at data (unat sz) 0)) = take (unat sz) data"
    using assms(4,5) by (simp add: padded_def chunk_at_def)
  ultimately show ?thesis by (simp add: N read_sector_def)
qed

theorem fs_write_one_block_witness:
  "\<exists>f' ms. fs_write hello [1, 2, 3, 4] 3 fs_hello = Some (f', 0, ms) \<and> files (disk f') hello = Some [1, 2, 3]"
  using fs_write_one_block [OF fs_hello_state(1), of hello 3 "[1, 2, 3, 4]" 0] fs_hello_state
  by (fastforce simp: formatted_sb_def)


text \<open>C22. A longer write loses data: the inode is stored only after the loop, so every call of
  \<open>block_alloc\<close> returns the same block. All the file's blocks are then that one block, which
  holds the last chunk, and the file reads as the last chunk over and over.\<close>

theorem fs_write_multi_block_overlap:
  fixes sz :: u32
  assumes "fs_inv f" "files (disk f) name \<noteq> None" "512 < unat sz" "unat sz \<le> 16384" "unat sz \<le> length data"
    and "k < unat (total_blocks (superblock f))" "\<not> taken (disk f) k"
    and "(unat sz + 511) div 512 \<le> unat (free_blocks (superblock f))"
  shows "\<exists>f' ms i b. fs_write name data sz f = Some (f', 0, ms) \<and> named name (disk f') i \<and>
    (\<forall>j < (unat sz + 511) div 512. inode_blocks (inode_read i (disk f')) ! j = b) \<and>
    files (disk f') name = Some (take (unat sz) (concat (replicate ((unat sz + 511) div 512)
      (padded (chunk_at data (unat sz) ((unat sz + 511) div 512 - 1))))))"
proof -
  obtain i where i: "named name (disk f) i" using files_None_iff assms(1,2) by (auto simp: fs_inv_def)
  obtain f' ms b where f': "fs_write name data sz f = Some (f', 0, ms)" "fs_inv f'"
    "inode_read i (disk f') = written_inode (inode_read i (disk f)) sz b"
    "files (disk f') = (files (disk f))(name \<mapsto> take (unat sz) (concat (replicate ((unat sz + 511) div 512)
       (padded (chunk_at data (unat sz) ((unat sz + 511) div 512 - 1))))))"
    by (rule fs_write_named [OF assms(1) i assms(5,4,6,7,8)]) blast
  have "inode_inv (inode_read i (disk f))" using assms(1) i by (auto simp: fs_inv_def table_inv_def named_def)
  then have "named name (disk f') i"
    using i f'(3) name_written [OF _ assms(4), of "inode_read i (disk f)" b]
    by (simp add: named_def used_at_def) (simp add: written_inode_def Let_def)
  moreover have "\<forall>j < (unat sz + 511) div 512. inode_blocks (inode_read i (disk f')) ! j = b"
    using f'(3) by (simp add: written_inode_def Let_def nth_append)
  ultimately show ?thesis using f'(1,4) by auto
qed

theorem fs_write_multi_block_overlap_witness:
  "\<exists>f' ms. fs_write hello (replicate 512 1 @ [2]) 513 fs_hello = Some (f', 0, ms) \<and>
     files (disk f') hello = Some (2 # replicate 511 0 @ [2])"
proof -
  have "chunk_at (replicate 512 1 @ [2]) 513 1 = [2]" by (simp add: chunk_at_def)
  then have "take 513 (concat (replicate 2 (padded (chunk_at (replicate 512 1 @ [2]) 513 1)))) = 2 # replicate 511 0 @ [2]"
    by (simp add: padded_def numeral_2_eq_2)
  then show ?thesis
    using fs_write_multi_block_overlap [OF fs_hello_state(1), of hello 513 "replicate 512 1 @ [2]" 0] fs_hello_state
    by (fastforce simp: formatted_sb_def)
qed

text \<open>\<open>fs_read\<close> returns the first bytes of the file, as many as the caller asks for and the file
  has, puts them at the start of the buffer and leaves the rest of it alone; for a missing
  file it returns -1 and leaves the buffer as it is.\<close>

theorem fs_read_returns_prefix:
  assumes "fs_inv f" "0 \<notin> set name" "unat sz \<le> length buf"
  shows "case files (disk f) name of
      None \<Rightarrow> fs_read name buf sz f = Some (buf, -1, [not_found name])
    | Some c \<Rightarrow> let n = min (unat sz) (length c)
        in fs_read name buf sz f = Some (take n c @ drop n buf, int n, [])"
proof (cases "files (disk f) name")
  case None
  then show ?thesis using fs_read_missing [OF assms(1,2)] by simp
next
  case (Some c)
  then show ?thesis using afs.load_found [OF assms(1) Some refl, of sz buf] assms(3) by (simp add: Let_def)
qed

theorem fs_read_returns_prefix_witness:
  "fs_read hello [9, 9] 2 fs_hello = Some ([9, 9], 0, []) \<and>
   fs_read [0x78] [9, 9] 2 fs_hello = Some ([9, 9], -1, [not_found [0x78]])"
  using fs_read_returns_prefix [OF fs_hello_state(1), of hello 2 "[9, 9]"]
    fs_read_returns_prefix [OF fs_hello_state(1), of "[0x78]" 2 "[9, 9]"] fs_hello_state(3) by simp

text \<open>C24. \<open>fs_delete\<close> removes exactly the named file from the map, gives its blocks back to the count of
  free blocks and writes the superblock; a missing name is refused with -1.\<close>

theorem fs_delete_removes_file:
  assumes "fs_inv f" "0 \<notin> set name"
  shows "if files (disk f) name = None then fs_delete name f = (f, -1, [not_found name])
    else \<exists>f' ms i. fs_delete name f = (f', 0, ms) \<and> fs_inv f' \<and> files (disk f') = (files (disk f))(name := None) \<and>
      named name (disk f) i \<and> free_blocks (superblock f') = free_blocks (superblock f) +
        of_nat (length (filter (\<lambda>b. b \<noteq> 0) (inode_blocks (inode_read i (disk f))))) \<and>
      superblock_of (take 24 (disk f' 0)) = superblock f'"
proof (cases "files (disk f) name")
  case None
  then show ?thesis using fs_delete_refused [OF assms] by simp
next
  case (Some c)
  then obtain i where i: "named name (disk f) i" using files_iff assms(1) by (auto simp: fs_inv_def)
  show ?thesis
    by (rule fs_delete_named [OF assms(1) i]) (use Some i in \<open>auto simp: read_sector_def\<close>)
qed

theorem fs_delete_removes_file_witness:
  "\<exists>f' ms. fs_delete hello fs_hello = (f', 0, ms) \<and> files (disk f') = (\<lambda>_. None)"
  using fs_delete_removes_file [OF fs_hello_state(1), of hello] fs_hello_state(3) by (auto simp: fun_eq_iff)

text \<open>A disk without the magic number is formatted to an empty file system, with the
  invariant; mounting again finds it and changes nothing.\<close>

theorem fs_init_formats_once:
  assumes "disk_ok (disk f)" "magic (superblock_of (take 24 (disk f 0))) \<noteq> FS_MAGIC"
  shows "\<exists>f' ms. fs_init f = (f', ms) \<and> fs_inv f' \<and> files (disk f') = (\<lambda>_. None) \<and>
    free_blocks (superblock f') = 1024 \<and> fst (fs_init f') = f'"
proof -
  obtain f' ms where f': "fs_init f = (f', ms)" "fs_inv f'" "superblock f' = formatted_sb" "files (disk f') = (\<lambda>_. None)"
    "superblock_of (take 24 (disk f' 0)) = formatted_sb" "\<And>i. i < 32 \<Longrightarrow> \<not> used_at (disk f') i"
    by (rule fs_init_format [OF assms]) blast
  then have "fst (fs_init f') = f'" using fs_init_found [of f'] by (simp add: formatted_sb_def)
  with f' show ?thesis by (auto simp: formatted_sb_def)
qed

theorem fs_init_formats_once_witness:
  "\<exists>f' ms. fs_init fs_blank = (f', ms) \<and> files (disk f') = (\<lambda>_. None) \<and> fst (fs_init f') = f'"
  using fs_init_formats_once [OF fs_blank_ready] by blast

text \<open>C21. What is written is read back: for data of at most one block, \<open>fs_read\<close> after \<open>fs_write\<close> gives the
  data, also after the disk is mounted again.\<close>

theorem fs_write_read_roundtrip:
  fixes sz z :: u32
  assumes "fs_inv f" "files (disk f) name \<noteq> None" "0 < unat sz" "unat sz \<le> 512" "unat sz \<le> length data"
    and "k < unat (total_blocks (superblock f))" "\<not> taken (disk f) k" "free_blocks (superblock f) \<noteq> 0"
    and "unat sz \<le> unat z" "unat sz \<le> length buf" "magic (superblock f) = FS_MAGIC"
  shows "\<exists>f' ms buf'. fs_write name data sz f = Some (f', 0, ms) \<and>
    fs_read name buf z (fst (fs_init f')) = Some (buf', int (unat sz), []) \<and>
    take (unat sz) buf' = take (unat sz) data"
proof -
  obtain i where i: "named name (disk f) i" using files_None_iff assms(1,2) by (auto simp: fs_inv_def)
  have N: "(unat sz + 511) div 512 = 1" using assms(3,4) by simp
  have fr: "(unat sz + 511) div 512 \<le> unat (free_blocks (superblock f))"
    using assms(8) by (simp add: N Suc_le_eq unat_gt_0)
  obtain f' ms where f': "fs_write name data sz f = Some (f', 0, ms)" "fs_inv f'"
    "files (disk f') = (files (disk f))(name \<mapsto> take (unat sz) (concat (replicate ((unat sz + 511) div 512)
       (padded (chunk_at data (unat sz) ((unat sz + 511) div 512 - 1))))))"
    "superblock f' = (superblock f)\<lparr>free_blocks := free_blocks (superblock f) - of_nat ((unat sz + 511) div 512)\<rparr>"
    "superblock_of (take 24 (read_sector 0 (disk f'))) = superblock f'"
    by (rule fs_write_named [OF assms(1) i assms(5) _ assms(6,7) fr]) (use assms(4) in simp_all)
  have "fst (fs_init f') = f'" using fs_init_found [of f'] f'(4,5) assms(11) by (simp add: read_sector_def)
  moreover have "files (disk f') name = Some (take (unat sz) data)"
    using f'(3) assms(4,5) by (simp add: N padded_def chunk_at_def)
  then obtain buf' where "fs_read name buf z f' = Some (buf', int (unat sz), [])" "take (unat sz) buf' = take (unat sz) data"
    using afs.load_whole [OF f'(2), of name "take (unat sz) data" z buf] assms(5,9,10) by auto
  ultimately show ?thesis using f'(1) by auto
qed

theorem fs_write_read_roundtrip_witness:
  "\<exists>f' ms buf'. fs_write hello [1, 2, 3, 4] 3 fs_hello = Some (f', 0, ms) \<and>
     fs_read hello [0, 0, 0, 0] 4 (fst (fs_init f')) = Some (buf', 3, []) \<and> take 3 buf' = [1, 2, 3]"
  using fs_write_read_roundtrip [OF fs_hello_state(1), of hello 3 "[1, 2, 3, 4]" 0 4 "[0, 0, 0, 0]"] fs_hello_state
  by (simp add: formatted_sb_def)

text \<open>A name of 64 or more characters is cut to 63 when the inode is made but compared whole when
  it is looked up: \<open>fs_create\<close> succeeds, and the file cannot be found under its name.\<close>

theorem fs_create_long_name_lost:
  assumes "fs_inv f" "0 \<notin> set name" "64 \<le> length name" "i < 32" "\<not> used_at (disk f) i"
  shows "\<exists>f' ms. fs_create name f = (f', 0, ms) \<and> inode_find name (disk f') = -1"
proof -
  let ?d = "disk f"
  have T: "table_inv ?d" "disk_ok ?d" using assms(1) by (simp_all add: fs_inv_def table_inv_def)
  have short: "name_str x \<noteq> name" if z: "0 \<in> set (inode_name x)" "length (inode_name x) = 64" for x
  proof -
    obtain ys zs where "inode_name x = ys @ 0 # zs" "0 \<notin> set ys" using split_list_first [OF z(1)] by auto
    then have "length (takeWhile (\<lambda>c. c \<noteq> 0) (inode_name x)) < 64"
      using z(2) by (auto simp: takeWhile_append)
    then show ?thesis using name_str_array [OF z(1)] assms(3) by auto
  qed
  obtain k where k: "inode_alloc ?d = int k" "k < 32"
    by (cases rule: inode_alloc_cases [of ?d]) (use assms(4,5) in blast)+
  let ?x = "\<lparr>inode_name = take 63 name @ [0], inode_size = 0, inode_blocks = replicate 32 0, inode_used = 1,
    inode_padding = replicate 3 0\<rparr>"
  let ?dd = "inode_write k ?x ?d"
  have x: "inode_ok ?x" using assms(3) by (simp add: inode_ok_def)
  have old: "\<not> named name ?d j" for j
    using T(1) short [of "inode_read j ?d"] by (auto simp: named_def table_inv_def inode_inv_def inode_ok_def)
  then have nm: "\<not> named name ?dd j" for j
    using inode_write_read [OF T(2) x k(2), of j] short [of ?x] assms(3) by (auto simp: named_def used_at_def)
  have gone: "inode_find name ?d = -1" "inode_find name ?dd = -1"
    using inode_find_cases [OF assms(2), of ?d] inode_find_cases [OF assms(2), of ?dd] old nm by metis+
  moreover have "fs_strcpy (replicate 64 0) name MAX_FILENAME = take 63 name @ [0]"
    using fs_strcpy_loop_spec [of name 0 64 "replicate 64 0"] assms(2,3) by (simp add: fs_strcpy_def MAX_FILENAME_def)
  ultimately have "fs_create name f = (f\<lparr>disk := ?dd\<rparr>, 0, created name)"
    using k by (simp add: fs_create_def zero_inode created_def)
  then show ?thesis using gone(2) by simp
qed

theorem fs_create_long_name_lost_witness:
  "\<exists>f' ms. fs_create (replicate 64 0x61) fs_boot = (f', 0, ms) \<and> inode_find (replicate 64 0x61) (disk f') = -1"
  using fs_create_long_name_lost [OF fs_boot_state(1), of "replicate 64 0x61" 0] fs_boot_state(4) [of 0] by simp

end
