(* ===== verification/Machine.thy ===== *)
theory Machine
  imports Process Fs
begin

text \<open>
  The kernel as a whole: the states of its components side by side, its output, and the byte
  accesses it makes through pointers. An address of the heap window is a byte of the heap
  store, every other address goes through the processor's page walk to physical memory, and
  an access to an unmapped page is \<open>None\<close>. The theory holds no code of its own: it is what the
  system calls, the program loader and the shell share.
\<close>

record kernel =
  ksched :: sched
  kfs :: fs
  kvm :: vmm
  kpm :: pmm
  kcon :: console

text \<open>Where control goes at the end of a handler: back to the caller, into a halt for good, or to ring 3.\<close>

datatype control = Returns | Halts | Enters u32 u32

definition kprint :: "msg list \<Rightarrow> kernel \<Rightarrow> kernel option" where
  "kprint ms k = do { c \<leftarrow> say ms (kcon k); Some (k\<lparr>kcon := c\<rparr>) }"

abbreviation kheap_of :: "kernel \<Rightarrow> heap" where "kheap_of k \<equiv> kmem (ksched k)"

definition set_heap :: "heap \<Rightarrow> kernel \<Rightarrow> kernel" where
  "set_heap h k = k\<lparr>ksched := (ksched k)\<lparr>kmem := h\<rparr>\<rparr>"

definition kmalloc_k :: "u32 \<Rightarrow> kernel \<Rightarrow> (kernel \<times> u32) option" where
  "kmalloc_k n k = do { (h, p, ms) \<leftarrow> kmalloc n (kheap_of k); k \<leftarrow> kprint ms (set_heap h k); Some (k, p) }"

definition kfree_k :: "u32 \<Rightarrow> kernel \<Rightarrow> kernel option" where
  "kfree_k p k = do { h \<leftarrow> kfree p (kheap_of k); Some (set_heap h k) }"

subsection \<open>Bytes of words\<close>

definition byte_of :: "u32 \<Rightarrow> nat \<Rightarrow> u8" where
  "byte_of w j = ucast (drop_bit (8 * j) w)"

definition with_byte :: "u32 \<Rightarrow> nat \<Rightarrow> u8 \<Rightarrow> u32" where
  "with_byte w j c = (w AND NOT (push_bit (8 * j) 0xFF)) OR push_bit (8 * j) (ucast c)"

definition word_addr :: "u32 \<Rightarrow> u32" where "word_addr a = a AND NOT 3"

definition byte_index :: "u32 \<Rightarrow> nat" where "byte_index a = unat (a AND 3)"

definition in_window :: "u32 \<Rightarrow> bool" where "in_window a \<longleftrightarrow> a - HEAP_START < HEAP_SIZE"

definition load8 :: "u32 \<Rightarrow> kernel \<Rightarrow> u8 option" where
  "load8 a k =
     (if in_window a then Some (byte_of (hmem (kheap_of k) (word_addr a)) (byte_index a))
      else do { pa \<leftarrow> kaddr (kvm k) a; Some (byte_of (pmem (kvm k) (word_addr pa)) (byte_index pa)) })"

definition put_at :: "u32 \<Rightarrow> u8 \<Rightarrow> (u32 \<Rightarrow> u32) \<Rightarrow> u32 \<Rightarrow> u32" where
  "put_at a c m = m(word_addr a := with_byte (m (word_addr a)) (byte_index a) c)"

definition store8 :: "u32 \<Rightarrow> u8 \<Rightarrow> kernel \<Rightarrow> kernel option" where
  "store8 a c k =
     (if in_window a then Some (set_heap ((kheap_of k)\<lparr>hmem := put_at a c (hmem (kheap_of k))\<rparr>) k)
      else do { pa \<leftarrow> kaddr (kvm k) a; Some (k\<lparr>kvm := (kvm k)\<lparr>pmem := put_at pa c (pmem (kvm k))\<rparr>\<rparr>) })"

text \<open>The bytes that can be read from an address on, up to a limit: they end at the first fault.\<close>

fun readable :: "u32 \<Rightarrow> nat \<Rightarrow> kernel \<Rightarrow> bytes" where
  "readable a 0 k = []"
| "readable a (Suc n) k = (case load8 a k of None \<Rightarrow> [] | Some c \<Rightarrow> c # readable (a + 1) n k)"

fun store_bytes :: "u32 \<Rightarrow> bytes \<Rightarrow> kernel \<Rightarrow> kernel option" where
  "store_bytes a [] k = Some k"
| "store_bytes a (c # cs) k = do { k \<leftarrow> store8 a c k; store_bytes (a + 1) cs k }"

text \<open>
  \<open>fs_read\<close> into memory: the buffer is what is readable at its address, and the bytes read
  are stored there. \<open>fs_write\<close> from memory.
\<close>

definition fs_read_k :: "bytes \<Rightarrow> u32 \<Rightarrow> u32 \<Rightarrow> kernel \<Rightarrow> (kernel \<times> int) option" where
  "fs_read_k name buf sz k =
     do { (bs, n, ms) \<leftarrow> fs_read name (readable buf (unat sz) k) sz (kfs k);
          k \<leftarrow> store_bytes buf (take (nat n) bs) k;
          k \<leftarrow> kprint ms k;
          Some (k, n) }"

definition fs_write_k :: "bytes \<Rightarrow> u32 \<Rightarrow> u32 \<Rightarrow> kernel \<Rightarrow> (kernel \<times> int) option" where
  "fs_write_k name data sz k =
     do { (f, n, ms) \<leftarrow> fs_write name (readable data (unat sz) k) sz (kfs k);
          k \<leftarrow> kprint ms (k\<lparr>kfs := f\<rparr>);
          Some (k, n) }"

subsection \<open>Bytes of the heap\<close>

lemma byte_index_less [simp]: "byte_index a < 4"
proof -
  have "a AND 3 = take_bit 2 a" by (simp add: take_bit_eq_mask mask_eq_exp_minus_1)
  then show ?thesis by (simp add: byte_index_def take_bit_eq_mod unat_mod)
qed

lemma byte_of_with_byte:
  assumes "i < 4" "j < 4"
  shows "byte_of (with_byte w j c) i = (if i = j then c else byte_of w i)"
proof (rule bit_word_eqI)
  fix n assume n: "n < LENGTH(8)"
  have m: "(0xFF :: u32) = mask 8" by (simp add: mask_eq_exp_minus_1)
  have "bit (byte_of (with_byte w j c) i) n = bit (with_byte w j c) (8 * i + n)"
    using n by (simp add: byte_of_def bit_simps)
  also have "\<dots> = (if i = j then bit c n else bit w (8 * i + n))"
  proof (cases "i = j")
    case False
    then have "8 * i + n < 8 * j \<or> 8 * j + 8 \<le> 8 * i + n" using n by auto
    then show ?thesis using False n assms by (auto simp: with_byte_def m bit_simps dest: bit_imp_le_length)
  qed (use n assms in \<open>auto simp: with_byte_def m bit_simps\<close>)
  finally show "bit (byte_of (with_byte w j c) i) n = bit (if i = j then c else byte_of w i) n"
    using n by (simp add: byte_of_def bit_simps)
qed

lemma address_split: "a = word_addr a + of_nat (byte_index a)"
proof -
  have "a = (a AND NOT 3) OR (a AND 3)" by (rule bit_word_eqI) (auto simp: bit_simps)
  moreover have "(a AND NOT 3) + (a AND 3) = (a AND NOT 3) OR (a AND 3)"
    by (rule disjunctive_add_eq_or, rule bit_word_eqI) (auto simp: bit_simps)
  ultimately show ?thesis by (simp add: word_addr_def byte_index_def)
qed

lemma put_at_byte:
  "byte_of (put_at a c m (word_addr b)) (byte_index b) = (if b = a then c else byte_of (m (word_addr b)) (byte_index b))"
proof (cases "word_addr b = word_addr a")
  case True
  then have "byte_index b = byte_index a \<longleftrightarrow> b = a" using address_split [of a] address_split [of b] by metis
  then show ?thesis using True by (simp add: put_at_def byte_of_with_byte)
qed (auto simp: put_at_def)

lemma set_heap_simps [simp]:
  "kmem (ksched (set_heap h k)) = h" "kfs (set_heap h k) = kfs k" "kvm (set_heap h k) = kvm k" "kpm (set_heap h k) = kpm k"
  "kcon (set_heap h k) = kcon k" "procs (ksched (set_heap h k)) = procs (ksched k)"
  "current_process (ksched (set_heap h k)) = current_process (ksched k)"
  "process_list (ksched (set_heap h k)) = process_list (ksched k)"
  "set_heap h (set_heap h' k) = set_heap h k" "set_heap (kmem (ksched k)) k = k"
  by (simp_all add: set_heap_def)

lemma load8_window: "in_window a \<Longrightarrow> in_window b \<Longrightarrow> store8 a c k = Some k' \<Longrightarrow>
    load8 b k' = (if b = a then Some c else load8 b k)"
  by (auto simp: load8_def store8_def put_at_byte)

lemma unat_word_addr: "unat (word_addr a) = unat a - unat a mod 4"
proof -
  have "a - (a AND 3) = word_addr a" using address_split [of a] by (simp add: byte_index_def algebra_simps)
  moreover have "a AND 3 = take_bit 2 a" by (simp add: take_bit_eq_mask mask_eq_exp_minus_1)
  then have "unat (a AND 3) = unat a mod 4" by (simp add: take_bit_eq_mod unat_mod)
  ultimately show ?thesis by (metis mod_less_eq_dividend unat_sub_u32)
qed

lemma word_addr_of_nat: "x < 4294967296 \<Longrightarrow> word_addr (of_nat x) = of_nat (x - x mod 4)"
  by (simp add: word_eq_unat unat_word_addr unat_of_nat_u32 del: of_nat_diff)

lemma in_window_of_nat: "0x1000000 \<le> x \<Longrightarrow> x < 0x1100000 \<Longrightarrow> in_window (of_nat x)"
  by (simp add: in_window_def word_less_nat_alt HEAP_START_def HEAP_SIZE_def unat_sub_u32 unat_of_nat_u32)

lemma live_size: "heap_seg a bs m \<Longrightarrow> (p, n) \<in> live a bs \<Longrightarrow> n mod 4 = 0"
  by (induction a bs m rule: heap_seg.induct) (auto split: if_splits)

lemma put_at_block:
  assumes "heap_rep h bs" "(p, n) \<in> live 0x1000000 bs" "p \<le> x" "x < p + n"
  shows "heap_rep (h\<lparr>hmem := put_at (of_nat x) c (hmem h)\<rparr>) bs"
    "keeps (live 0x1000000 bs - {(p, n)}) h (h\<lparr>hmem := put_at (of_nat x) c (hmem h)\<rparr>)" "in_window (of_nat x)"
proof -
  let ?y = "x - x mod 4"
  have seg: "heap_seg 0x1000000 bs (hmem h)" using assms(1) by (simp add: heap_rep_def)
  have r: "0x100000C \<le> p" "p + n \<le> 0x1100000" using live_range [OF assms(2)] live_bound [OF seg assms(2)] by simp_all
  have al: "p mod 4 = 0" "n mod 4 = 0" using live_aligned [OF seg _ assms(2)] live_size [OF seg assms(2)] by simp_all
  have y: "p \<le> ?y" "?y + 4 \<le> p + n" "?y mod 4 = 0" using assms(3,4) al by presburger+
  show "in_window (of_nat x)" using in_window_of_nat assms(3,4) r by simp
  have "put_at (of_nat x) c (hmem h) = wput ?y (with_byte (hmem h (of_nat ?y)) (byte_index (of_nat x)) c) (hmem h)"
    using r assms(4) by (simp add: put_at_def wput_def word_addr_of_nat)
  then show "heap_rep (h\<lparr>hmem := put_at (of_nat x) c (hmem h)\<rparr>) bs"
    "keeps (live 0x1000000 bs - {(p, n)}) h (h\<lparr>hmem := put_at (of_nat x) c (hmem h)\<rparr>)"
    using payload_write(2,3) [OF assms(1,2) y] by simp_all
qed

lemma store_bytes_block:
  assumes "heap_rep (kheap_of k) bs" "(p, n) \<in> live 0x1000000 bs" "p \<le> x" "x + length cs \<le> p + n"
  shows "\<exists>h'. store_bytes (of_nat x) cs k = Some (set_heap h' k) \<and> heap_rep h' bs \<and>
    keeps (live 0x1000000 bs - {(p, n)}) (kheap_of k) h' \<and>
    (\<forall>b. in_window b \<longrightarrow> load8 b (set_heap h' k) =
       (if x \<le> unat b \<and> unat b < x + length cs then Some (cs ! (unat b - x)) else load8 b k))"
  using assms
proof (induction cs arbitrary: k x)
  case Nil
  then show ?case by (intro exI [of _ "kheap_of k"]) (auto simp: keeps_def)
next
  case (Cons c cs)
  let ?h = "(kheap_of k)\<lparr>hmem := put_at (of_nat x) c (hmem (kheap_of k))\<rparr>"
  have x: "x < p + n" using Cons.prems(4) by simp
  note w = put_at_block [OF Cons.prems(1-3) x]
  have st: "store8 (of_nat x) c k = Some (set_heap ?h k)" using w(3) by (simp add: store8_def)
  have rep: "heap_rep (kheap_of (set_heap ?h k)) bs" using w(1) [of c] by simp
  obtain h' where h': "store_bytes (of_nat (x + 1)) cs (set_heap ?h k) = Some (set_heap h' (set_heap ?h k))"
    "heap_rep h' bs" "keeps (live 0x1000000 bs - {(p, n)}) (kheap_of (set_heap ?h k)) h'"
    "\<forall>b. in_window b \<longrightarrow> load8 b (set_heap h' (set_heap ?h k)) =
       (if x + 1 \<le> unat b \<and> unat b < x + 1 + length cs then Some (cs ! (unat b - (x + 1))) else load8 b (set_heap ?h k))"
    using Cons.IH [OF rep Cons.prems(2), of "x + 1"] Cons.prems(3,4) by auto
  have "p + n \<le> 0x1100000" using Cons.prems(1,2) live_bound by (auto simp: heap_rep_def)
  then have xx: "unat (of_nat x :: u32) = x" using x by (simp add: unat_of_nat_u32)
  have "load8 b (set_heap h' k) = (if x \<le> unat b \<and> unat b < x + length (c # cs) then Some ((c # cs) ! (unat b - x)) else load8 b k)"
    if "in_window b" for b
  proof -
    have e: "b = of_nat x \<longleftrightarrow> unat b = x" using xx by (metis word_eq_unat)
    have n: "(c # cs) ! (unat b - x) = (if unat b = x then c else cs ! (unat b - (x + 1)))" if "x \<le> unat b"
      using that by (simp add: nth_Cons')
    show ?thesis
      using h'(4) [rule_format, OF that] load8_window [OF w(3) that st] e n by (cases "unat b = x") auto
  qed
  then show ?case
    using h'(1,2) st keeps_trans [OF w(2) [of c]] h'(3) by (intro exI [of _ h']) (simp add: add.commute)
qed

lemma readable_window:
  assumes "0x1000000 \<le> x" "x + n \<le> 0x1100000"
  shows "length (readable (of_nat x) n k) = n \<and> (\<forall>i < n. load8 (of_nat (x + i)) k = Some (readable (of_nat x) n k ! i))"
  using assms
proof (induction n arbitrary: x)
  case (Suc n)
  have l: "load8 (of_nat x) k = Some (byte_of (hmem (kheap_of k) (word_addr (of_nat x))) (byte_index (of_nat x)))" (is "_ = Some ?c")
    using in_window_of_nat [of x] Suc.prems by (simp add: load8_def)
  have IH: "length (readable (of_nat (x + 1)) n k) = n"
    "\<forall>i < n. load8 (of_nat (x + 1 + i)) k = Some (readable (of_nat (x + 1)) n k ! i)"
    using Suc.IH [of "x + 1"] Suc.prems by simp_all
  have r: "readable (of_nat x) (Suc n) k = ?c # readable (of_nat (x + 1)) n k" using l by (simp add: add.commute)
  show ?case unfolding r using IH l by (auto simp: nth_Cons ac_simps split: nat.split)
qed simp

lemma readable_cong:
  assumes "\<And>i. i < n \<Longrightarrow> load8 (a + of_nat i) k' = load8 (a + of_nat i) k"
  shows "readable a n k' = readable a n k"
  using assms
proof (induction n arbitrary: a)
  case (Suc n)
  have "readable (a + 1) n k' = readable (a + 1) n k"
    using Suc.prems [of "Suc i" for i] by (intro Suc.IH) (simp add: add.assoc)
  then show ?case using Suc.prems [of 0] by (simp split: option.split)
qed simp

lemma readable_eqI:
  assumes "\<And>i. i < length cs \<Longrightarrow> load8 (a + of_nat i) k = Some (cs ! i)"
  shows "readable a (length cs) k = cs"
  using assms
proof (induction cs arbitrary: a)
  case (Cons c cs)
  have "readable (a + 1) (length cs) k = cs"
    using Cons.prems [of "Suc i" for i] by (intro Cons.IH) (simp add: add.assoc)
  then show ?case using Cons.prems [of 0] by simp
qed simp

text \<open>The bytes just stored in a block are the ones read back.\<close>

lemma readable_store_block:
  assumes "heap_rep (kheap_of k) bs" "(p, n) \<in> live 0x1000000 bs" "length cs \<le> n"
  obtains h' where "store_bytes (of_nat p) cs k = Some (set_heap h' k)" "heap_rep h' bs"
    "keeps (live 0x1000000 bs - {(p, n)}) (kheap_of k) h'" "readable (of_nat p) (length cs) (set_heap h' k) = cs"
proof -
  obtain h' where h': "store_bytes (of_nat p) cs k = Some (set_heap h' k)" "heap_rep h' bs"
    "keeps (live 0x1000000 bs - {(p, n)}) (kheap_of k) h'"
    "\<forall>b. in_window b \<longrightarrow> load8 b (set_heap h' k) =
       (if p \<le> unat b \<and> unat b < p + length cs then Some (cs ! (unat b - p)) else load8 b k)"
    using store_bytes_block [OF assms(1,2), of p cs] assms(3) by auto
  have seg: "heap_seg 0x1000000 bs (hmem (kheap_of k))" using assms(1) by (simp add: heap_rep_def)
  have r: "0x100000C \<le> p" "p + n \<le> 0x1100000" using live_range [OF assms(2)] live_bound [OF seg assms(2)] by simp_all
  have "load8 (of_nat p + of_nat i) (set_heap h' k) = Some (cs ! i)" if "i < length cs" for i
  proof -
    have e: "of_nat p + of_nat i = (of_nat (p + i) :: u32)" by simp
    have "unat (of_nat (p + i) :: u32) = p + i" using that assms(3) r by (subst unat_of_nat_u32) simp_all
    then show ?thesis
      using h'(4) in_window_of_nat [of "p + i"] that assms(3) r unfolding e by (auto simp del: of_nat_add)
  qed
  then show thesis using that h' readable_eqI [of cs "of_nat p" "set_heap h' k"] by blast
qed

subsection \<open>Bytes of mapped pages\<close>

definition phys_byte :: "(u32 \<Rightarrow> u32) \<Rightarrow> u32 \<Rightarrow> u8" where
  "phys_byte m a = byte_of (m (word_addr a)) (byte_index a)"

lemma phys_byte_put_at: "phys_byte (put_at a c m) b = (if b = a then c else phys_byte m b)"
  by (simp add: phys_byte_def put_at_byte)

definition no_table :: "vmm \<Rightarrow> u32 \<Rightarrow> bool" where
  "no_table s pa \<longleftrightarrow> (\<forall>d < 1024. pde_present s d \<longrightarrow> table_frame s d \<noteq> frame_of pa)"

lemma word_addr_entry: "\<exists>i. word_addr pa = frame_of pa + 4 * i \<and> unat i < 1024"
proof -
  let ?i = "of_nat (unat pa mod 4096 div 4) :: u32"
  have "unat pa mod 4096 div 4 < 1024" by (simp add: less_mult_imp_div_less)
  then have i: "unat ?i = unat pa mod 4096 div 4" "unat ?i < 1024" by (simp_all add: unat_of_nat_u32)
  have "unat pa - unat pa mod 4 = unat pa div 4096 * 4096 + 4 * (unat pa mod 4096 div 4)"
  proof -
    have "unat pa mod 4096 mod 4 = unat pa mod 4" by (simp add: mod_mod_cancel)
    then show ?thesis
      using div_mult_mod_eq [of "unat pa" 4096] div_mult_mod_eq [of "unat pa mod 4096" 4] by linarith
  qed
  then have "unat (word_addr pa) = unat (frame_of pa + 4 * ?i)"
    using unat_entry [of "frame_of pa" ?i] i by (simp add: unat_word_addr unat_frame)
  then show ?thesis using i(2) word_eq_unat by blast
qed

lemma walk_put_at: "no_table s pa \<Longrightarrow> mmu_walk (s\<lparr>pmem := put_at pa c (pmem s)\<rparr>) va = mmu_walk s va"
  using word_addr_entry [of pa] mmu_walk_store_other [of "frame_of pa" _ s _ va] by (auto simp: no_table_def put_at_def)

lemma vmm_inv_cong:
  assumes "vmm_inv s m" "page_directory s' = page_directory s" "paging s' = paging s" "\<And>va. mmu_walk s' va = mmu_walk s va"
  shows "vmm_inv s' m"
proof -
  have "pde_present s' = pde_present s" "table_frame s' = table_frame s" "ident s' = ident s"
    using assms(2,4) by (simp_all add: fun_eq_iff pde_present_def table_frame_def ident_def)
  then show ?thesis using assms by (simp add: vmm_inv_def)
qed

text \<open>A stretch of mapped memory outside the heap window: its bytes are distinct and hold no page table.\<close>

definition mapped :: "kernel \<Rightarrow> u32 \<Rightarrow> nat \<Rightarrow> (nat \<Rightarrow> u32) \<Rightarrow> bool" where
  "mapped k a n pa \<longleftrightarrow> paging (kvm k) \<and> inj_on pa {..<n} \<and>
     (\<forall>i < n. \<not> in_window (a + of_nat i) \<and> mmu_walk (kvm k) (a + of_nat i) = Some (pa i) \<and> no_table (kvm k) (pa i))"

lemma mapped_Suc:
  "mapped k a (Suc n) pa \<longleftrightarrow> mapped k (a + 1) n (\<lambda>i. pa (Suc i)) \<and> \<not> in_window a \<and> mmu_walk (kvm k) a = Some (pa 0) \<and>
     no_table (kvm k) (pa 0) \<and> (\<forall>i < n. pa (Suc i) \<noteq> pa 0)"
proof -
  have "inj_on pa {..<Suc n} \<longleftrightarrow> inj_on (\<lambda>i. pa (Suc i)) {..<n} \<and> (\<forall>i < n. pa (Suc i) \<noteq> pa 0)"
    by (auto simp: inj_on_def less_Suc_eq_0_disj) blast
  moreover have "(\<forall>i < Suc n. \<not> in_window (a + of_nat i) \<and> mmu_walk (kvm k) (a + of_nat i) = Some (pa i) \<and> no_table (kvm k) (pa i)) \<longleftrightarrow>
      (\<not> in_window a \<and> mmu_walk (kvm k) a = Some (pa 0) \<and> no_table (kvm k) (pa 0)) \<and>
      (\<forall>i < n. \<not> in_window (a + 1 + of_nat i) \<and> mmu_walk (kvm k) (a + 1 + of_nat i) = Some (pa (Suc i)) \<and> no_table (kvm k) (pa (Suc i)))"
    by (subst All_less_Suc2) (simp add: add.assoc)
  ultimately show ?thesis unfolding mapped_def by blast
qed

definition same_map :: "vmm \<Rightarrow> vmm \<Rightarrow> bool" where
  "same_map s s' \<longleftrightarrow> page_directory s' = page_directory s \<and> paging s' = paging s \<and> (\<forall>va. mmu_walk s' va = mmu_walk s va)"

lemma mapped_same: "same_map (kvm k) (kvm k') \<Longrightarrow> mapped k' a n pa = mapped k a n pa"
  by (simp add: mapped_def same_map_def no_table_def pde_present_def table_frame_def)

lemma store_bytes_mapped:
  assumes "mapped k a (length cs) pa"
  shows "\<exists>m. store_bytes a cs k = Some (k\<lparr>kvm := (kvm k)\<lparr>pmem := m\<rparr>\<rparr>) \<and> same_map (kvm k) ((kvm k)\<lparr>pmem := m\<rparr>) \<and>
    (\<forall>i < length cs. phys_byte m (pa i) = cs ! i) \<and>
    (\<forall>q. (\<forall>i < length cs. q \<noteq> pa i) \<longrightarrow> phys_byte m q = phys_byte (pmem (kvm k)) q)"
  using assms
proof (induction cs arbitrary: k a pa)
  case Nil
  then show ?case by (intro exI [of _ "pmem (kvm k)"]) (simp add: same_map_def)
next
  case (Cons c cs)
  have m: "mapped k (a + 1) (length cs) (\<lambda>i. pa (Suc i))" "\<not> in_window a" "mmu_walk (kvm k) a = Some (pa 0)"
    "no_table (kvm k) (pa 0)" "\<forall>i < length cs. pa (Suc i) \<noteq> pa 0" "paging (kvm k)"
    using Cons.prems by (simp_all add: mapped_Suc) (simp add: mapped_def)
  let ?k = "k\<lparr>kvm := (kvm k)\<lparr>pmem := put_at (pa 0) c (pmem (kvm k))\<rparr>\<rparr>"
  have st: "store8 a c k = Some ?k" using m by (simp add: store8_def kaddr_def)
  have same: "same_map (kvm k) (kvm ?k)" using walk_put_at [OF m(4)] by (simp add: same_map_def)
  have "mapped ?k (a + 1) (length cs) (\<lambda>i. pa (Suc i))" using m(1) mapped_same [OF same] by blast
  then obtain mm where mm: "store_bytes (a + 1) cs ?k = Some (?k\<lparr>kvm := (kvm ?k)\<lparr>pmem := mm\<rparr>\<rparr>)"
    "same_map (kvm ?k) ((kvm ?k)\<lparr>pmem := mm\<rparr>)" "\<forall>i < length cs. phys_byte mm (pa (Suc i)) = cs ! i"
    "\<forall>q. (\<forall>i < length cs. q \<noteq> pa (Suc i)) \<longrightarrow> phys_byte mm q = phys_byte (pmem (kvm ?k)) q"
    using Cons.IH by blast
  have "\<forall>i < length cs. pa 0 \<noteq> pa (Suc i)" using m(5) by metis
  then have "phys_byte mm (pa 0) = c" using mm(4) by (simp add: phys_byte_put_at)
  then have "\<forall>i < length (c # cs). phys_byte mm (pa i) = (c # cs) ! i" using mm(3) by (auto simp: less_Suc_eq_0_disj)
  moreover have "phys_byte mm q = phys_byte (pmem (kvm k)) q" if "\<forall>i < length (c # cs). q \<noteq> pa i" for q
  proof -
    have "q \<noteq> pa 0" "\<forall>i < length cs. q \<noteq> pa (Suc i)" using that by auto
    then show ?thesis using mm(4) by (simp add: phys_byte_put_at)
  qed
  moreover have "same_map (kvm k) ((kvm k)\<lparr>pmem := mm\<rparr>)" using same mm(2) by (simp add: same_map_def)
  ultimately show ?case using st mm(1) by (intro exI [of _ mm]) simp
qed

lemma load8_mapped: "mapped k a n pa \<Longrightarrow> i < n \<Longrightarrow> load8 (a + of_nat i) k = Some (phys_byte (pmem (kvm k)) (pa i))"
  by (simp add: mapped_def load8_def kaddr_def phys_byte_def)

lemma readable_store_mapped:
  assumes "mapped k a (length cs) pa"
  obtains m where "store_bytes a cs k = Some (k\<lparr>kvm := (kvm k)\<lparr>pmem := m\<rparr>\<rparr>)" "same_map (kvm k) ((kvm k)\<lparr>pmem := m\<rparr>)"
    "readable a (length cs) (k\<lparr>kvm := (kvm k)\<lparr>pmem := m\<rparr>\<rparr>) = cs"
    "\<And>q. (\<forall>i < length cs. q \<noteq> pa i) \<Longrightarrow> phys_byte m q = phys_byte (pmem (kvm k)) q"
proof -
  obtain m where m: "store_bytes a cs k = Some (k\<lparr>kvm := (kvm k)\<lparr>pmem := m\<rparr>\<rparr>)" "same_map (kvm k) ((kvm k)\<lparr>pmem := m\<rparr>)"
    "\<forall>i < length cs. phys_byte m (pa i) = cs ! i"
    "\<forall>q. (\<forall>i < length cs. q \<noteq> pa i) \<longrightarrow> phys_byte m q = phys_byte (pmem (kvm k)) q"
    using store_bytes_mapped [OF assms] by blast
  let ?k = "k\<lparr>kvm := (kvm k)\<lparr>pmem := m\<rparr>\<rparr>"
  have "same_map (kvm k) (kvm ?k)" using m(2) by simp
  from mapped_same [OF this] have "mapped ?k a (length cs) pa" using assms by blast
  then have "readable a (length cs) ?k = cs"
    using m(3) load8_mapped [of ?k a "length cs" pa] by (intro readable_eqI) simp
  then show thesis using that m by blast
qed

lemma readable_mapped_length: "mapped k a n pa \<Longrightarrow> length (readable a n k) = n"
proof (induction n arbitrary: a pa)
  case (Suc n)
  then show ?case using load8_mapped [OF Suc.prems, of 0] by (auto simp: mapped_Suc)
qed simp

subsection \<open>Output and file transfers\<close>

lemma kprint_ok:
  assumes "con_inv (kcon k)" "list_all msg_ok ms"
  obtains c where "kprint ms k = Some (k\<lparr>kcon := c\<rparr>)" "con_inv c"
  using say_delivers [OF assms] by (auto simp: kprint_def)

lemma load8_con [simp]: "load8 a (k\<lparr>kcon := c\<rparr>) = load8 a k" "load8 a (k\<lparr>kfs := f\<rparr>) = load8 a k"
  by (simp_all add: load8_def)

lemma readable_con [simp]: "readable a n (k\<lparr>kcon := c\<rparr>) = readable a n k" "readable a n (k\<lparr>kfs := f\<rparr>) = readable a n k"
  by (rule readable_cong, simp)+

lemma msg_ok_not_found [simp]: "msg_ok (not_found name)"
  by (simp add: msg_ok_def not_found_def)

text \<open>
  A buffer the kernel may store into, whatever kind of memory it is in: the bytes are there,
  and stores into it succeed, are read back, and have a bounded effect.
\<close>

locale byte_region =
  fixes region :: "kernel \<Rightarrow> u32 \<Rightarrow> nat \<Rightarrow> bool"
    and effect :: "kernel \<Rightarrow> u32 \<Rightarrow> nat \<Rightarrow> kernel \<Rightarrow> bool"
  assumes present: "region k a n \<Longrightarrow> length (readable a n k) = n"
    and store: "region k a n \<Longrightarrow> length cs \<le> n \<Longrightarrow>
      \<exists>k'. store_bytes a cs k = Some k' \<and> readable a (length cs) k' = cs \<and> effect k a n k'"
    and outside: "effect k a n k' \<Longrightarrow> kfs k' = kfs k \<and> kcon k' = kcon k \<and> kpm k' = kpm k"
begin

lemma fs_read_found:
  assumes "region k buf (unat sz)" "fs_inv (kfs k)" "files (disk (kfs k)) name = Some data"
  shows "\<exists>k'. fs_read_k name buf sz k = Some (k', int (min (unat sz) (length data))) \<and> effect k buf (unat sz) k' \<and>
    readable buf (min (unat sz) (length data)) k' = take (unat sz) data"
proof -
  let ?n = "min (unat sz) (length data)"
  have "fs_read name (readable buf (unat sz) k) sz (kfs k) =
      Some (take ?n data @ drop ?n (readable buf (unat sz) k), int ?n, [])"
    using present [OF assms(1)] by (intro afs.load_found [OF assms(2,3)]) simp_all
  moreover have "length (take (unat sz) data) = ?n" "take ?n data = take (unat sz) data" by (simp_all add: min_def)
  moreover from this obtain k' where "store_bytes buf (take (unat sz) data) k = Some k'"
    "readable buf (length (take (unat sz) data)) k' = take (unat sz) data" "effect k buf (unat sz) k'"
    using store [OF assms(1), of "take (unat sz) data"] by auto
  ultimately show ?thesis by (intro exI [of _ k']) (simp add: fs_read_k_def kprint_def)
qed

end

definition block_region :: "kernel \<Rightarrow> u32 \<Rightarrow> nat \<Rightarrow> bool" where
  "block_region k a n \<longleftrightarrow> (\<exists>bs m. heap_rep (kheap_of k) bs \<and> (unat a, m) \<in> live 0x1000000 bs \<and> n \<le> m)"

definition block_effect :: "kernel \<Rightarrow> u32 \<Rightarrow> nat \<Rightarrow> kernel \<Rightarrow> bool" where
  "block_effect k a n k' \<longleftrightarrow> (\<exists>h'. k' = set_heap h' k \<and>
     (\<forall>bs m. heap_rep (kheap_of k) bs \<longrightarrow> (unat a, m) \<in> live 0x1000000 bs \<longrightarrow> n \<le> m \<longrightarrow>
        heap_rep h' bs \<and> keeps (live 0x1000000 bs - {(unat a, m)}) (kheap_of k) h'))"

definition page_region :: "kernel \<Rightarrow> u32 \<Rightarrow> nat \<Rightarrow> bool" where
  "page_region k a n \<longleftrightarrow> (\<exists>pa. mapped k a n pa)"

definition page_effect :: "kernel \<Rightarrow> u32 \<Rightarrow> nat \<Rightarrow> kernel \<Rightarrow> bool" where
  "page_effect k a n k' \<longleftrightarrow> (\<exists>m. k' = k\<lparr>kvm := (kvm k)\<lparr>pmem := m\<rparr>\<rparr> \<and> same_map (kvm k) (kvm k') \<and>
     (\<forall>pa. mapped k a n pa \<longrightarrow> (\<forall>q. (\<forall>i < n. q \<noteq> pa i) \<longrightarrow> phys_byte m q = phys_byte (pmem (kvm k)) q)))"

lemma of_nat_unat_u32: "of_nat (unat a) = (a :: u32)"
  by simp

interpretation blocks: byte_region block_region block_effect
proof unfold_locales
  fix k a n
  assume "block_region k a n"
  then obtain bs m where b: "heap_rep (kheap_of k) bs" "(unat a, m) \<in> live 0x1000000 bs" "n \<le> m"
    by (auto simp: block_region_def)
  have seg: "heap_seg 0x1000000 bs (hmem (kheap_of k))" using b(1) by (simp add: heap_rep_def)
  have "0x100000C \<le> unat a" "unat a + m \<le> 0x1100000" using live_range [OF b(2)] live_bound [OF seg b(2)] by simp_all
  then show "length (readable a n k) = n" using readable_window [of "unat a" n k] b(3) by simp
next
  fix k a n and cs :: bytes
  assume "block_region k a n" and len: "length cs \<le> n"
  then obtain bs m where b: "heap_rep (kheap_of k) bs" "(unat a, m) \<in> live 0x1000000 bs" "n \<le> m"
    by (auto simp: block_region_def)
  obtain h' where h': "store_bytes a cs k = Some (set_heap h' k)" "readable a (length cs) (set_heap h' k) = cs"
    using readable_store_block [OF b(1,2), of cs] len b(3) by auto
  have "heap_rep h' bs' \<and> keeps (live 0x1000000 bs' - {(unat a, m')}) (kheap_of k) h'"
    if r: "heap_rep (kheap_of k) bs'" "(unat a, m') \<in> live 0x1000000 bs'" "n \<le> m'" for bs' m'
  proof -
    obtain h2 where h2: "store_bytes a cs k = Some (set_heap h2 k)" "heap_rep h2 bs'"
      "keeps (live 0x1000000 bs' - {(unat a, m')}) (kheap_of k) h2"
      using readable_store_block [OF r(1,2), of cs] len r(3) by auto
    then have "set_heap h2 k = set_heap h' k" using h'(1) by simp
    then have "h2 = h'" by (metis set_heap_simps(1))
    then show ?thesis using h2(2,3) by simp
  qed
  then show "\<exists>k'. store_bytes a cs k = Some k' \<and> readable a (length cs) k' = cs \<and> block_effect k a n k'"
    using h' by (auto simp: block_effect_def)
next
  fix k a n k'
  assume "block_effect k a n k'"
  then show "kfs k' = kfs k \<and> kcon k' = kcon k \<and> kpm k' = kpm k" by (auto simp: block_effect_def)
qed

lemma mapped_take: "mapped k a n pa \<Longrightarrow> m \<le> n \<Longrightarrow> mapped k a m pa"
  by (auto simp: mapped_def intro: inj_on_subset)

interpretation pages: byte_region page_region page_effect
proof unfold_locales
  fix k a n
  assume "page_region k a n"
  then show "length (readable a n k) = n" using readable_mapped_length by (auto simp: page_region_def)
next
  fix k a n and cs :: bytes
  assume "page_region k a n" and len: "length cs \<le> n"
  then obtain pa where pa: "mapped k a n pa" by (auto simp: page_region_def)
  obtain m where m: "store_bytes a cs k = Some (k\<lparr>kvm := (kvm k)\<lparr>pmem := m\<rparr>\<rparr>)" "same_map (kvm k) ((kvm k)\<lparr>pmem := m\<rparr>)"
    "readable a (length cs) (k\<lparr>kvm := (kvm k)\<lparr>pmem := m\<rparr>\<rparr>) = cs"
    "\<And>q. (\<forall>i < length cs. q \<noteq> pa i) \<Longrightarrow> phys_byte m q = phys_byte (pmem (kvm k)) q"
    using readable_store_mapped [OF mapped_take [OF pa len]] by blast
  have "pa' i = pa i" if "mapped k a n pa'" "i < n" for pa' i using that pa by (auto simp: mapped_def)
  then have "page_effect k a n (k\<lparr>kvm := (kvm k)\<lparr>pmem := m\<rparr>\<rparr>)"
    using m(2,4) len unfolding page_effect_def by (intro exI [of _ m]) auto
  then show "\<exists>k'. store_bytes a cs k = Some k' \<and> readable a (length cs) k' = cs \<and> page_effect k a n k'"
    using m(1,3) by blast
next
  fix k a n k'
  assume "page_effect k a n k'"
  then show "kfs k' = kfs k \<and> kcon k' = kcon k \<and> kpm k' = kpm k" by (auto simp: page_effect_def)
qed

lemma fs_read_k_missing:
  assumes "fs_inv (kfs k)" "con_inv (kcon k)" "0 \<notin> set name" "files (disk (kfs k)) name = None"
  obtains c where "fs_read_k name buf sz k = Some (k\<lparr>kcon := c\<rparr>, -1)" "con_inv c"
proof -
  obtain c where "kprint [not_found name] k = Some (k\<lparr>kcon := c\<rparr>)" "con_inv c"
    by (rule kprint_ok [OF assms(2), of "[not_found name]"]) simp_all
  then show thesis using that fs_read_missing [OF assms(1,3,4)] by (simp add: fs_read_k_def)
qed

subsection \<open>Scratch blocks\<close>

lemma kmalloc_k_room:
  assumes "heap_rep (kheap_of k) bs" "0 < unat n" "unat n \<le> 0xFFFFFFFC" "alloc_spec (up4 (unat n)) 0x1000000 bs \<noteq> None"
  obtains h p bs' m where "kmalloc_k n k = Some (set_heap h k, p)" "p \<noteq> 0" "heap_rep h bs'" "unat n \<le> m"
    "live 0x1000000 bs' = insert (unat p, m) (live 0x1000000 bs)" "\<And>j. (unat p, j) \<notin> live 0x1000000 bs"
    "keeps (live 0x1000000 bs) (kheap_of k) h"
proof -
  obtain h p ms bs' where a: "kmalloc n (kheap_of k) = Some (h, p, ms)" "heap_rep h bs'" "keeps (live 0x1000000 bs) (kheap_of k) h"
    "if p = 0 then bs' = bs else \<exists>m. unat n \<le> m \<and> live 0x1000000 bs' = insert (unat p, m) (live 0x1000000 bs) \<and>
       (\<forall>j. (unat p, j) \<notin> live 0x1000000 bs)"
    using kheap.alloc_block [OF assms(1-3)] by (elim exE conjE) (rule that)
  obtain b q where q: "alloc_spec (up4 (unat n)) 0x1000000 bs = Some (b, q)" using assms(4) by auto
  then have h: "kmalloc n (kheap_of k) = Some (h, of_nat q, [])" "heap_rep h b"
    using kmalloc_spec [OF assms(1-3)] a(1) by auto
  then have ms: "ms = []" "p = of_nat q" using a(1) by simp_all
  obtain r where "live 0x1000000 b = insert (q, r) (live 0x1000000 bs)" "0x1000000 + 12 \<le> q"
    using live_alloc [OF q] by metis
  moreover have "heap_seg 0x1000000 b (hmem h)" using h(2) by (simp add: heap_rep_def)
  ultimately have "0x100000C \<le> q" "q + r \<le> 0x1100000" using live_bound [of "0x1000000" b "hmem h" q r] by auto
  then have "p \<noteq> 0" using ms(2) by (simp add: word_eq_unat unat_of_nat_u32)
  then show thesis using that [of h p bs'] a ms by (auto simp: kmalloc_k_def kprint_def)
qed

lemma kfree_k_block:
  assumes "heap_rep (kheap_of k) bs" "(unat p, m) \<in> live 0x1000000 bs"
  obtains h bs' where "kfree_k p k = Some (set_heap h k)" "heap_rep h bs'" "live 0x1000000 bs' = live 0x1000000 bs - {(unat p, m)}"
    "keeps (live 0x1000000 bs - {(unat p, m)}) (kheap_of k) h"
  using kheap.release_block [OF assms] by (auto simp: kfree_k_def)

text \<open>
  The pattern of the callers: a block is taken, a file is read into it, and the block is given
  back. The blocks that were there keep their place and contents.
\<close>

definition scratch_kept :: "kernel \<Rightarrow> blk list \<Rightarrow> blk list \<Rightarrow> kernel \<Rightarrow> bool" where
  "scratch_kept k bs bs' k' \<longleftrightarrow> (\<exists>h c. k' = (set_heap h k)\<lparr>kcon := c\<rparr> \<and> con_inv c \<and> heap_rep h bs' \<and>
     keeps (live 0x1000000 bs) (kheap_of k) h)"

lemma set_heap_con [simp]: "set_heap h (k\<lparr>kcon := c\<rparr>) = (set_heap h k)\<lparr>kcon := c\<rparr>"
  by (simp add: set_heap_def)

lemma scratch_read:
  assumes rep: "heap_rep (kheap_of k) bs" and z: "0 < unat z" "unat z \<le> 0xFFFFFFFC"
    and room: "alloc_spec (up4 (unat z)) 0x1000000 bs \<noteq> None"
    and inv: "fs_inv (kfs k)" "con_inv (kcon k)" and name: "0 \<notin> set name"
  obtains h tmp m k2 n b2 where "kmalloc_k z k = Some (set_heap h k, tmp)" "tmp \<noteq> 0"
    "fs_read_k name tmp z (set_heap h k) = Some (k2, n)" "scratch_kept k bs b2 k2"
    "live 0x1000000 b2 = insert (unat tmp, m) (live 0x1000000 bs)" "unat z \<le> m" "\<And>j. (unat tmp, j) \<notin> live 0x1000000 bs"
    "n = (case files (disk (kfs k)) name of None \<Rightarrow> -1 | Some d \<Rightarrow> int (min (unat z) (length d)))"
    "\<And>d. files (disk (kfs k)) name = Some d \<Longrightarrow> readable tmp (min (unat z) (length d)) k2 = take (unat z) d \<and> kcon k2 = kcon k"
proof -
  let ?L = "live 0x1000000"
  obtain h tmp b2 m where a: "kmalloc_k z k = Some (set_heap h k, tmp)" "tmp \<noteq> 0" "heap_rep h b2" "unat z \<le> m"
    "?L b2 = insert (unat tmp, m) (?L bs)" "\<And>j. (unat tmp, j) \<notin> ?L bs" "keeps (?L bs) (kheap_of k) h"
    using kmalloc_k_room [OF rep z room] by blast
  have inv': "fs_inv (kfs (set_heap h k))" "con_inv (kcon (set_heap h k))" using inv by simp_all
  have rep': "heap_rep (kheap_of (set_heap h k)) b2" using a(3) by simp
  show thesis
  proof (cases "files (disk (kfs k)) name")
    case None
    then obtain c where "fs_read_k name tmp z (set_heap h k) = Some ((set_heap h k)\<lparr>kcon := c\<rparr>, -1)" "con_inv c"
      using fs_read_k_missing [OF inv' name] by auto
    moreover from this(2) have "scratch_kept k bs b2 ((set_heap h k)\<lparr>kcon := c\<rparr>)"
      unfolding scratch_kept_def using a(3,7) by blast
    ultimately show thesis using that [OF a(1,2)] a(4,5,6) None by auto
  next
    case (Some d)
    have "block_region (set_heap h k) tmp (unat z)" unfolding block_region_def using rep' a(4,5) by blast
    then obtain k2 where k2: "fs_read_k name tmp z (set_heap h k) = Some (k2, int (min (unat z) (length d)))"
      "block_effect (set_heap h k) tmp (unat z) k2" "readable tmp (min (unat z) (length d)) k2 = take (unat z) d"
      using blocks.fs_read_found [OF _ inv'(1), of tmp z name d] Some by auto
    obtain h2 where h2: "k2 = set_heap h2 k" "heap_rep h2 b2" "keeps (?L b2 - {(unat tmp, m)}) h h2"
      using k2(2) rep' a(4,5) by (auto simp: block_effect_def)
    have "?L b2 - {(unat tmp, m)} = ?L bs" using a(5,6) by auto
    then have "keeps (?L bs) (kheap_of k) h2" using keeps_trans [OF a(7)] h2(3) by simp
    moreover have "set_heap h2 k = (set_heap h2 k)\<lparr>kcon := kcon k\<rparr>" by (simp add: set_heap_def)
    ultimately have "scratch_kept k bs b2 k2" unfolding scratch_kept_def using h2(1,2) inv(2) by blast
    then show thesis using that [OF a(1,2) k2(1)] a(4,5,6) Some k2(3) h2(1) by auto
  qed
qed

lemma scratch_release:
  assumes "scratch_kept k bs b2 k2" "live 0x1000000 b2 = insert (unat tmp, m) (live 0x1000000 bs)"
    "\<And>j. (unat tmp, j) \<notin> live 0x1000000 bs"
  obtains k3 b3 where "kfree_k tmp k2 = Some k3" "scratch_kept k bs b3 k3" "live 0x1000000 b3 = live 0x1000000 bs"
proof -
  let ?L = "live 0x1000000"
  obtain h c where k2: "k2 = (set_heap h k)\<lparr>kcon := c\<rparr>" "con_inv c" "heap_rep h b2" "keeps (?L bs) (kheap_of k) h"
    using assms(1) by (auto simp: scratch_kept_def)
  have e: "?L b2 - {(unat tmp, m)} = ?L bs" using assms(2,3) by auto
  obtain h3 b3 where f: "kfree_k tmp k2 = Some (set_heap h3 k2)" "heap_rep h3 b3" "?L b3 = ?L bs" "keeps (?L bs) h h3"
    using kfree_k_block [of k2 b2 tmp m] k2 assms(2) e by auto
  have "set_heap h3 k2 = (set_heap h3 k)\<lparr>kcon := c\<rparr>" using k2(1) by simp
  then have "scratch_kept k bs b3 (set_heap h3 k2)"
    unfolding scratch_kept_def using k2(2,4) f(2,4) keeps_trans by blast
  then show thesis using that f(1,3) by blast
qed

end
