(* ===== verification/FsInv.thy ===== *)
theory FsInv
  imports Fs
begin

text \<open>
  The invariant of the file system holds after every operation, whatever its arguments and
  outcome: the writes that fail on a full disk included. The one exception of \<open>fs_write\<close>, a
  length whose number of blocks wraps, is shown as such.
\<close>

subsection \<open>What the copying loop leaves\<close>

definition fresh :: "disk \<Rightarrow> u32 \<Rightarrow> bool" where
  "fresh d b \<longleftrightarrow> (\<exists>k < 1024. b = of_nat (33 + k) \<and> \<not> taken d k)"

lemma fresh_block:
  assumes "fresh d b"
  shows "block_ok b" "b \<noteq> 0" "33 \<le> unat b" "b AND 0x0FFFFFFF = b"
    "j < 32 \<Longrightarrow> used_at d j \<Longrightarrow> b \<notin> set (inode_blocks (inode_read j d))"
proof -
  obtain k where k: "k < 1024" "b = of_nat (33 + k)" "\<not> taken d k" using assms by (auto simp: fresh_def)
  have ub: "unat b = 33 + k" unfolding k(2) using k(1) by (simp only: unat_of_nat_u32)
  then show "block_ok b" "b \<noteq> 0" "33 \<le> unat b" "b AND 0x0FFFFFFF = b" using k(1) low28 [of b] by (auto simp: block_ok_def)
  show "j < 32 \<Longrightarrow> used_at d j \<Longrightarrow> b \<notin> set (inode_blocks (inode_read j d))" using k(3) ub by (auto simp: taken_def)
qed

text \<open>What the copying loop leaves: only unused blocks are written, and the entries it sets are such blocks.\<close>

definition spared :: "fs \<Rightarrow> fs \<Rightarrow> bool" where
  "spared f f' \<longleftrightarrow> fs_inv f' \<and> total_blocks (superblock f') = total_blocks (superblock f) \<and> files (disk f') = files (disk f) \<and>
     taken (disk f') = taken (disk f) \<and> (\<forall>j < 32. slot (disk f') j = slot (disk f) j) \<and>
     (\<forall>b. \<not> fresh (disk f) b \<longrightarrow> disk f' b = disk f b)"

lemma spared_trans:
  assumes "spared f g" "spared g h"
  shows "spared f h"
proof -
  have "fresh (disk g) = fresh (disk f)" using assms(1) by (simp add: spared_def fresh_def fun_eq_iff)
  then show ?thesis using assms by (simp add: spared_def)
qed

lemma block_alloc_write:
  assumes "fs_inv f" "block_alloc f = Some (g, b)" "length buf = 512"
  shows "b = 0 \<and> g = f \<or> fresh (disk f) b \<and> spared f (g\<lparr>disk := write_sector b buf (disk g)\<rparr>)"
proof (cases "free_blocks (superblock f) = 0")
  case True
  then show ?thesis using assms(2) by (simp add: block_alloc_def)
next
  case False
  show ?thesis
  proof (cases rule: block_alloc_spec [OF assms(1) False])
    case 1
    then show ?thesis using assms(2) by simp
  next
    case (2 k)
    have k: "k < 1024" using 2(1) assms(1) by (simp add: fs_inv_def)
    have g: "g = f\<lparr>superblock := (superblock f)\<lparr>free_blocks := free_blocks (superblock f) - 1\<rparr>\<rparr>" "b = of_nat (33 + k)"
      using 2(4) assms(2) by simp_all
    then have fr: "fresh (disk f) b" unfolding fresh_def using k 2(2) by blast
    note b = fresh_block [OF fr]
    have T: "table_inv (disk f)" using assms(1) by (simp add: fs_inv_def)
    note W = free_block_write [OF T 2(2) k assms(3)]
    have "write_sector b buf (disk g) = (disk f)(of_nat (33 + k) := buf)" using g b(4) by (simp add: write_sector_def)
    moreover have "slot ((disk f)(b := buf)) j = slot (disk f) j" if "j < 32" for j
      using slot_write_other [of b j "disk f" buf] that b(3) by simp
    ultimately have "spared f (g\<lparr>disk := write_sector b buf (disk g)\<rparr>)"
      using W(1,2,5) assms(1) g fr by (simp add: spared_def fs_inv_def)
    then show ?thesis using fr by simp
  qed
qed

lemma fs_write_loop_keeps:
  assumes "fs_inv f" "fs_write_loop data sz needed i w x f = Some (f', x', ok)" "length (inode_blocks x) = 32" "unat needed \<le> 32"
  shows "spared f f' \<and> (\<exists>ys. x' = x\<lparr>inode_blocks := ys\<rparr> \<and> length ys = 32 \<and>
    (\<forall>j < 32. ys ! j = inode_blocks x ! j \<or> fresh (disk f) (ys ! j)) \<and>
    (\<forall>j < unat i. ys ! j = inode_blocks x ! j) \<and>
    (ok \<longrightarrow> (\<forall>j < unat needed. unat i \<le> j \<longrightarrow> fresh (disk f) (ys ! j))))"
  using assms
proof (induction "unat needed - unat i" arbitrary: i w x f)
  case 0
  then have "\<not> i < needed" by (simp add: word_less_nat_alt)
  then have "f' = f" "x' = x" "ok" using 0(3) by (simp_all add: fs_write_loop.simps [of data sz needed i])
  then show ?case using 0 by (auto simp: spared_def word_less_nat_alt intro!: exI [of _ "inode_blocks x"])
next
  case (Suc n)
  have i: "i < needed" "unat i < 32" using Suc.hyps(2) Suc.prems(4) by (simp_all add: word_less_nat_alt)
  then have i: "i < needed" "unat i < 32" "unat (i + 1) = Suc (unat i)" by simp_all
  obtain g b where ba: "block_alloc f = Some (g, b)"
    using Suc.prems(2) i(1) by (cases "block_alloc f") (auto simp: fs_write_loop.simps [of data sz needed i])
  show ?case
  proof (cases "b = 0")
    case True
    then have "f' = g" "x' = x" "\<not> ok" using Suc.prems(2) i(1) ba by (simp_all add: fs_write_loop.simps [of data sz needed i])
    moreover have "g = f" using block_alloc_write [OF Suc.prems(1) ba, of "replicate 512 0"] True fresh_block(2) by auto
    ultimately show ?thesis using Suc.prems by (auto simp: spared_def intro!: exI [of _ "inode_blocks x"])
  next
    case False
    let ?x = "x\<lparr>inode_blocks := (inode_blocks x)[unat i := b]\<rparr>"
    let ?c = "if sz - w > FS_BLOCK_SIZE then FS_BLOCK_SIZE else sz - w"
    let ?buf = "copy_to 0 (drop (unat w) data) (unat ?c) (replicate 512 0)"
    let ?g = "g\<lparr>disk := write_sector b ?buf (disk g)\<rparr>"
    have c: "unat ?c \<le> 512" by (simp add: FS_BLOCK_SIZE_def word_less_nat_alt)
    have st: "unat w + unat ?c \<le> length data" "fs_write_loop data sz needed (i + 1) (w + ?c) ?x ?g = Some (f', x', ok)"
      using Suc.prems(2) i(1) ba False by (simp_all add: fs_write_loop.simps [of data sz needed i] Let_def split: if_splits)
    have "length ?buf = 512" using st(1) c by (simp add: copy_to_def)
    then have fr: "fresh (disk f) b" and sp: "spared f ?g" using block_alloc_write [OF Suc.prems(1) ba] False by blast+
    have inv: "fs_inv ?g" using sp by (simp add: spared_def)
    have same: "fresh (disk ?g) = fresh (disk f)" using sp by (simp add: spared_def fresh_def fun_eq_iff)
    have n: "n = unat needed - unat (i + 1)" using Suc.hyps(2) i(3) by simp
    obtain ys where ys: "x' = ?x\<lparr>inode_blocks := ys\<rparr>" "length ys = 32" "\<forall>j < 32. ys ! j = inode_blocks ?x ! j \<or> fresh (disk ?g) (ys ! j)"
      "\<forall>j < unat (i + 1). ys ! j = inode_blocks ?x ! j"
      "ok \<longrightarrow> (\<forall>j < unat needed. unat (i + 1) \<le> j \<longrightarrow> fresh (disk ?g) (ys ! j))" and sp': "spared ?g f'"
      using Suc.hyps(1) [OF n inv st(2)] Suc.prems(3,4) by auto
    have yi: "ys ! unat i = b" using ys(4) i(2,3) Suc.prems(3) by simp
    have "\<forall>j < 32. ys ! j = inode_blocks x ! j \<or> fresh (disk f) (ys ! j)"
      using ys(3) same fr yi by (metis nth_list_update_neq inode_t.select_convs(3) inode_t.surjective inode_t.update_convs(3))
    moreover have "\<forall>j < unat i. ys ! j = inode_blocks x ! j" using ys(4) i(3) by simp
    moreover have "ok \<longrightarrow> (\<forall>j < unat needed. unat i \<le> j \<longrightarrow> fresh (disk f) (ys ! j))"
      using ys(5) i(3) same fr yi by (metis Suc_leI le_neq_implies_less)
    ultimately show ?thesis using spared_trans [OF sp sp'] ys(1,2) by (intro conjI exI [of _ ys]) auto
  qed
qed

lemma blocks_needed_unat:
  fixes sz :: u32
  assumes "unat sz \<le> 0xFFFFFE00"
  shows "unat ((sz + FS_BLOCK_SIZE - 1) div FS_BLOCK_SIZE) = (unat sz + 511) div 512"
proof -
  have "sz + FS_BLOCK_SIZE - 1 = sz + 511" by (simp add: FS_BLOCK_SIZE_def)
  moreover have "unat (511 + sz) = unat sz + 511" using assms by (simp add: unat_add_u32)
  ultimately show ?thesis by (simp add: unat_div FS_BLOCK_SIZE_def)
qed

lemma takeWhile_length:
  assumes "\<forall>j < n. P (xs ! j)" "n \<le> length xs"
  shows "n \<le> length (takeWhile P xs)"
  using assms
proof (induction xs arbitrary: n)
  case (Cons x xs)
  show ?case
  proof (cases n)
    case (Suc m)
    then have "P x" "\<forall>j < m. P (xs ! j)" "m \<le> length xs" using Cons.prems by (auto simp: All_less_Suc2)
    then show ?thesis using Suc Cons.IH by simp
  qed simp
qed simp

text \<open>The inode after the loop keeps the invariant and shares no block with another file.\<close>

lemma rewritten_inode:
  assumes "table_inv d" "i < 32" "used_at d i" "length ys = 32"
    and ys: "\<forall>j < 32. ys ! j = inode_blocks (inode_read i d) ! j \<or> fresh d (ys ! j)"
      "\<forall>j < (unat sz + 511) div 512. fresh d (ys ! j)" and N: "(unat (sz :: u32) + 511) div 512 \<le> 32"
  defines "x \<equiv> (inode_read i d)\<lparr>inode_blocks := ys, inode_size := sz\<rparr>"
  shows "inode_inv x" "name_str x = name_str (inode_read i d)"
    "j < 32 \<Longrightarrow> j \<noteq> i \<Longrightarrow> used_at d j \<Longrightarrow> set (inode_blocks (inode_read j d)) \<inter> set (inode_blocks x) \<subseteq> {0}"
proof -
  let ?y = "inode_read i d"
  have y: "inode_inv ?y" using assms(1-3) by (simp add: table_inv_def)
  then have l32: "length (inode_blocks ?y) = 32" by (simp add: inode_inv_def inode_ok_def)
  have mem: "b \<in> set (inode_blocks ?y) \<or> fresh d b" if "b \<in> set ys" for b
    using that ys(1) assms(4) l32 by (metis in_set_conv_nth)
  have "\<forall>j < (unat sz + 511) div 512. ys ! j \<noteq> 0" using ys(2) fresh_block(2) by blast
  then have "(unat sz + 511) div 512 \<le> length (lead_blocks x)"
    unfolding lead_blocks_def x_def using takeWhile_length [of "(unat sz + 511) div 512" "\<lambda>b. b \<noteq> 0" ys] N assms(4) by simp
  then have "unat sz \<le> 512 * length (lead_blocks x)" by linarith
  moreover have "\<forall>b \<in> set ys. block_ok b" using mem y fresh_block(1) by (auto simp: inode_inv_def)
  ultimately show "inode_inv x" using y assms(4) by (simp add: x_def inode_inv_def inode_ok_def)
  then show "name_str x = name_str ?y" using y name_str_array [of x] name_str_array [of ?y] by (simp add: x_def inode_inv_def)
  assume j: "j < 32" "j \<noteq> i" "used_at d j"
  then have "set (inode_blocks (inode_read j d)) \<inter> set (inode_blocks ?y) \<subseteq> {0}" using assms(1-3) by (auto simp: table_inv_def)
  then show "set (inode_blocks (inode_read j d)) \<inter> set (inode_blocks x) \<subseteq> {0}"
    using mem fresh_block(5) [OF _ j(1,3)] by (auto simp: x_def)
qed

text \<open>A write that found its blocks: the inode is rewritten and the superblock stored.\<close>

lemma fs_write_finish:
  assumes inv: "fs_inv f" and i: "i < 32" "used_at (disk f) i" and sp: "spared f g"
    and ys: "length ys = 32" "\<forall>j < 32. ys ! j = inode_blocks (inode_read i (disk f)) ! j \<or> fresh (disk f) (ys ! j)"
      "\<forall>j < (unat sz + 511) div 512. fresh (disk f) (ys ! j)" and N: "(unat (sz :: u32) + 511) div 512 \<le> 32"
  defines "x \<equiv> (inode_read i (disk f))\<lparr>inode_blocks := ys, inode_size := sz\<rparr>"
  defines "f' \<equiv> superblock_flush (g\<lparr>disk := inode_write i x (disk g)\<rparr>)"
  shows "fs_inv f'" "files (disk f') = (files (disk f))(name_str (inode_read i (disk f)) \<mapsto> content (disk f') x)"
proof -
  let ?d = "disk f"
  have T: "table_inv ?d" using inv by (simp add: fs_inv_def)
  have disk: "disk f' = with_super (superblock g) (inode_write i x (disk g))" by (simp add: f'_def superblock_flush_disk)
  note X = rewritten_inode [OF T i ys N, folded x_def]
  have used: "inode_used x \<noteq> 0" using i(2) by (simp add: x_def used_at_def)
  have g: "disk_ok (disk g)" "\<And>j. j < 32 \<Longrightarrow> slot (disk g) j = slot ?d j" using sp by (auto simp: spared_def fs_inv_def table_inv_def)
  have kept: "disk g b = ?d b" if "j < 32" "used_at ?d j" "b \<in> set (inode_blocks (inode_read j ?d))" "b \<noteq> 0" for j b
    using that sp fresh_block(5) [of ?d b j] by (auto simp: spared_def)
  have own: "name_str (inode_read j ?d) \<noteq> name_str x \<and> set (inode_blocks (inode_read j ?d)) \<inter> set (inode_blocks x) \<subseteq> {0}"
    if "j < 32" "j \<noteq> i" "used_at ?d j" for j using that T i X(2,3) by (auto simp: table_inv_def)
  note P = table_put [OF T i(1) g kept X(1) used X(2) [symmetric] own, where sb = "superblock g"]
  show "fs_inv f'" using P(1) sp inv disk by (simp add: f'_def fs_inv_def spared_def)
  show "files (disk f') = (files ?d)(name_str (inode_read i ?d) \<mapsto> content (disk f') x)" unfolding disk using P(3) X(2) by simp
qed

lemma fs_write_keeps:
  fixes sz :: u32
  assumes inv: "fs_inv f" and name: "0 \<notin> set name" and sz: "unat sz \<le> 0xFFFFFE00"
    and w: "fs_write name data sz f = Some (f', r, ms)"
  shows "fs_inv f' \<and> (r = 0 \<or> r = -1) \<and> (r = -1 \<longrightarrow> files (disk f') = files (disk f)) \<and>
    (\<forall>n. n \<noteq> name \<longrightarrow> files (disk f') n = files (disk f) n)"
proof (cases rule: inode_find_cases [OF name, of "disk f"])
  case 1
  then have "f' = f" "r = -1" using w by (simp_all add: fs_write_def)
  then show ?thesis using inv by simp
next
  case (2 i)
  let ?N = "(unat sz + 511) div 512" and ?y = "inode_read i (disk f)" and ?n = "(sz + FS_BLOCK_SIZE - 1) div FS_BLOCK_SIZE"
  have i: "i < 32" "used_at (disk f) i" "name_str ?y = name" using 2(2) by (simp_all add: named_def)
  have y: "inode_inv ?y" using inv i by (simp add: fs_inv_def table_inv_def)
  have n: "unat ?n = ?N" by (rule blocks_needed_unat [OF sz])
  show ?thesis
  proof (cases "of_nat MAX_FILE_BLOCKS < ?n")
    case True
    then have "f' = f" "r = -1" using w 2(1) by (simp_all add: fs_write_def Let_def)
    then show ?thesis using inv by simp
  next
    case F: False
    then have N: "?N \<le> 32" using n by (simp add: word_less_nat_alt MAX_FILE_BLOCKS_def)
    obtain g x ok where l: "fs_write_loop data sz ?n 0 0 ?y f = Some (g, x, ok)"
      using w 2(1) F by (cases "fs_write_loop data sz ?n 0 0 ?y f") (auto simp: fs_write_def Let_def)
    obtain ys where sp: "spared f g" and ys: "x = ?y\<lparr>inode_blocks := ys\<rparr>" "length ys = 32"
      "\<forall>j < 32. ys ! j = inode_blocks ?y ! j \<or> fresh (disk f) (ys ! j)" "ok \<longrightarrow> (\<forall>j < ?N. fresh (disk f) (ys ! j))"
      using fs_write_loop_keeps [OF inv l] y n N by (auto simp: inode_inv_def inode_ok_def)
    show ?thesis
    proof (cases ok)
      case False
      then have "f' = g" "r = -1" using w 2(1) l F by (simp_all add: fs_write_def Let_def)
      then show ?thesis using sp by (simp add: spared_def)
    next
      case True
      then have "f' = superblock_flush (g\<lparr>disk := inode_write i (?y\<lparr>inode_blocks := ys, inode_size := sz\<rparr>) (disk g)\<rparr>)" "r = 0"
        using w 2(1) l F ys(1) by (simp_all add: fs_write_def Let_def)
      then show ?thesis using fs_write_finish [OF inv i(1,2) sp ys(2,3) _ N] ys(4) True i(3) by simp
    qed
  qed
qed

text \<open>Creating and deleting.\<close>

lemma fs_create_keeps:
  assumes inv: "fs_inv f" and name: "0 \<notin> set name" "length name \<le> 63" and c: "fs_create name f = (f', r, ms)"
  shows "fs_inv f'" "n \<noteq> name \<Longrightarrow> files (disk f') n = files (disk f) n" "list_all msg_ok ms"
proof -
  have T: "table_inv (disk f)" using inv by (simp add: fs_inv_def)
  have "fs_inv f' \<and> (n \<noteq> name \<longrightarrow> files (disk f') n = files (disk f) n)"
  proof (cases "files (disk f) name = None \<and> (\<exists>i < 32. \<not> used_at (disk f) i)")
    case True
    then obtain i where i: "files (disk f) name = None" "i < 32" "\<not> used_at (disk f) i" by blast
    obtain g ms' where "fs_create name f = (g, 0, ms')" "fs_inv g" "files (disk g) = (files (disk f))(name \<mapsto> [])"
      using fs_create_new [OF inv name i] by metis
    then show ?thesis using c by simp
  next
    case False
    then have "f' = f" using fs_create_refused [OF inv name(1)] c by auto
    then show ?thesis using inv by simp
  qed
  then show "fs_inv f'" "n \<noteq> name \<Longrightarrow> files (disk f') n = files (disk f) n" by blast+
  show "list_all msg_ok ms" using c by (auto simp: fs_create_def Let_def msg_ok_def split: if_splits)
qed

lemma fs_delete_keeps:
  assumes inv: "fs_inv f" and name: "0 \<notin> set name" and c: "fs_delete name f = (f', r, ms)"
  shows "fs_inv f'" "files (disk f') = (files (disk f))(name := None)" "list_all msg_ok ms"
proof -
  have "fs_inv f' \<and> files (disk f') = (files (disk f))(name := None)"
  proof (cases "files (disk f) name")
    case None
    then have "f' = f" using fs_delete_refused [OF inv name] c by auto
    then show ?thesis using inv None by (simp add: fun_upd_idem)
  next
    case (Some d)
    then show ?thesis using afs.remove_found [OF inv, of name] c by auto
  qed
  then show "fs_inv f'" "files (disk f') = (files (disk f))(name := None)" by blast+
  show "list_all msg_ok ms"
    using c by (auto simp: fs_delete_def Let_def msg_ok_def not_found_def split: if_splits prod.splits)
qed

text \<open>C38. Whatever is written, \<open>fs_write\<close> keeps the invariant of the file system: when it returns, for
  data of any length up to 512 bytes below 4 GB, with the disk full or not, the inode table
  is well formed, no other file changed, and after a failure no file changed at all.\<close>

theorem fs_write_keeps_inv:
  fixes sz :: u32
  assumes "fs_inv f" "0 \<notin> set name" "unat sz \<le> 0xFFFFFE00" "fs_write name data sz f = Some (f', r, ms)"
  shows "fs_inv f' \<and> (r = 0 \<or> r = -1) \<and> (r = -1 \<longrightarrow> files (disk f') = files (disk f)) \<and>
    (\<forall>n. n \<noteq> name \<longrightarrow> files (disk f') n = files (disk f) n)"
  by (rule fs_write_keeps [OF assms])

theorem fs_write_keeps_inv_witness:
  "\<exists>f' ms. fs_write hello (replicate 600 7) 600 fs_hello = Some (f', 0, ms) \<and> fs_inv f'"
proof -
  obtain f' ms where w: "fs_write hello (replicate 600 7) 600 fs_hello = Some (f', 0, ms)"
    by (rule fs_write_named [OF fs_hello_state(1,4), of 600 "replicate 600 7" 0])
      (use fs_hello_state(2,5) in \<open>simp_all add: formatted_sb_def\<close>)
  then show ?thesis using fs_write_keeps_inv [OF fs_hello_state(1) _ _ w] by auto
qed

text \<open>For the 511 largest lengths the number of blocks wraps to zero: \<open>fs_write\<close> then touches no
  data, reports success and leaves a file whose recorded size is almost 4 GB.\<close>

theorem fs_write_size_wraps:
  fixes sz :: u32
  assumes "fs_inv f" "named name (disk f) i" "0xFFFFFE01 \<le> unat sz"
  shows "\<exists>f' ms. fs_write name data sz f = Some (f', 0, ms) \<and> inode_size (inode_read i (disk f')) = sz \<and>
    inode_blocks (inode_read i (disk f')) = inode_blocks (inode_read i (disk f))"
proof -
  let ?d = "disk f" and ?x = "(inode_read i (disk f))\<lparr>inode_size := sz\<rparr>"
  have T: "table_inv ?d" using assms(1) by (simp add: fs_inv_def)
  have i: "i < 32" "used_at ?d i" using assms(2) by (simp_all add: named_def)
  have e: "sz + FS_BLOCK_SIZE - 1 = sz + 511" by (simp add: FS_BLOCK_SIZE_def)
  have b: "4294967296 \<le> unat sz + 511" "unat sz + 511 - 4294967296 < 4294967296"
    using assms(3) unat_u32_less [of sz] by linarith+
  have "(unat sz + 511) mod 4294967296 = unat sz + 511 - 4294967296"
    using le_mod_geq [OF b(1)] mod_less [OF b(2)] by (rule trans)
  then have "unat (sz + 511) = unat sz + 511 - 4294967296" using unat_word_ariths(1) [of sz 511] by simp
  then have "unat (sz + 511) < 511" using unat_u32_less [of sz] by linarith
  then have z: "(sz + FS_BLOCK_SIZE - 1) div FS_BLOCK_SIZE = 0"
    unfolding e by (simp add: word_eq_unat unat_div FS_BLOCK_SIZE_def)
  have ok: "inode_ok ?x" using T i by (auto simp: table_inv_def inode_inv_def inode_ok_def)
  let ?f = "superblock_flush (f\<lparr>disk := inode_write i ?x ?d\<rparr>)"
  obtain ms where "fs_write name data sz f = Some (?f, 0, ms)"
    using inode_find_named [OF T assms(2)] z by (simp add: fs_write_def Let_def fs_write_loop.simps [of data sz 0])
  moreover have disk: "disk ?f = (inode_write i ?x ?d)(0 := superblock_bytes (superblock f) @ replicate 488 0)"
    by (simp add: superblock_flush_disk)
  have "table_step i ?x ?d (disk ?f)"
    unfolding disk using T ok i(1) by (intro table_step_write(1) [OF T]) (simp_all add: table_inv_def)
  then have "inode_read i (disk ?f) = ?x" by (simp add: table_step_def)
  ultimately show ?thesis by (intro exI [of _ ?f] exI [of _ ms]) simp
qed

theorem fs_write_size_wraps_witness:
  "\<exists>f' ms. fs_write hello [1] 0xFFFFFFFF fs_hello = Some (f', 0, ms) \<and> inode_size (inode_read 0 (disk f')) = 0xFFFFFFFF"
  using fs_write_size_wraps [OF fs_hello_state(1,4), of "0xFFFFFFFF" "[1]"] by auto

end
