(* ===== verification/Syscall.thy ===== *)
theory Syscall
  imports Machine FsInv
begin

text \<open>
  The system calls, \<open>kernel/syscall.c\<close>: the handler of interrupt 0x80 on the saved registers
  and the whole kernel. Pointers that come from user mode are dereferenced where the code
  does it, through \<open>load8\<close> and \<open>store8\<close>; a name in a descriptor without a terminator in its
  64 bytes is \<open>None\<close>, as is a null current process. \<open>Halts\<close> is the endless halt of
  \<open>process_exit\<close>.
\<close>

record registers_t =
  reg_ds :: u32
  reg_edi :: u32
  reg_esi :: u32
  reg_ebp :: u32
  reg_esp :: u32
  reg_ebx :: u32
  reg_edx :: u32
  reg_ecx :: u32
  reg_eax :: u32
  reg_int_no :: u32
  reg_err_code :: u32
  reg_eip :: u32
  reg_cs :: u32
  reg_eflags :: u32
  reg_useresp :: u32
  reg_ss :: u32

definition SYS_EXIT :: u32 where [const_defs]: "SYS_EXIT = 0"
definition SYS_WRITE :: u32 where [const_defs]: "SYS_WRITE = 1"
definition SYS_READ :: u32 where [const_defs]: "SYS_READ = 2"
definition SYS_OPEN :: u32 where [const_defs]: "SYS_OPEN = 3"
definition SYS_CLOSE :: u32 where [const_defs]: "SYS_CLOSE = 4"

text \<open>The current process, its descriptors and the string in a descriptor.\<close>

definition current :: "kernel \<Rightarrow> process_t option" where
  "current k = (let s = ksched k in if current_process s = 0 then None else Some (procs s (current_process s)))"

definition set_fd :: "nat \<Rightarrow> file_descriptor_t \<Rightarrow> kernel \<Rightarrow> kernel" where
  "set_fd i fd k =
     (let s = ksched k; p = procs s (current_process s)
      in k\<lparr>ksched := s\<lparr>procs := (procs s)(current_process s := p\<lparr>fds := (fds p)[i := fd]\<rparr>)\<rparr>\<rparr>)"

definition fd_cstr :: "file_descriptor_t \<Rightarrow> bytes option" where
  "fd_cstr fd = (if 0 \<in> set (fd_name fd) then Some (takeWhile (\<lambda>c. c \<noteq> 0) (fd_name fd)) else None)"

fun write_chars :: "u32 \<Rightarrow> nat \<Rightarrow> kernel \<Rightarrow> kernel option" where
  "write_chars str 0 k = Some k"
| "write_chars str (Suc n) k =
     do { c \<leftarrow> load8 str k;
          t \<leftarrow> terminal_putchar c (tty (kcon k));
          write_chars (str + 1) n (k\<lparr>kcon := (kcon k)\<lparr>tty := t\<rparr>\<rparr>) }"

text \<open>The copy of a file name: the character is read before the limit is tested.\<close>

fun copy_name :: "u32 \<Rightarrow> nat \<Rightarrow> kernel \<Rightarrow> bytes option" where
  "copy_name filename 0 k = do { c \<leftarrow> load8 filename k; Some [] }"
| "copy_name filename (Suc n) k =
     do { c \<leftarrow> load8 filename k;
          if c = 0 then Some [] else do { cs \<leftarrow> copy_name (filename + 1) n k; Some (c # cs) } }"

fun find_fd :: "file_descriptor_t list \<Rightarrow> nat \<Rightarrow> nat option" where
  "find_fd [] i = None"
| "find_fd (fd # fs) i = (if fd_used fd = 0 then Some i else find_fd fs (i + 1))"

definition syscall_exit :: "registers_t \<Rightarrow> kernel \<Rightarrow> (registers_t \<times> kernel \<times> control) option" where
  "syscall_exit regs k =
     do { p \<leftarrow> current k;
          k \<leftarrow> kprint [(''[PID %d exited with code %d]'' @ nl, [KInt (pid p), KInt (reg_ebx regs)])] k;
          s \<leftarrow> process_exit (ksched k);
          Some (regs, k\<lparr>ksched := s\<rparr>, Halts) }"

definition syscall_write :: "registers_t \<Rightarrow> kernel \<Rightarrow> (registers_t \<times> kernel \<times> control) option" where
  "syscall_write regs k =
     (let fd = reg_ebx regs; str = reg_ecx regs; len = reg_edx regs
      in if fd = 1 \<or> fd = 2
         then do { k \<leftarrow> write_chars str (unat len) k; Some (regs\<lparr>reg_eax := len\<rparr>, k, Returns) }
         else if unat fd < MAX_FD
         then do { p \<leftarrow> current k;
                   if fd_used (fds p ! unat fd) \<noteq> 0
                   then do { name \<leftarrow> fd_cstr (fds p ! unat fd);
                             (k, n) \<leftarrow> fs_write_k name str len k;
                             Some (regs\<lparr>reg_eax := len\<rparr>, k, Returns) }
                   else Some (regs\<lparr>reg_eax := -1\<rparr>, k, Returns) }
         else Some (regs\<lparr>reg_eax := -1\<rparr>, k, Returns))"

definition syscall_read :: "registers_t \<Rightarrow> kernel \<Rightarrow> (registers_t \<times> kernel \<times> control) option" where
  "syscall_read regs k =
     (let fd = reg_ebx regs; buf = reg_ecx regs; sz = reg_edx regs
      in if unat fd < MAX_FD
         then do { p \<leftarrow> current k;
                   if fd_used (fds p ! unat fd) \<noteq> 0
                   then do { name \<leftarrow> fd_cstr (fds p ! unat fd);
                             (k, n) \<leftarrow> fs_read_k name buf sz k;
                             Some (regs\<lparr>reg_eax := of_int n\<rparr>, k, Returns) }
                   else Some (regs\<lparr>reg_eax := -1\<rparr>, k, Returns) }
         else Some (regs\<lparr>reg_eax := -1\<rparr>, k, Returns))"

definition syscall_open :: "registers_t \<Rightarrow> kernel \<Rightarrow> (registers_t \<times> kernel \<times> control) option" where
  "syscall_open regs k =
     do { safe_name \<leftarrow> copy_name (reg_ebx regs) 63 k;
          p \<leftarrow> current k;
          case find_fd (drop 3 (fds p)) 3 of
            None \<Rightarrow> Some (regs\<lparr>reg_eax := -1\<rparr>, k, Returns)
          | Some fd \<Rightarrow>
              do { (k, tmp) \<leftarrow> kmalloc_k 512 k;
                   (k, n) \<leftarrow> fs_read_k safe_name tmp 512 k;
                   k \<leftarrow> kfree_k tmp k;
                   if n < 0 then Some (regs\<lparr>reg_eax := -1\<rparr>, k, Returns)
                   else do { p \<leftarrow> current k;
                             let f = fds p ! fd;
                             let f = f\<lparr>fd_used := 1, fd_position := 0, fd_size := of_int n,
                               fd_name := copy_to 0 (safe_name @ [0]) (length safe_name + 1) (fd_name f)\<rparr>;
                             Some (regs\<lparr>reg_eax := of_nat fd\<rparr>, set_fd fd f k, Returns) } } }"

definition syscall_close :: "registers_t \<Rightarrow> kernel \<Rightarrow> (registers_t \<times> kernel \<times> control) option" where
  "syscall_close regs k =
     (let fd = reg_ebx regs
      in if 3 \<le> fd \<and> unat fd < MAX_FD
         then do { p \<leftarrow> current k;
                   if fd_used (fds p ! unat fd) \<noteq> 0
                   then Some (regs\<lparr>reg_eax := 0\<rparr>, set_fd (unat fd) ((fds p ! unat fd)\<lparr>fd_used := 0\<rparr>) k, Returns)
                   else Some (regs\<lparr>reg_eax := -1\<rparr>, k, Returns) }
         else Some (regs\<lparr>reg_eax := -1\<rparr>, k, Returns))"

definition syscall_handler :: "registers_t \<Rightarrow> kernel \<Rightarrow> (registers_t \<times> kernel \<times> control) option" where
  "syscall_handler regs k =
     (if reg_eax regs = SYS_EXIT then syscall_exit regs k
      else if reg_eax regs = SYS_WRITE then syscall_write regs k
      else if reg_eax regs = SYS_READ then syscall_read regs k
      else if reg_eax regs = SYS_OPEN then syscall_open regs k
      else if reg_eax regs = SYS_CLOSE then syscall_close regs k
      else do { k \<leftarrow> kprint [(''syscall: unknown call %d'' @ nl, [KInt (reg_eax regs)])] k;
                Some (regs\<lparr>reg_eax := -1\<rparr>, k, Returns) })"

definition syscall_init :: "kernel \<Rightarrow> kernel option" where
  "syscall_init k = kprint [(''Syscall: int 0x80 handler installed'' @ nl, [])] k"

subsection \<open>The invariant\<close>

text \<open>
  Descriptors are well formed: a process has sixteen, their name fields hold 64 bytes, and an
  open descriptor past the standard three holds a terminated name.
\<close>

definition fds_ok :: "file_descriptor_t list \<Rightarrow> bool" where
  "fds_ok fs \<longleftrightarrow> length fs = 16 \<and> (\<forall>f \<in> set fs. length (fd_name f) = 64) \<and>
     (\<forall>i. 3 \<le> i \<and> i < 16 \<and> fd_used (fs ! i) \<noteq> 0 \<longrightarrow> 0 \<in> set (fd_name (fs ! i)))"

definition kernel_inv :: "kernel \<Rightarrow> blk list \<Rightarrow> u32 list \<Rightarrow> bool" where
  "kernel_inv k bs as \<longleftrightarrow> owned (ksched k) bs as \<and> (\<forall>a \<in> set as. fds_ok (fds (procs (ksched k) a))) \<and>
     fs_inv (kfs k) \<and> con_inv (kcon k)"

lemma kernel_invD:
  assumes "kernel_inv k bs as"
  shows "heap_rep (kheap_of k) bs" "fs_inv (kfs k)" "con_inv (kcon k)"
    "current k = Some (procs (ksched k) (current_process (ksched k)))"
    "fds_ok (fds (procs (ksched k) (current_process (ksched k))))" "sched_inv (ksched k) as"
proof -
  show "heap_rep (kheap_of k) bs" "fs_inv (kfs k)" "con_inv (kcon k)" "sched_inv (ksched k) as"
    using assms by (simp_all add: kernel_inv_def owned_def)
  then obtain c where "c < length as" "as ! c = current_process (ksched k)" using current_index by blast
  then show "current k = Some (procs (ksched k) (current_process (ksched k)))"
    using chain_nth(1) [of "procs (ksched k)" "process_list (ksched k)" as c] \<open>sched_inv (ksched k) as\<close>
    by (simp add: current_def sched_inv_def Let_def)
  show "fds_ok (fds (procs (ksched k) (current_process (ksched k))))"
    using assms by (simp add: kernel_inv_def owned_def sched_inv_def)
qed

abbreviation cur_fds :: "kernel \<Rightarrow> file_descriptor_t list" where
  "cur_fds k \<equiv> fds (procs (ksched k) (current_process (ksched k)))"

lemma kernel_inv_scratch:
  assumes "kernel_inv k bs as" "scratch_kept k bs bs' k'" "live 0x1000000 bs' = live 0x1000000 bs"
  shows "kernel_inv k' bs' as" "cur_fds k' = cur_fds k" "kfs k' = kfs k" "current k' = current k"
proof -
  obtain h c where "k' = (set_heap h k)\<lparr>kcon := c\<rparr>" "con_inv c" "heap_rep h bs'"
    using assms(2) by (auto simp: scratch_kept_def)
  then show "kernel_inv k' bs' as" "cur_fds k' = cur_fds k" "kfs k' = kfs k" "current k' = current k"
    using assms(1,3) by (auto simp: kernel_inv_def owned_def sched_inv_def current_def Let_def)
qed

lemma set_fd_simps [simp]:
  "kfs (set_fd i f k) = kfs k" "kcon (set_fd i f k) = kcon k" "kmem (ksched (set_fd i f k)) = kmem (ksched k)"
  "kvm (set_fd i f k) = kvm k" "kpm (set_fd i f k) = kpm k" "cur_fds (set_fd i f k) = (cur_fds k)[i := f]"
  "load8 a (set_fd i f k) = load8 a k"
  by (simp_all add: set_fd_def Let_def load8_def)

lemma readable_set_fd [simp]: "readable a n (set_fd i f k) = readable a n k"
  by (rule readable_cong) simp

lemma kernel_inv_set_fd:
  assumes "kernel_inv k bs as" "fds_ok ((cur_fds k)[i := f])"
  shows "kernel_inv (set_fd i f k) bs as"
proof -
  let ?s = "ksched k" and ?k = "set_fd i f k"
  have e: "next_proc (procs (ksched ?k) a) = next_proc (procs ?s a)" "state (procs (ksched ?k) a) = state (procs ?s a)" for a
    by (simp_all add: set_fd_def Let_def)
  have "chain (procs (ksched ?k)) (process_list ?s) as = chain (procs ?s) (process_list ?s) as"
    by (rule chain_cong) (rule e)
  moreover have "process_list (ksched ?k) = process_list ?s" "current_process (ksched ?k) = current_process ?s"
    by (simp_all add: set_fd_def Let_def)
  ultimately have "sched_inv (ksched ?k) as" using assms(1) e(2) by (simp add: kernel_inv_def owned_def sched_inv_def)
  moreover have "fds (procs (ksched ?k) a) = (if a = current_process ?s then (cur_fds k)[i := f] else fds (procs ?s a))" for a
    by (simp add: set_fd_def Let_def)
  ultimately show ?thesis using assms by (simp add: kernel_inv_def owned_def)
qed

subsection \<open>Descriptors\<close>

lemma find_fd_spec:
  "find_fd fs i = Some j \<longleftrightarrow> i \<le> j \<and> j < i + length fs \<and> fd_used (fs ! (j - i)) = 0 \<and> (\<forall>m < j - i. fd_used (fs ! m) \<noteq> 0)"
proof (induction fs arbitrary: i)
  case (Cons f fs)
  show ?case
  proof (cases "fd_used f = 0")
    case True
    then show ?thesis by (cases "j - i") (auto simp: nth_Cons' dest: le_neq_implies_less)
  next
    case False
    have "(\<forall>m < j - i. fd_used ((f # fs) ! m) \<noteq> 0) \<longleftrightarrow> (\<forall>m < j - (i + 1). fd_used (fs ! m) \<noteq> 0)" if "i < j"
    proof -
      have "j - i = Suc (j - (i + 1))" using that by simp
      then show ?thesis using False by (simp add: All_less_Suc2)
    qed
    moreover have "(f # fs) ! (j - i) = (if j = i then f else fs ! (j - (i + 1)))" if "i \<le> j" using that by (simp add: nth_Cons')
    ultimately show ?thesis using False Cons.IH [of "i + 1"] by (cases "i < j") (auto dest: le_neq_implies_less)
  qed
qed auto

lemma find_free_fd:
  "fds_ok fs \<Longrightarrow> find_fd (drop 3 fs) 3 = Some j \<longleftrightarrow> 3 \<le> j \<and> j < 16 \<and> fd_used (fs ! j) = 0 \<and> (\<forall>m. 3 \<le> m \<and> m < j \<longrightarrow> fd_used (fs ! m) \<noteq> 0)"
proof -
  assume ok: "fds_ok fs"
  have "(\<forall>m < j - 3. fd_used (drop 3 fs ! m) \<noteq> 0) \<longleftrightarrow> (\<forall>m. 3 \<le> m \<and> m < j \<longrightarrow> fd_used (fs ! m) \<noteq> 0)" if "3 \<le> j" "j < 16"
  proof
    assume a: "\<forall>m < j - 3. fd_used (drop 3 fs ! m) \<noteq> 0"
    show "\<forall>m. 3 \<le> m \<and> m < j \<longrightarrow> fd_used (fs ! m) \<noteq> 0"
    proof (intro allI impI)
      fix m assume "3 \<le> m \<and> m < j"
      then show "fd_used (fs ! m) \<noteq> 0" using a [rule_format, of "m - 3"] ok that by (simp add: fds_ok_def diff_less_mono)
    qed
  next
    assume "\<forall>m. 3 \<le> m \<and> m < j \<longrightarrow> fd_used (fs ! m) \<noteq> 0"
    then show "\<forall>m < j - 3. fd_used (drop 3 fs ! m) \<noteq> 0" using ok that by (simp add: fds_ok_def)
  qed
  then show ?thesis using ok by (auto simp: find_fd_spec fds_ok_def)
qed

lemma fds_ok_update:
  assumes "fds_ok fs" "length (fd_name f) = 64" "fd_used f \<noteq> 0 \<longrightarrow> 0 \<in> set (fd_name f)"
  shows "fds_ok (fs[i := f])"
proof (cases "i < 16")
  case True
  have "\<forall>g \<in> set (fs[i := f]). length (fd_name g) = 64"
    using assms set_update_subset_insert [of fs i f] by (auto simp: fds_ok_def)
  then show ?thesis using assms True by (auto simp: fds_ok_def nth_list_update)
qed (use assms in \<open>simp add: fds_ok_def list_update_beyond\<close>)

lemma copy_name_readable:
  assumes "readable a (length name + 1) k = name @ [0]" "0 \<notin> set name" "length name \<le> n"
  shows "copy_name a n k = Some name"
  using assms
proof (induction name arbitrary: a n)
  case Nil
  then show ?case by (cases n) (auto split: option.splits)
next
  case (Cons c name)
  have l: "load8 a k = Some c" "readable (a + 1) (length name + 1) k = name @ [0]" "c \<noteq> 0"
    using Cons.prems(1,2) by (auto split: option.splits)
  then show ?case using Cons.IH [OF l(2)] Cons.prems(2,3) by (cases n) auto
qed

text \<open>The descriptor that an open file gets.\<close>

definition opened :: "bytes \<Rightarrow> nat \<Rightarrow> file_descriptor_t \<Rightarrow> file_descriptor_t" where
  "opened name n f = f\<lparr>fd_used := 1, fd_position := 0, fd_size := of_nat n,
     fd_name := name @ [0] @ drop (length name + 1) (fd_name f)\<rparr>"

lemma opened_ok:
  assumes "length (fd_name f) = 64" "length name \<le> 63" "0 \<notin> set name"
  shows "length (fd_name (opened name n f)) = 64" "fd_cstr (opened name n f) = Some name" "0 \<in> set (fd_name (opened name n f))"
    "fd_used (opened name n f) \<noteq> 0"
proof -
  have "takeWhile (\<lambda>c. c \<noteq> 0) (name @ 0 # xs) = name" for xs using assms(3) by (induction name) auto
  then show "length (fd_name (opened name n f)) = 64" "fd_cstr (opened name n f) = Some name" "0 \<in> set (fd_name (opened name n f))"
    "fd_used (opened name n f) \<noteq> 0"
    using assms(1,2) by (simp_all add: opened_def fd_cstr_def)
qed

subsection \<open>The calls\<close>

lemma handler_cases:
  "reg_eax regs = SYS_EXIT \<Longrightarrow> syscall_handler regs k = syscall_exit regs k"
  "reg_eax regs = SYS_WRITE \<Longrightarrow> syscall_handler regs k = syscall_write regs k"
  "reg_eax regs = SYS_READ \<Longrightarrow> syscall_handler regs k = syscall_read regs k"
  "reg_eax regs = SYS_OPEN \<Longrightarrow> syscall_handler regs k = syscall_open regs k"
  "reg_eax regs = SYS_CLOSE \<Longrightarrow> syscall_handler regs k = syscall_close regs k"
  by (simp_all add: syscall_handler_def const_defs)

lemma open_probe:
  assumes inv: "kernel_inv k bs as" and name: "0 \<notin> set name" and room: "alloc_spec 512 0x1000000 bs \<noteq> None"
  obtains k1 tmp k2 k3 b3 where "kmalloc_k 512 k = Some (k1, tmp)"
    "fs_read_k name tmp 512 k1 = Some (k2, case files (disk (kfs k)) name of None \<Rightarrow> -1 | Some d \<Rightarrow> int (min 512 (length d)))"
    "kfree_k tmp k2 = Some k3" "scratch_kept k bs b3 k3" "live 0x1000000 b3 = live 0x1000000 bs"
proof -
  note D = kernel_invD [OF inv]
  have u: "up4 (unat (512 :: u32)) = 512" by (simp add: up4_def)
  obtain h tmp m k2 n b2 where r: "kmalloc_k 512 k = Some (set_heap h k, tmp)"
    "fs_read_k name tmp 512 (set_heap h k) = Some (k2, n)" "scratch_kept k bs b2 k2"
    "live 0x1000000 b2 = insert (unat tmp, m) (live 0x1000000 bs)" "\<And>j. (unat tmp, j) \<notin> live 0x1000000 bs"
    "n = (case files (disk (kfs k)) name of None \<Rightarrow> -1 | Some d \<Rightarrow> int (min (unat (512 :: u32)) (length d)))"
    by (rule scratch_read [OF D(1) _ _ _ D(2,3) name, of 512]) (use room u in auto)
  obtain k3 b3 where "kfree_k tmp k2 = Some k3" "scratch_kept k bs b3 k3" "live 0x1000000 b3 = live 0x1000000 bs"
    using scratch_release [OF r(3,4,5)] .
  moreover have "n = (case files (disk (kfs k)) name of None \<Rightarrow> -1 | Some d \<Rightarrow> int (min 512 (length d)))"
    using r(6) by (cases "files (disk (kfs k)) name") simp_all
  ultimately show thesis using that r(1,2) by blast
qed

lemma syscall_open_found:
  assumes inv: "kernel_inv k bs as" and name: "readable (reg_ebx regs) (length name + 1) k = name @ [0]" "0 \<notin> set name" "length name \<le> 63"
    and data: "files (disk (kfs k)) name = Some data" and fd: "find_fd (drop 3 (cur_fds k)) 3 = Some fd"
    and room: "alloc_spec 512 0x1000000 bs \<noteq> None"
  obtains k' bs' h c where "syscall_open regs k = Some (regs\<lparr>reg_eax := of_nat fd\<rparr>, k', Returns)" "kernel_inv k' bs' as"
    "live 0x1000000 bs' = live 0x1000000 bs" "keeps (live 0x1000000 bs) (kheap_of k) (kheap_of k')" "kfs k' = kfs k"
    "cur_fds k' = (cur_fds k)[fd := opened name (min 512 (length data)) (cur_fds k ! fd)]"
    "k' = set_fd fd (opened name (min 512 (length data)) (cur_fds k ! fd)) ((set_heap h k)\<lparr>kcon := c\<rparr>)"
proof -
  note D = kernel_invD [OF inv]
  obtain k1 tmp k2 k3 b3 where r: "kmalloc_k 512 k = Some (k1, tmp)"
    "fs_read_k name tmp 512 k1 = Some (k2, case files (disk (kfs k)) name of None \<Rightarrow> -1 | Some d \<Rightarrow> int (min 512 (length d)))"
    and f: "kfree_k tmp k2 = Some k3" "scratch_kept k bs b3 k3" "live 0x1000000 b3 = live 0x1000000 bs"
    by (rule open_probe [OF inv name(2) room])
  note K = kernel_inv_scratch [OF inv f(2,3)]
  let ?f = "opened name (min 512 (length data)) (cur_fds k ! fd)"
  have fd16: "fd < 16" using fd find_free_fd [OF D(5)] by simp
  have l64: "length (fd_name (cur_fds k ! fd)) = 64" using D(5) fd16 by (simp add: fds_ok_def)
  note O = opened_ok [OF l64 name(3,2), of "min 512 (length data)"]
  have cur3: "current k3 = Some (procs (ksched k) (current_process (ksched k)))" using K(4) D(4) by simp
  have "syscall_open regs k = Some (regs\<lparr>reg_eax := of_nat fd\<rparr>, set_fd fd ?f k3, Returns)"
    using copy_name_readable [OF name] D(4) fd r f(1) cur3 data
    by (simp add: syscall_open_def opened_def copy_to_def Let_def)
  moreover have "kernel_inv (set_fd fd ?f k3) b3 as"
    using O by (intro kernel_inv_set_fd [OF K(1)]) (simp add: K(2) fds_ok_update [OF D(5)])
  moreover obtain h3 c where "k3 = (set_heap h3 k)\<lparr>kcon := c\<rparr>" "keeps (live 0x1000000 bs) (kheap_of k) h3"
    using f(2) by (auto simp: scratch_kept_def)
  ultimately show thesis using that [of "set_fd fd ?f k3" b3 c h3] f(3) K(2,3) by simp
qed

lemma syscall_open_missing:
  assumes inv: "kernel_inv k bs as" and name: "readable (reg_ebx regs) (length name + 1) k = name @ [0]" "0 \<notin> set name" "length name \<le> 63"
    and data: "files (disk (kfs k)) name = None" and room: "alloc_spec 512 0x1000000 bs \<noteq> None"
  obtains k' bs' where "syscall_open regs k = Some (regs\<lparr>reg_eax := -1\<rparr>, k', Returns)" "kernel_inv k' bs' as"
    "live 0x1000000 bs' = live 0x1000000 bs" "keeps (live 0x1000000 bs) (kheap_of k) (kheap_of k')" "kfs k' = kfs k"
    "cur_fds k' = cur_fds k" "kvm k' = kvm k"
proof (cases "find_fd (drop 3 (cur_fds k)) 3")
  case None
  then have "syscall_open regs k = Some (regs\<lparr>reg_eax := -1\<rparr>, k, Returns)"
    using copy_name_readable [OF name] kernel_invD(4) [OF inv] by (simp add: syscall_open_def)
  then show thesis using that [of k bs] inv by (simp add: keeps_def)
next
  case (Some fd)
  note D = kernel_invD [OF inv]
  obtain k1 tmp k2 k3 b3 where r: "kmalloc_k 512 k = Some (k1, tmp)"
    "fs_read_k name tmp 512 k1 = Some (k2, case files (disk (kfs k)) name of None \<Rightarrow> -1 | Some d \<Rightarrow> int (min 512 (length d)))"
    and f: "kfree_k tmp k2 = Some k3" "scratch_kept k bs b3 k3" "live 0x1000000 b3 = live 0x1000000 bs"
    by (rule open_probe [OF inv name(2) room])
  note K = kernel_inv_scratch [OF inv f(2,3)]
  have "syscall_open regs k = Some (regs\<lparr>reg_eax := -1\<rparr>, k3, Returns)"
    using copy_name_readable [OF name] D(4) Some r f(1) data by (simp add: syscall_open_def)
  moreover have "keeps (live 0x1000000 bs) (kheap_of k) (kheap_of k3)" "kvm k3 = kvm k"
    using f(2) by (auto simp: scratch_kept_def)
  ultimately show thesis using that K f(3) by blast
qed

text \<open>Reading through a descriptor, for every kind of buffer.\<close>

context byte_region
begin

lemma syscall_read_found:
  assumes inv: "kernel_inv k bs as" and regs: "unat (reg_ebx regs) < 16" "fd_used (cur_fds k ! unat (reg_ebx regs)) \<noteq> 0"
    "fd_cstr (cur_fds k ! unat (reg_ebx regs)) = Some name"
    and data: "files (disk (kfs k)) name = Some data" and buf: "region k (reg_ecx regs) (unat (reg_edx regs))"
  shows "\<exists>k'. syscall_read regs k = Some (regs\<lparr>reg_eax := of_nat (min (unat (reg_edx regs)) (length data))\<rparr>, k', Returns) \<and>
    effect k (reg_ecx regs) (unat (reg_edx regs)) k' \<and>
    readable (reg_ecx regs) (min (unat (reg_edx regs)) (length data)) k' = take (unat (reg_edx regs)) data"
proof -
  note D = kernel_invD [OF inv]
  obtain k' where "fs_read_k name (reg_ecx regs) (reg_edx regs) k = Some (k', int (min (unat (reg_edx regs)) (length data)))"
    "effect k (reg_ecx regs) (unat (reg_edx regs)) k'"
    "readable (reg_ecx regs) (min (unat (reg_edx regs)) (length data)) k' = take (unat (reg_edx regs)) data"
    using fs_read_found [OF buf D(2) data] by blast
  then show ?thesis using regs D(4) by (simp add: syscall_read_def Let_def MAX_FD_def)
qed

end

subsection \<open>The invariant is kept\<close>

lemma kprint_inv:
  assumes "kernel_inv k bs as" "list_all msg_ok ms" "kprint ms k = Some k'"
  shows "kernel_inv k' bs as" "\<exists>c. k' = k\<lparr>kcon := c\<rparr>"
proof -
  obtain c where "kprint ms k = Some (k\<lparr>kcon := c\<rparr>)" "con_inv c"
    using kprint_ok [OF kernel_invD(3) [OF assms(1)] assms(2)] by blast
  then show "kernel_inv k' bs as" "\<exists>c. k' = k\<lparr>kcon := c\<rparr>" using assms(1,3) by (auto simp: kernel_inv_def)
qed

lemma write_chars_inv: "kernel_inv k bs as \<Longrightarrow> write_chars str n k = Some k' \<Longrightarrow> kernel_inv k' bs as"
proof (induction str n k rule: write_chars.induct)
  case (2 str n k)
  obtain c t where t: "load8 str k = Some c" "terminal_putchar c (tty (kcon k)) = Some t"
    "write_chars (str + 1) n (k\<lparr>kcon := (kcon k)\<lparr>tty := t\<rparr>\<rparr>) = Some k'"
    using 2(3) by (auto simp: bind_eq_Some_conv)
  have "con_inv ((kcon k)\<lparr>tty := t\<rparr>)"
    using kernel_invD(3) [OF 2(2)] terminal_putchar_inv [of "tty (kcon k)" c] t(2) by (auto simp: con_inv_def)
  then have "kernel_inv (k\<lparr>kcon := (kcon k)\<lparr>tty := t\<rparr>\<rparr>) bs as" using 2(2) by (simp add: kernel_inv_def)
  then show ?case using 2(1) [OF t(1,2)] t(3) by simp
qed simp

lemma fs_write_msgs: "fs_write name data sz f = Some (f', r, ms) \<Longrightarrow> list_all msg_ok ms"
  by (auto simp: fs_write_def Let_def msg_ok_def not_found_def bind_eq_Some_conv split: if_splits prod.splits)

lemma fs_write_k_inv:
  assumes "kernel_inv k bs as" "0 \<notin> set name" "unat sz \<le> 0xFFFFFE00" "fs_write_k name data sz k = Some (k', n)"
  shows "kernel_inv k' bs as"
proof -
  obtain f ms where f: "fs_write name (readable data (unat sz) k) sz (kfs k) = Some (f, n, ms)" "kprint ms (k\<lparr>kfs := f\<rparr>) = Some k'"
    using assms(4) by (auto simp: fs_write_k_def bind_eq_Some_conv)
  have "fs_inv f" using fs_write_keeps [OF kernel_invD(2) [OF assms(1)] assms(2,3) f(1)] by blast
  then have "kernel_inv (k\<lparr>kfs := f\<rparr>) bs as" using assms(1) by (simp add: kernel_inv_def)
  then show ?thesis using kprint_inv(1) fs_write_msgs [OF f(1)] f(2) by blast
qed

lemma copy_name_props: "copy_name a n k = Some name \<Longrightarrow> 0 \<notin> set name \<and> length name \<le> n"
  by (induction a n k arbitrary: name rule: copy_name.induct) (auto simp: bind_eq_Some_conv split: if_splits)

text \<open>A probe with no memory left reads into the first page, outside the heap.\<close>

lemma store_bytes_low:
  "store_bytes a cs k = Some k' \<Longrightarrow> unat a + length cs \<le> 0x1000000 \<Longrightarrow> \<exists>m. k' = k\<lparr>kvm := (kvm k)\<lparr>pmem := m\<rparr>\<rparr>"
proof (induction a cs k rule: store_bytes.induct)
  case (1 a k)
  then show ?case by (intro exI [of _ "pmem (kvm k)"]) simp
next
  case (2 a c cs k)
  have a: "unat (a + 1) = unat a + 1" using 2(3) by (simp add: unat_add_u32)
  have "unat (a + 0xFF000000) = unat a + 0xFF000000" using 2(3) by (simp add: unat_add_u32)
  moreover have "- HEAP_START = 0xFF000000" by (simp add: HEAP_START_def)
  ultimately have "unat (a - HEAP_START) = unat a + 0xFF000000" by (metis add_uminus_conv_diff)
  then have "\<not> in_window a" using 2(3) by (simp add: in_window_def word_less_nat_alt HEAP_SIZE_def)
  then obtain m where st: "store8 a c k = Some (k\<lparr>kvm := (kvm k)\<lparr>pmem := m\<rparr>\<rparr>)"
    "store_bytes (a + 1) cs (k\<lparr>kvm := (kvm k)\<lparr>pmem := m\<rparr>\<rparr>) = Some k'"
    using 2(2) by (auto simp: store8_def bind_eq_Some_conv)
  then show ?case using 2(1) [OF st(1,2)] 2(3) a by auto
qed

lemma fs_read_loop_bound:
  "fs_read_loop x d to_read i rd buf = Some (buf', r) \<Longrightarrow> unat rd \<le> unat to_read \<Longrightarrow> unat r \<le> unat to_read"
proof (induction x d to_read i rd buf rule: fs_read_loop.induct)
  case (1 x d to_read i rd buf)
  let ?c = "if to_read - rd > FS_BLOCK_SIZE then FS_BLOCK_SIZE else to_read - rd"
  have "unat ?c \<le> unat (to_read - rd)" by (simp add: word_less_nat_alt)
  then have c: "unat rd + unat ?c \<le> unat to_read" using 1(3) by (simp add: unat_sub_u32)
  then have rc: "unat (rd + ?c) = unat rd + unat ?c" using unat_u32_less [of to_read] by (intro unat_add_u32) linarith
  show ?case
  proof (cases "i < MAX_FILE_BLOCKS \<and> rd < to_read \<and> inode_blocks x ! i \<noteq> 0 \<and> unat rd + unat ?c \<le> length buf")
    case True
    then have "fs_read_loop x d to_read (i + 1) (rd + ?c)
        (copy_to (unat rd) (read_sector (inode_blocks x ! i) d) (unat ?c) buf) = Some (buf', r)"
      using 1(2) by (simp add: fs_read_loop.simps [of x d to_read i] Let_def)
    then show ?thesis using 1(1) [OF _ refl _ refl] True rc c by auto
  next
    case False
    then show ?thesis using 1(2,3) by (auto simp: fs_read_loop.simps [of x d to_read i] Let_def split: if_splits)
  qed
qed

lemma fs_read_bound:
  assumes "fs_read name buf sz f = Some (buf', n, ms)"
  shows "nat n \<le> unat sz" "list_all msg_ok ms"
proof -
  show "list_all msg_ok ms" using assms by (auto simp: fs_read_def Let_def bind_eq_Some_conv split: if_splits)
  show "nat n \<le> unat sz"
  proof (cases "inode_find name (disk f) < 0")
    case False
    let ?x = "inode_read (nat (inode_find name (disk f))) (disk f)"
    let ?t = "if sz < inode_size ?x then sz else inode_size ?x"
    obtain r where r: "fs_read_loop ?x (disk f) ?t 0 0 buf = Some (buf', r)" "n = sint r"
      using assms False by (auto simp: fs_read_def Let_def bind_eq_Some_conv)
    have "unat r \<le> unat ?t" using fs_read_loop_bound [OF r(1)] by simp
    also have "unat ?t \<le> unat sz" by (simp add: word_less_nat_alt)
    finally have "unat r \<le> unat sz" .
    moreover have "sint r \<le> int (unat r)" by (simp only: sint_cases [of r] split: if_split) linarith
    ultimately show ?thesis using r(2) by linarith
  qed (use assms in \<open>simp add: fs_read_def Let_def\<close>)
qed

lemma fs_read_k_low:
  assumes "kernel_inv k bs as" "0 \<notin> set name" "fs_read_k name 0 512 k = Some (k', n)"
  shows "kernel_inv k' bs as" "cur_fds k' = cur_fds k" "current k' = current k" "kheap_of k' = kheap_of k"
proof -
  obtain bs' ms k1 where r: "fs_read name (readable 0 512 k) 512 (kfs k) = Some (bs', n, ms)"
    "store_bytes 0 (take (nat n) bs') k = Some k1" "kprint ms k1 = Some k'"
    using assms(3) by (auto simp: fs_read_k_def bind_eq_Some_conv)
  have l: "length (take (nat n) bs') \<le> 512" "list_all msg_ok ms" using fs_read_bound [OF r(1)] by auto
  obtain m where k1: "k1 = k\<lparr>kvm := (kvm k)\<lparr>pmem := m\<rparr>\<rparr>" using store_bytes_low [OF r(2)] l(1) by auto
  have inv1: "kernel_inv k1 bs as" using assms(1) by (simp add: k1 kernel_inv_def)
  obtain c where k': "k' = k1\<lparr>kcon := c\<rparr>" using kprint_inv(2) [OF inv1 l(2) r(3)] by blast
  show "kernel_inv k' bs as" using kprint_inv(1) [OF inv1 l(2) r(3)] .
  show "cur_fds k' = cur_fds k" "current k' = current k" "kheap_of k' = kheap_of k" by (simp_all add: k' k1 current_def Let_def)
qed

text \<open>The probe of an open keeps the invariant, also when there is no memory for its buffer.\<close>

lemma open_scratch_inv:
  assumes inv: "kernel_inv k bs as" and name: "0 \<notin> set name"
    and c: "kmalloc_k 512 k = Some (k1, tmp)" "fs_read_k name tmp 512 k1 = Some (k2, n)" "kfree_k tmp k2 = Some k3"
  shows "\<exists>b3. kernel_inv k3 b3 as \<and> live 0x1000000 b3 = live 0x1000000 bs \<and> cur_fds k3 = cur_fds k"
proof (cases "alloc_spec 512 0x1000000 bs")
  case None
  then have "kmalloc 512 (kheap_of k) = Some (kheap_of k, 0, [kmalloc_oom])"
    using kmalloc_spec [OF kernel_invD(1) [OF inv], of 512] by (simp add: up4_def)
  then have t: "tmp = 0" "kprint [kmalloc_oom] k = Some k1" using c(1) by (auto simp: kmalloc_k_def bind_eq_Some_conv)
  have "msg_ok kmalloc_oom" by (simp add: msg_ok_def kmalloc_oom_def)
  then have k1: "kernel_inv k1 bs as" "\<exists>c. k1 = k\<lparr>kcon := c\<rparr>" using kprint_inv [OF inv _ t(2)] by simp_all
  note L = fs_read_k_low [OF k1(1) name c(2) [unfolded t(1)]]
  have "k3 = k2" using c(3) t(1) by (simp add: kfree_k_def kfree_def)
  then show ?thesis using L k1(2) by auto
next
  case (Some a)
  then obtain b3 where "scratch_kept k bs b3 k3" "live 0x1000000 b3 = live 0x1000000 bs"
    using open_probe [OF inv name] c by (metis option.distinct(1) option.inject prod.inject)
  then show ?thesis using kernel_inv_scratch [OF inv] by blast
qed

lemma syscall_open_inv:
  assumes inv: "kernel_inv k bs as" and o: "syscall_open regs k = Some (r, k', c)"
  shows "\<exists>bs'. kernel_inv k' bs' as \<and> live 0x1000000 bs' = live 0x1000000 bs"
proof -
  note D = kernel_invD [OF inv]
  obtain name where nm: "copy_name (reg_ebx regs) 63 k = Some name" using o by (auto simp: syscall_open_def bind_eq_Some_conv)
  have name: "0 \<notin> set name" "length name \<le> 63" using copy_name_props [OF nm] by simp_all
  show ?thesis
  proof (cases "find_fd (drop 3 (cur_fds k)) 3")
    case None
    then show ?thesis using o nm D(4) inv by (auto simp: syscall_open_def)
  next
    case (Some fd)
    have fd: "fd < 16" using find_free_fd [OF D(5), of fd] Some by simp
    have l64: "length (fd_name (cur_fds k ! fd)) = 64" using D(5) fd by (simp add: fds_ok_def)
    obtain k1 tmp k2 n k3 where c: "kmalloc_k 512 k = Some (k1, tmp)" "fs_read_k name tmp 512 k1 = Some (k2, n)" "kfree_k tmp k2 = Some k3"
      "if n < 0 then k' = k3 else \<exists>p. current k3 = Some p \<and> k' = set_fd fd (opened name (nat n) (fds p ! fd)) k3"
      using o nm D(4) Some
      by (auto simp: syscall_open_def opened_def copy_to_def Let_def bind_eq_Some_conv split: if_splits)
    obtain b3 where k3: "kernel_inv k3 b3 as" "live 0x1000000 b3 = live 0x1000000 bs" "cur_fds k3 = cur_fds k"
      using open_scratch_inv [OF inv name(1) c(1-3)] by blast
    show ?thesis
    proof (cases "n < 0")
      case True
      then show ?thesis using c(4) k3 by auto
    next
      case False
      then have k': "k' = set_fd fd (opened name (nat n) (cur_fds k ! fd)) k3" using c(4) kernel_invD(4) [OF k3(1)] k3(3) by auto
      have "fds_ok ((cur_fds k3)[fd := opened name (nat n) (cur_fds k ! fd)])"
        using opened_ok [OF l64 name(2,1)] by (intro fds_ok_update) (simp_all add: k3(3) D(5))
      then show ?thesis using kernel_inv_set_fd [OF k3(1)] k3(2) k' by blast
    qed
  qed
qed

lemma fd_cstr_no_zero: "fd_cstr f = Some name \<Longrightarrow> 0 \<notin> set name"
  by (auto simp: fd_cstr_def split: if_splits dest: set_takeWhileD)

lemma syscall_close_inv:
  assumes inv: "kernel_inv k bs as" and o: "syscall_close regs k = Some (r, k', c)"
  shows "kernel_inv k' bs as"
proof -
  let ?fd = "unat (reg_ebx regs)"
  note D = kernel_invD [OF inv]
  have "length (fd_name (cur_fds k ! ?fd)) = 64" if "?fd < 16" using D(5) that by (simp add: fds_ok_def)
  then have "kernel_inv (set_fd ?fd ((cur_fds k ! ?fd)\<lparr>fd_used := 0\<rparr>) k) bs as" if "?fd < 16"
    using that D(5) by (intro kernel_inv_set_fd [OF inv] fds_ok_update) simp_all
  then show ?thesis using o inv D(4) by (auto simp: syscall_close_def Let_def MAX_FD_def split: if_splits)
qed

lemma syscall_write_inv:
  assumes inv: "kernel_inv k bs as" and o: "syscall_write regs k = Some (r, k', c)" and len: "unat (reg_edx regs) \<le> 0xFFFFFE00"
  shows "kernel_inv k' bs as"
proof -
  note D = kernel_invD [OF inv]
  consider "write_chars (reg_ecx regs) (unat (reg_edx regs)) k = Some k'" | "k' = k"
    | name n where "0 \<notin> set name" "fs_write_k name (reg_ecx regs) (reg_edx regs) k = Some (k', n)"
    using o D(4) by (auto simp: syscall_write_def Let_def bind_eq_Some_conv dest: fd_cstr_no_zero split: if_splits)
  then show ?thesis using write_chars_inv [OF inv] fs_write_k_inv [OF inv _ len] inv by cases blast+
qed

lemma syscall_exit_inv:
  assumes inv: "kernel_inv k bs as"
  obtains k' where "syscall_exit regs k = Some (regs, k', Halts)" "kernel_inv k' bs as"
    "dead (ksched k') (current_process (ksched k'))" "current_process (ksched k') = current_process (ksched k)" "kfs k' = kfs k"
proof -
  note D = kernel_invD [OF inv]
  let ?m = "(''[PID %d exited with code %d]'' @ nl,
    [KInt (pid (procs (ksched k) (current_process (ksched k)))), KInt (reg_ebx regs)])"
  have "msg_ok ?m" by (simp add: msg_ok_def)
  then obtain c where c: "kprint [?m] k = Some (k\<lparr>kcon := c\<rparr>)" "con_inv c" using kprint_ok [OF D(3), of "[?m]"] by auto
  obtain s' where s': "process_exit (ksched k) = Some s'" "sched_inv s' as" "current_process s' = current_process (ksched k)"
    "\<And>a. dead s' a = (a = current_process (ksched k) \<or> dead (ksched k) a)"
    by (rule process_exit_spec [OF D(6)]) (rule that)
  have same: "kmem s' = kmem (ksched k)" "fds (procs s' a) = fds (procs (ksched k) a)" for a
    using s'(1) by (auto simp: process_exit_def split: if_splits)
  have "kernel_inv (k\<lparr>kcon := c, ksched := s'\<rparr>) bs as"
    using inv c(2) s'(2) same by (simp add: kernel_inv_def owned_def)
  then show thesis using that [of "k\<lparr>kcon := c, ksched := s'\<rparr>"] c(1) s' D(4) by (simp add: syscall_exit_def)
qed

subsection \<open>A kernel for the examples\<close>

definition console_boot :: console where
  "console_boot = \<lparr>tty = terminal_initialize \<lparr>terminal_row = 0, terminal_column = 0, terminal_color = 0,
       terminal_buffer = [], vga_ports = []\<rparr>,
     ser = \<lparr>lsr = \<lambda>n. 0x20, polls = 0, com_ports = []\<rparr>\<rparr>"

lemma console_boot_inv: "con_inv console_boot"
  by (simp add: console_boot_def con_inv_def uart_live_def terminal_initialize_inv) blast

definition user_regs :: "u32 \<Rightarrow> u32 \<Rightarrow> u32 \<Rightarrow> u32 \<Rightarrow> registers_t" where
  "user_regs eax ebx ecx edx = \<lparr>reg_ds = 0x23, reg_edi = 0, reg_esi = 0, reg_ebp = 0, reg_esp = 0, reg_ebx = ebx, reg_edx = edx,
     reg_ecx = ecx, reg_eax = eax, reg_int_no = 128, reg_err_code = 0, reg_eip = 0x400000, reg_cs = 0x1B, reg_eflags = 0x202,
     reg_useresp = 0x500000, reg_ss = 0x23\<rparr>"

text \<open>
  A booted kernel with the file \<open>hello\<close> holding given bytes, and the name of the file in the
  one block of the heap.
\<close>

lemma fs_hello_file:
  assumes "0 < length data" "length data \<le> 512"
  obtains f where "fs_inv f" "files (disk f) hello = Some data"
proof -
  have n: "(length data + 511) div 512 = 1" by (rule div_nat_eqI) (use assms in \<open>simp_all add: Suc_le_eq\<close>)
  have u: "unat (of_nat (length data) :: u32) = length data" using assms(2) by (simp add: unat_of_nat_u32)
  obtain f where "fs_inv f" "files (disk f) = (files (disk fs_hello))(hello \<mapsto> take (length data) (padded (chunk_at data (length data) 0)))"
    by (rule fs_write_named [OF fs_hello_state(1,4), of "of_nat (length data)" data 0])
      (use assms(2) n fs_hello_state(2,5) in \<open>simp_all add: u formatted_sb_def\<close>)
  then show thesis using that assms by (simp add: padded_def chunk_at_def)
qed

lemma kernel_demo_file:
  assumes "0 < length data" "length data \<le> 512"
  obtains k where "kernel_inv k [(1240, False), (1047312, True)] [0x100000C]" "current_process (ksched k) = 0x100000C"
    "files (disk (kfs k)) hello = Some data" "kvm k = vmm_boot" "kpm k = pmm_boot2" "readable 0x100000C 6 k = hello @ [0]"
    "\<And>i. i < 16 \<Longrightarrow> fd_used (cur_fds k ! i) = (if i < 3 then 1 else 0)" "block_region k 0x100000C 512"
proof -
  let ?bs = "[(1240, False), (1047312, True)]"
  obtain s bs where s: "process_init sched_zero = Some (s, [(''Process: kernel process created (PID 0)'' @ nl, [])])"
    "owned s bs [0x100000C]" "current_process s = 0x100000C" "heap_rep (kmem s) ?bs" by (rule sched_boot_state)
  obtain f where f: "fs_inv f" "files (disk f) hello = Some data" by (rule fs_hello_file [OF assms])
  have fd: "fds (procs s 0x100000C) = init_fds (fds no_process)"
    using s(1,3) by (auto simp: process_init_def sched_zero_def bind_eq_Some_conv Let_def split: if_splits)
  have own: "owned s ?bs [0x100000C]" using s(2,4) by (auto simp: owned_def)
  let ?k = "\<lparr>ksched = s, kfs = f, kvm = vmm_boot, kpm = pmm_boot2, kcon = console_boot\<rparr>"
  have live: "(0x100000C, 1240) \<in> live 0x1000000 ?bs" by simp
  obtain h' where h': "store_bytes (of_nat 0x100000C) (hello @ [0]) ?k = Some (set_heap h' ?k)" "heap_rep h' ?bs"
    "readable (of_nat 0x100000C) (length (hello @ [0])) (set_heap h' ?k) = hello @ [0]"
    using readable_store_block [of ?k ?bs "0x100000C" 1240 "hello @ [0]"] s(4) live by auto
  let ?z = "\<lparr>fd_used = 0, fd_name = replicate 64 0, fd_position = 0, fd_size = 0\<rparr>"
  have "fds_ok (replicate 16 ?z)" by (simp add: fds_ok_def)
  then have "fds_ok ((replicate 16 ?z)[0 := ?z\<lparr>fd_used := 1\<rparr>, 1 := ?z\<lparr>fd_used := 1\<rparr>, 2 := ?z\<lparr>fd_used := 1\<rparr>])"
    by (intro fds_ok_update) simp_all
  then have "fds_ok (init_fds (fds no_process))" by (simp add: init_fds_def no_process_def MAX_FD_def)
  then have inv: "kernel_inv (set_heap h' ?k) ?bs [0x100000C]"
    using own h'(2) f(1) fd console_boot_inv by (simp add: kernel_inv_def owned_def set_heap_def sched_inv_def)
  have "heap_rep (kheap_of (set_heap h' ?k)) ?bs" using h'(2) by simp
  then have "block_region (set_heap h' ?k) 0x100000C 512"
    unfolding block_region_def using live by (intro exI [of _ ?bs] exI [of _ 1240]) simp
  moreover have "fd_used (init_fds (fds no_process) ! i) = (if i < 3 then 1 else 0)" if "i < 16" for i
    using that by (auto simp: init_fds_def no_process_def MAX_FD_def nth_list_update)
  moreover have "length (hello @ [0]) = 6" "of_nat 0x100000C = (0x100000C :: u32)" by simp_all
  from h'(3) [unfolded this] have nm: "readable 0x100000C 6 (set_heap h' ?k) = hello @ [0]" .
  ultimately show thesis using that [of "set_heap h' ?k"] inv s(3) f(2) nm fd by (simp del: readable.simps)
qed

lemma kernel_demo:
  obtains k where "kernel_inv k [(1240, False), (1047312, True)] [0x100000C]" "current_process (ksched k) = 0x100000C"
    "files (disk (kfs k)) hello = Some [1, 2, 3]" "readable 0x100000C 6 k = hello @ [0]"
    "\<And>i. i < 16 \<Longrightarrow> fd_used (cur_fds k ! i) = (if i < 3 then 1 else 0)" "block_region k 0x100000C 512"
proof -
  have "0 < length [1, 2, 3 :: u8]" "length [1, 2, 3 :: u8] \<le> 512" by simp_all
  then show thesis by (rule kernel_demo_file) (rule that)
qed


subsection \<open>Properties\<close>

lemma heap_seg_unique: "heap_seg a bs m \<Longrightarrow> heap_seg a bs' m \<Longrightarrow> 0x1000000 \<le> a \<Longrightarrow> bs = bs'"
proof (induction a bs m arbitrary: bs' rule: heap_seg.induct)
  case (1 a m)
  then show ?case using heap_seg_bound [of _ _ m] by (cases bs') fastforce+
next
  case (2 a n f bs m)
  have b: "a + 12 + n \<le> 0x1100000" using "2.prems"(1) heap_seg_bound [of "a + 12 + n" bs m] by simp
  then obtain n' f' cs where bs': "bs' = (n', f') # cs" using "2.prems"(2) by (cases bs') auto
  then have b': "a + 12 + n' \<le> 0x1100000" using "2.prems"(2) heap_seg_bound [of "a + 12 + n'" cs m] by simp
  have n: "n' = n" "f' = f" using "2.prems"(1,2) bs' b b' of_nat_u32_eq_iff [of n n'] by auto
  then show ?case using "2.IH" [of cs] "2.prems" bs' by simp
qed

lemma heap_rep_unique: "heap_rep h bs \<Longrightarrow> heap_rep h bs' \<Longrightarrow> bs = bs'"
  using heap_seg_unique by (auto simp: heap_rep_def)

definition buffer_at :: "kernel \<Rightarrow> u32 \<Rightarrow> nat \<Rightarrow> bool" where
  "buffer_at k a n \<longleftrightarrow> page_region k a n \<or> block_region k a n"

lemma buffer_after_scratch:
  assumes "buffer_at k a n" "kvm k' = kvm k" "heap_rep (kheap_of k) bs" "heap_rep (kheap_of k') bs'"
    "live 0x1000000 bs' = live 0x1000000 bs"
  shows "buffer_at k' a n"
proof (cases "page_region k a n")
  case True
  then have "page_region k' a n" using assms(2) by (simp add: page_region_def mapped_def)
  then show ?thesis by (simp add: buffer_at_def)
next
  case False
  then obtain b m where "heap_rep (kheap_of k) b" "(unat a, m) \<in> live 0x1000000 b" "n \<le> m"
    using assms(1) by (auto simp: buffer_at_def block_region_def)
  then have "block_region k' a n" unfolding block_region_def using assms(3,4,5) heap_rep_unique by blast
  then show ?thesis by (simp add: buffer_at_def)
qed

lemma read_buffer_inv:
  assumes "kernel_inv k bs as" "page_effect k a n k' \<or> block_region k a n \<and> block_effect k a n k'"
  shows "kernel_inv k' bs as" "kfs k' = kfs k" "cur_fds k' = cur_fds k"
proof -
  have "kernel_inv k' bs as \<and> kfs k' = kfs k \<and> cur_fds k' = cur_fds k"
    using assms(2)
  proof
    assume "page_effect k a n k'"
    then show ?thesis using assms(1) by (auto simp: page_effect_def kernel_inv_def)
  next
    assume b: "block_region k a n \<and> block_effect k a n k'"
    then obtain h' where h': "k' = set_heap h' k" "\<And>bs m. heap_rep (kheap_of k) bs \<Longrightarrow> (unat a, m) \<in> live 0x1000000 bs \<Longrightarrow> n \<le> m \<Longrightarrow> heap_rep h' bs"
      by (auto simp: block_effect_def)
    have "heap_rep h' bs"
      using b h'(2) heap_rep_unique [OF kernel_invD(1) [OF assms(1)]] by (auto simp: block_region_def)
    then show ?thesis using assms(1) h'(1) by (simp add: kernel_inv_def owned_def sched_inv_def)
  qed
  then show "kernel_inv k' bs as" "kfs k' = kfs k" "cur_fds k' = cur_fds k" by simp_all
qed



lemma syscall_inv:
  assumes "kernel_inv k bs as" "reg_eax regs \<noteq> SYS_READ" "reg_eax regs = SYS_WRITE \<Longrightarrow> unat (reg_edx regs) \<le> 0xFFFFFE00"
    and "syscall_handler regs k = Some (regs', k', c)"
  shows "\<exists>bs'. kernel_inv k' bs' as \<and> live 0x1000000 bs' = live 0x1000000 bs"
proof -
  consider "reg_eax regs = SYS_EXIT" | "reg_eax regs = SYS_WRITE" | "reg_eax regs = SYS_OPEN" | "reg_eax regs = SYS_CLOSE"
    | "reg_eax regs \<notin> {SYS_EXIT, SYS_WRITE, SYS_READ, SYS_OPEN, SYS_CLOSE}" using assms(2) by blast
  then show ?thesis
  proof cases
    case 1
    then show ?thesis using syscall_exit_inv [OF assms(1), of regs] handler_cases(1) assms(4) by (metis option.inject prod.inject)
  next
    case 2
    then show ?thesis using syscall_write_inv [OF assms(1)] handler_cases(2) assms(3,4) by metis
  next
    case 3
    then show ?thesis using syscall_open_inv [OF assms(1)] handler_cases(4) assms(4) by metis
  next
    case 4
    then show ?thesis using syscall_close_inv [OF assms(1)] handler_cases(5) assms(4) by metis
  next
    case 5
    let ?ms = "[(''syscall: unknown call %d'' @ nl, [KInt (reg_eax regs)])]"
    have "list_all msg_ok ?ms" by (simp add: msg_ok_def)
    moreover have "kprint ?ms k = Some k'" using 5 assms(4) by (auto simp: syscall_handler_def bind_eq_Some_conv split: if_splits)
    ultimately show ?thesis using kprint_inv(1) [OF assms(1)] by blast
  qed
qed



text \<open>A descriptor that is not open is refused: \<open>SYS_READ\<close>, \<open>SYS_CLOSE\<close>, and \<open>SYS_WRITE\<close> past the
  standard descriptors, on a number of 16 or more or on a closed descriptor, return -1 and
  change nothing; nor can the standard descriptors be closed.\<close>

theorem syscall_bad_descriptor:
  assumes "kernel_inv k bs as" "16 \<le> unat (reg_ebx regs) \<or> fd_used (cur_fds k ! unat (reg_ebx regs)) = 0 \<or>
      reg_eax regs = SYS_CLOSE \<and> unat (reg_ebx regs) < 3"
    and "reg_eax regs = SYS_READ \<or> reg_eax regs = SYS_CLOSE \<or> reg_eax regs = SYS_WRITE \<and> reg_ebx regs \<notin> {1, 2}"
  shows "syscall_handler regs k = Some (regs\<lparr>reg_eax := -1\<rparr>, k, Returns)"
proof -
  note D = kernel_invD(4) [OF assms(1)]
  have c: "\<not> 3 \<le> reg_ebx regs" if "unat (reg_ebx regs) < 3" using that by (simp add: word_le_nat_alt)
  consider "reg_eax regs = SYS_READ" | "reg_eax regs = SYS_CLOSE" | "reg_eax regs = SYS_WRITE" "reg_ebx regs \<notin> {1, 2}"
    using assms(3) by blast
  then show ?thesis
  proof cases
    case 1
    then show ?thesis using assms(2) D by (auto simp: handler_cases(3) syscall_read_def Let_def MAX_FD_def const_defs)
  next
    case 2
    then show ?thesis using assms(2) D c by (auto simp: handler_cases(5) syscall_close_def Let_def MAX_FD_def)
  next
    case 3
    then show ?thesis using assms(2) D by (auto simp: handler_cases(2) syscall_write_def Let_def MAX_FD_def const_defs)
  qed
qed

theorem syscall_bad_descriptor_witness:
  "\<exists>k. syscall_handler (user_regs SYS_READ 7 0x400000 100) k = Some (user_regs (-1) 7 0x400000 100, k, Returns)"
proof -
  obtain k where k: "kernel_inv k [(1240, False), (1047312, True)] [0x100000C]"
    "\<And>i. i < 16 \<Longrightarrow> fd_used (cur_fds k ! i) = (if i < 3 then 1 else 0)"
    by (rule kernel_demo) (rule that)
  then show ?thesis
    using syscall_bad_descriptor [OF k(1), of "user_regs SYS_READ 7 0x400000 100"] by (auto simp: user_regs_def)
qed

end
