(* ===== verification/Elf.thy ===== *)
theory Elf
  imports Syscall
begin

text \<open>
  The program loader, \<open>kernel/elf.c\<close>. The file is read into a block of the heap and its
  headers are read from there, field by field and as often as the code reads them, so a
  header that the loading of a segment overwrites is seen changed. Segments are stored
  through the page walk, with the pages the loader has just mapped.
\<close>

definition ELF_MAGIC :: u32 where [const_defs]: "ELF_MAGIC = 0x464C457F"
definition ET_EXEC :: u16 where [const_defs]: "ET_EXEC = 2"
definition EM_386 :: u16 where [const_defs]: "EM_386 = 3"
definition PT_LOAD :: u32 where [const_defs]: "PT_LOAD = 1"

text \<open>Fields of 16 and 32 bits in memory, lowest byte first.\<close>

definition load16 :: "u32 \<Rightarrow> kernel \<Rightarrow> u16 option" where
  "load16 a k = do { l \<leftarrow> load8 a k; h \<leftarrow> load8 (a + 1) k; Some (ucast l OR push_bit 8 (ucast h)) }"

definition load32 :: "u32 \<Rightarrow> kernel \<Rightarrow> u32 option" where
  "load32 a k =
     do { p \<leftarrow> load8 a k; q \<leftarrow> load8 (a + 1) k; r \<leftarrow> load8 (a + 2) k; s \<leftarrow> load8 (a + 3) k;
          Some (ucast p OR push_bit 8 (ucast q) OR push_bit 16 (ucast r) OR push_bit 24 (ucast s)) }"

text \<open>The fields of the packed \<open>elf_header_t\<close> that the loader reads, at their offsets.\<close>

definition hdr_magic :: "u32 \<Rightarrow> kernel \<Rightarrow> u32 option" where "hdr_magic header = load32 header"
definition hdr_bits :: "u32 \<Rightarrow> kernel \<Rightarrow> u8 option" where "hdr_bits header = load8 (header + 4)"
definition hdr_type :: "u32 \<Rightarrow> kernel \<Rightarrow> u16 option" where "hdr_type header = load16 (header + 16)"
definition hdr_machine :: "u32 \<Rightarrow> kernel \<Rightarrow> u16 option" where "hdr_machine header = load16 (header + 18)"
definition hdr_entry :: "u32 \<Rightarrow> kernel \<Rightarrow> u32 option" where "hdr_entry header = load32 (header + 24)"
definition hdr_ph_offset :: "u32 \<Rightarrow> kernel \<Rightarrow> u32 option" where "hdr_ph_offset header = load32 (header + 28)"
definition hdr_ph_count :: "u32 \<Rightarrow> kernel \<Rightarrow> u16 option" where "hdr_ph_count header = load16 (header + 44)"

text \<open>Those of \<open>elf_program_header_t\<close>, 32 bytes each; \<open>ph_at\<close> is \<open>&ph[i]\<close>.\<close>

definition ph_at :: "u32 \<Rightarrow> u16 \<Rightarrow> u32" where "ph_at ph i = ph + 32 * ucast i"
definition ph_type :: "u32 \<Rightarrow> kernel \<Rightarrow> u32 option" where "ph_type p = load32 p"
definition ph_offset :: "u32 \<Rightarrow> kernel \<Rightarrow> u32 option" where "ph_offset p = load32 (p + 4)"
definition ph_vaddr :: "u32 \<Rightarrow> kernel \<Rightarrow> u32 option" where "ph_vaddr p = load32 (p + 8)"
definition ph_file_size :: "u32 \<Rightarrow> kernel \<Rightarrow> u32 option" where "ph_file_size p = load32 (p + 16)"
definition ph_mem_size :: "u32 \<Rightarrow> kernel \<Rightarrow> u32 option" where "ph_mem_size p = load32 (p + 20)"

fun elf_memcpy :: "u32 \<Rightarrow> u32 \<Rightarrow> nat \<Rightarrow> kernel \<Rightarrow> kernel option" where
  "elf_memcpy d s 0 k = Some k"
| "elf_memcpy d s (Suc n) k = do { c \<leftarrow> load8 s k; k \<leftarrow> store8 d c k; elf_memcpy (d + 1) (s + 1) n k }"

fun elf_memset :: "u32 \<Rightarrow> u8 \<Rightarrow> nat \<Rightarrow> kernel \<Rightarrow> kernel option" where
  "elf_memset p val 0 k = Some k"
| "elf_memset p val (Suc n) k = do { k \<leftarrow> store8 p val k; elf_memset (p + 1) val n k }"

text \<open>
  The loop that backs a segment with pages; the address is read again for every page. The
  result says whether there was memory for all of them. Reloading CR3 has no effect here:
  the walk always reads the tables.
\<close>

function elf_map_pages :: "u32 \<Rightarrow> u32 \<Rightarrow> u32 \<Rightarrow> kernel \<Rightarrow> (kernel \<times> bool) option" where
  "elf_map_pages ph p pages k =
     (if p < pages
      then do { (m, phys) \<leftarrow> pmm_alloc (kpm k);
                let k = k\<lparr>kpm := m\<rparr>;
                if phys = 0 then Some (k, False)
                else do { vaddr \<leftarrow> ph_vaddr ph k;
                          (s, m, ms) \<leftarrow> vmm_map (vaddr + p * 4096) phys (PAGE_PRESENT OR PAGE_WRITABLE OR PAGE_USER) (kvm k) (kpm k);
                          k \<leftarrow> kprint ms (k\<lparr>kvm := s, kpm := m\<rparr>);
                          elf_map_pages ph (p + 1) pages k } }
      else Some (k, True))"
  by pat_completeness auto
termination
  by (relation "measure (\<lambda>(ph, p, pages, k). unat pages - unat p)") (auto simp: word_less_nat_alt intro!: diff_less_mono2)

declare elf_map_pages.simps [simp del]

text \<open>One segment, \<open>buf\<close> being the file.\<close>

definition elf_segment :: "u32 \<Rightarrow> u32 \<Rightarrow> u16 \<Rightarrow> kernel \<Rightarrow> (kernel \<times> bool) option" where
  "elf_segment buf ph i k =
     do { v \<leftarrow> ph_vaddr ph k; n \<leftarrow> ph_mem_size ph k;
          k \<leftarrow> kprint [(''ELF: segment %d: vaddr=%x size=%d'' @ nl, [KInt (ucast i), KInt v, KInt n])] k;
          n \<leftarrow> ph_mem_size ph k;
          (k, ok) \<leftarrow> elf_map_pages ph 0 ((n + 4095) div 4096) k;
          if \<not> ok then do { k \<leftarrow> kprint [(''ELF: out of physical memory'' @ nl, [])] k; Some (k, False) }
          else do { v \<leftarrow> ph_vaddr ph k; off \<leftarrow> ph_offset ph k; fsize \<leftarrow> ph_file_size ph k;
                    k \<leftarrow> elf_memcpy v (buf + off) (unat fsize) k;
                    msize \<leftarrow> ph_mem_size ph k; fsize \<leftarrow> ph_file_size ph k;
                    if msize > fsize
                    then do { v \<leftarrow> ph_vaddr ph k;
                              k \<leftarrow> elf_memset (v + fsize) 0 (unat (msize - fsize)) k;
                              Some (k, True) }
                    else Some (k, True) } }"

lemma unat_u16_less [simp]: "unat (x :: u16) < 65536"
  using unsigned_less [of x, where ?'a = nat] by simp

lemma unat_inc_u16: "i < (n :: u16) \<Longrightarrow> unat (i + 1) = Suc (unat i)"
  using unat_add_lem [of i 1] unat_u16_less [of n] by (simp add: word_less_nat_alt)

lemma u16_loop_measure: "i < (n :: u16) \<Longrightarrow> 65536 - unat (i + 1) < 65536 - unat i"
  using unat_u16_less [of n] unat_inc_u16 [of i n] unfolding word_less_nat_alt by linarith

text \<open>The loop over the program headers, its count read again before each of them.\<close>

function elf_segments :: "u32 \<Rightarrow> u32 \<Rightarrow> u16 \<Rightarrow> kernel \<Rightarrow> (kernel \<times> bool) option" where
  "elf_segments buf ph i k =
     do { count \<leftarrow> hdr_ph_count buf k;
          if i < count
          then do { t \<leftarrow> ph_type (ph_at ph i) k;
                    if t \<noteq> PT_LOAD then elf_segments buf ph (i + 1) k
                    else do { (k, ok) \<leftarrow> elf_segment buf (ph_at ph i) i k;
                              if ok then elf_segments buf ph (i + 1) k else Some (k, False) } }
          else Some (k, True) }"
  by pat_completeness auto
termination
  by (relation "measure (\<lambda>(buf, ph, i, k). 65536 - unat i)") (auto simp: u16_loop_measure)

declare elf_segments.simps [simp del]

text \<open>The exits that give the buffer back.\<close>

definition elf_reject :: "msg list \<Rightarrow> u32 \<Rightarrow> u32 \<Rightarrow> kernel \<Rightarrow> (kernel \<times> int \<times> u32) option" where
  "elf_reject ms buf entry_point k = do { k \<leftarrow> kprint ms k; k \<leftarrow> kfree_k buf k; Some (k, -1, entry_point) }"

definition elf_load :: "bytes \<Rightarrow> u32 \<Rightarrow> kernel \<Rightarrow> (kernel \<times> int \<times> u32) option" where
  "elf_load filename entry_point k =
     do { (k, buf) \<leftarrow> kmalloc_k 8192 k;
          if buf = 0 then do { k \<leftarrow> kprint [(''ELF: out of memory'' @ nl, [])] k; Some (k, -1, entry_point) }
          else do {
            (k, n) \<leftarrow> fs_read_k filename buf 8192 k;
            if n \<le> 0 then elf_reject [(''ELF: could not read '' @ [CHR 0x27] @ ''%s'' @ [CHR 0x27] @ nl, [KStr (Some filename)])] buf entry_point k
            else do {
              magic \<leftarrow> hdr_magic buf k;
              if magic \<noteq> ELF_MAGIC then elf_reject [(''ELF: invalid magic number'' @ nl, [])] buf entry_point k
              else do {
                bits \<leftarrow> hdr_bits buf k; machine \<leftarrow> hdr_machine buf k;
                if bits \<noteq> 1 \<or> machine \<noteq> EM_386 then elf_reject [(''ELF: not a 32-bit x86 binary'' @ nl, [])] buf entry_point k
                else do {
                  type \<leftarrow> hdr_type buf k;
                  if type \<noteq> ET_EXEC then elf_reject [(''ELF: not an executable'' @ nl, [])] buf entry_point k
                  else do {
                    entry \<leftarrow> hdr_entry buf k;
                    k \<leftarrow> kprint [(''ELF: loading '' @ [CHR 0x27] @ ''%s'' @ [CHR 0x27] @ '', entry at %x'' @ nl, [KStr (Some filename), KInt entry])] k;
                    off \<leftarrow> hdr_ph_offset buf k;
                    (k, ok) \<leftarrow> elf_segments buf (buf + off) 0 k;
                    if \<not> ok then elf_reject [] buf entry_point k
                    else do {
                      entry \<leftarrow> hdr_entry buf k;
                      k \<leftarrow> kfree_k buf k;
                      k \<leftarrow> kprint [(''ELF: loaded successfully'' @ nl, [])] k;
                      Some (k, 0, entry) } } } } } } }"

subsection \<open>Fields of a file in memory\<close>

definition un16 :: "bytes \<Rightarrow> u16" where
  "un16 bs = ucast (bs ! 0) OR push_bit 8 (ucast (bs ! 1))"

definition holds :: "kernel \<Rightarrow> u32 \<Rightarrow> bytes \<Rightarrow> bool" where
  "holds k a d \<longleftrightarrow> (\<forall>i < length d. load8 (a + of_nat i) k = Some (d ! i))"

lemma readable_nth: "length (readable a n k) = n \<Longrightarrow> i < n \<Longrightarrow> load8 (a + of_nat i) k = Some (readable a n k ! i)"
proof (induction n arbitrary: a i)
  case (Suc n)
  obtain c where c: "load8 a k = Some c" using Suc.prems(1) by (auto split: option.splits)
  then have "length (readable (a + 1) n k) = n" using Suc.prems(1) by simp
  then show ?case using Suc.IH [of "a + 1" "i - 1"] Suc.prems(2) c by (cases i) (auto simp: add.assoc)
qed simp

lemma holds_readable: "readable a (length d) k = d \<longleftrightarrow> holds k a d"
  using readable_nth [of a "length d" k] readable_eqI [of d a k] by (auto simp: holds_def)

lemma load32_holds:
  assumes "holds k a d" "j + 4 \<le> length d"
  shows "load32 (a + of_nat j) k = Some (un32 (drop j d))"
proof -
  have "load8 (a + of_nat j + of_nat i) k = Some (d ! (j + i))" if "i < 4" for i
    using assms that by (simp add: holds_def add.assoc flip: of_nat_add)
  from this [of 0] this [of 1] this [of 2] this [of 3] show ?thesis
    using assms(2) by (simp add: load32_def un32_def)
qed

lemma load16_holds:
  assumes "holds k a d" "j + 2 \<le> length d"
  shows "load16 (a + of_nat j) k = Some (un16 (drop j d))"
proof -
  have "load8 (a + of_nat j + of_nat i) k = Some (d ! (j + i))" if "i < 2" for i
    using assms that by (simp add: holds_def add.assoc flip: of_nat_add)
  from this [of 0] this [of 1] show ?thesis using assms(2) by (simp add: load16_def un16_def)
qed

text \<open>The header of a file as the bytes have it, and its loadable segments.\<close>

record segment =
  seg_offset :: nat
  seg_vaddr :: u32
  seg_fsize :: nat
  seg_msize :: nat

definition f_off :: "bytes \<Rightarrow> nat" where "f_off d = unat (un32 (drop 28 d))"
definition f_count :: "bytes \<Rightarrow> nat" where "f_count d = unat (un16 (drop 44 d))"
definition f_entry :: "bytes \<Rightarrow> u32" where "f_entry d = un32 (drop 24 d)"

definition ph_word :: "bytes \<Rightarrow> nat \<Rightarrow> nat \<Rightarrow> u32" where
  "ph_word d i j = un32 (drop (f_off d + 32 * i + j) d)"

definition segment_of :: "bytes \<Rightarrow> nat \<Rightarrow> segment" where
  "segment_of d i = \<lparr>seg_offset = unat (ph_word d i 4), seg_vaddr = ph_word d i 8,
     seg_fsize = unat (ph_word d i 16), seg_msize = unat (ph_word d i 20)\<rparr>"

definition segments_from :: "bytes \<Rightarrow> nat \<Rightarrow> segment list" where
  "segments_from d i = map (segment_of d) (filter (\<lambda>j. ph_word d j 0 = PT_LOAD) [i..<f_count d])"

definition elf_header_ok :: "bytes \<Rightarrow> bool" where
  "elf_header_ok d \<longleftrightarrow> un32 d = ELF_MAGIC \<and> d ! 4 = 1 \<and> un16 (drop 18 d) = EM_386 \<and> un16 (drop 16 d) = ET_EXEC"

definition elf_tables_ok :: "bytes \<Rightarrow> bool" where
  "elf_tables_ok d \<longleftrightarrow> 52 \<le> length d \<and> f_off d + 32 * f_count d \<le> length d \<and>
     (\<forall>g \<in> set (segments_from d 0). seg_offset g + seg_fsize g \<le> length d \<and> seg_fsize g \<le> seg_msize g)"

lemma header_fields:
  assumes "holds k buf d" "20 \<le> length d"
  shows "hdr_magic buf k = Some (un32 d)" "hdr_bits buf k = Some (d ! 4)" "hdr_machine buf k = Some (un16 (drop 18 d))"
    "hdr_type buf k = Some (un16 (drop 16 d))"
  using load32_holds [OF assms(1), of 0] load16_holds [OF assms(1), of 18] load16_holds [OF assms(1), of 16]
    assms by (simp_all add: hdr_magic_def hdr_bits_def hdr_machine_def hdr_type_def) (force simp: holds_def dest: spec [of _ 4])

lemma table_fields:
  assumes "holds k buf d" "52 \<le> length d"
  shows "hdr_entry buf k = Some (f_entry d)" "hdr_ph_offset buf k = Some (of_nat (f_off d))"
    "hdr_ph_count buf k = Some (of_nat (f_count d))"
  using load32_holds [OF assms(1), of 24] load32_holds [OF assms(1), of 28] load16_holds [OF assms(1), of 44] assms(2)
  by (simp_all add: hdr_entry_def hdr_ph_offset_def hdr_ph_count_def f_entry_def f_off_def f_count_def)

lemma ph_fields:
  assumes "holds k buf d" "elf_tables_ok d" "unat i < f_count d"
  defines "p \<equiv> ph_at (buf + of_nat (f_off d)) i"
  shows "ph_type p k = Some (ph_word d (unat i) 0)" "ph_offset p k = Some (ph_word d (unat i) 4)"
    "ph_vaddr p k = Some (ph_word d (unat i) 8)" "ph_file_size p k = Some (ph_word d (unat i) 16)"
    "ph_mem_size p k = Some (ph_word d (unat i) 20)"
proof -
  have b: "f_off d + 32 * unat i + 32 \<le> length d" using assms(2,3) by (auto simp: elf_tables_ok_def)
  have p: "p + of_nat j = buf + of_nat (f_off d + 32 * unat i + j)" for j
    by (simp add: p_def ph_at_def)
  have l: "load32 (p + of_nat j) k = Some (ph_word d (unat i) j)" if "j + 4 \<le> 32" for j
    unfolding p ph_word_def using b that by (intro load32_holds [OF assms(1)]) simp
  from l [of 0] l [of 4] l [of 8] l [of 16] l [of 20] show "ph_type p k = Some (ph_word d (unat i) 0)"
    "ph_offset p k = Some (ph_word d (unat i) 4)" "ph_vaddr p k = Some (ph_word d (unat i) 8)"
    "ph_file_size p k = Some (ph_word d (unat i) 16)" "ph_mem_size p k = Some (ph_word d (unat i) 20)"
    by (simp_all add: ph_type_def ph_offset_def ph_vaddr_def ph_file_size_def ph_mem_size_def)
qed

subsection \<open>Mapping the pages of a segment\<close>

text \<open>With its page table there, \<open>vmm_map\<close> stores one entry and takes no frame.\<close>

lemma vmm_map_present:
  assumes inv: "vmm_inv s m" "pmm_inv m" and p: "pde_present s (unat (dir_index virt))"
    and t: "\<forall>d < 1024. pde_present s d \<longrightarrow> vpage (table_frame s d) \<noteq> vpage virt" and al: "aligned phys"
  obtains s' where "vmm_map virt phys page_rwu s m = Some (s', m, [])" "vmm_inv s' m" "page_directory s' = page_directory s"
    "\<And>va. mmu_walk s' va = (if vpage va = vpage virt then Some (phys OR (va AND 0xFFF)) else mmu_walk s va)"
    "\<And>a. (\<forall>d < 1024. pde_present s d \<longrightarrow> frame_of a \<noteq> table_frame s d) \<Longrightarrow> pmem s' a = pmem s a"
proof -
  let ?d = "unat (dir_index virt)"
  let ?a = "table_frame s ?d + 4 * tbl_index virt"
  have "table_ready virt s m" "not_table virt s m" using p t by (simp_all add: table_ready_def not_table_def)
  from vmm_map_spec [OF inv frame_of_rwu this, of phys] obtain s' m' where s': "vmm_map virt phys page_rwu s m = Some (s', m', [])"
    "vmm_inv s' m'" "\<And>va. mmu_walk s' va = (if vpage va = vpage virt then Some (frame_of phys OR (va AND 0xFFF)) else mmu_walk s va)"
    by metis
  have "ident s (table_frame s ?d)" "table_frame s ?d \<noteq> 0" using inv(1) p by (simp_all add: vmm_inv_def)
  then have e: "s' = s\<lparr>pmem := (pmem s)(?a := frame_of phys OR page_rwu OR PAGE_PRESENT)\<rparr>" "m' = m"
    using s'(1) p kwrite32_ident [of s "table_frame s ?d"]
    by (simp_all add: vmm_map_def vmm_get_table_def pde_present_def table_frame_def Let_def)
  have "frame_of ?a = table_frame s ?d"
    using entry_page [of "table_frame s ?d" "tbl_index virt"] unat_aligned [of "table_frame s ?d"] by (simp add: word_eq_unat unat_frame)
  then have "pmem s' a = pmem s a" if "\<forall>d < 1024. pde_present s d \<longrightarrow> frame_of a \<noteq> table_frame s d" for a
    using that p e(1) by auto
  then show thesis using that [of s'] s' e al by simp
qed

lemma vmm_inv_fewer: "vmm_inv s m \<Longrightarrow> free_frames m' \<subseteq> free_frames m \<Longrightarrow> vmm_inv s m'"
  unfolding vmm_inv_def by blast

text \<open>Pages \<open>P\<close> backed by distinct frames that were free, nothing else remapped, no byte outside the tables changed.\<close>

definition backed :: "kernel \<Rightarrow> nat set \<Rightarrow> (nat \<Rightarrow> u32) \<Rightarrow> kernel \<Rightarrow> bool" where
  "backed k P fr k' \<longleftrightarrow> (\<exists>s m. k' = k\<lparr>kvm := s, kpm := m\<rparr>) \<and> vmm_inv (kvm k') (kpm k') \<and> pmm_inv (kpm k') \<and>
     page_directory (kvm k') = page_directory (kvm k) \<and>
     (\<forall>va. mmu_walk (kvm k') va = (if vpage va \<in> P then Some (fr (vpage va) OR (va AND 0xFFF)) else mmu_walk (kvm k) va)) \<and>
     (\<forall>p \<in> P. aligned (fr p) \<and> vpage (fr p) \<in> free_frames (kpm k) - free_frames (kpm k')) \<and> inj_on fr P \<and>
     free_frames (kpm k') \<subseteq> free_frames (kpm k) \<and> card (free_frames (kpm k')) + card P = card (free_frames (kpm k)) \<and>
     (\<forall>a. (\<forall>d < 1024. pde_present (kvm k) d \<longrightarrow> frame_of a \<noteq> table_frame (kvm k) d) \<longrightarrow> pmem (kvm k') a = pmem (kvm k) a)"

lemma directory_cong:
  "page_directory s' = page_directory s \<Longrightarrow> pde_present s' = pde_present s \<and> table_frame s' = table_frame s"
  by (simp add: fun_eq_iff pde_present_def table_frame_def)

lemma backed_empty: "vmm_inv (kvm k) (kpm k) \<Longrightarrow> pmm_inv (kpm k) \<Longrightarrow> backed k {} fr k"
  by (simp add: backed_def) (intro exI [of _ "kvm k"] exI [of _ "kpm k"], simp)

lemma finite_free [simp]: "finite (free_frames m)"
  by (simp add: free_frames_def)

lemma backed_extend:
  assumes b: "backed (k\<lparr>kvm := s, kpm := m\<rparr>) P fr k'" and p: "p \<notin> P" "finite P"
    and s: "page_directory s = page_directory (kvm k)"
      "\<And>va. mmu_walk s va = (if vpage va = p then Some (f OR (va AND 0xFFF)) else mmu_walk (kvm k) va)"
      "\<And>a. (\<forall>d < 1024. pde_present (kvm k) d \<longrightarrow> frame_of a \<noteq> table_frame (kvm k) d) \<Longrightarrow> pmem s a = pmem (kvm k) a"
    and m: "vpage f \<in> free_frames (kpm k)" "aligned f" "free_frames m = free_frames (kpm k) - {vpage f}"
    and card: "card (free_frames m) + 1 = card (free_frames (kpm k))"
  shows "backed k (insert p P) (fr(p := f)) k'"
proof -
  have B: "\<exists>s m. k' = k\<lparr>kvm := s, kpm := m\<rparr>" "vmm_inv (kvm k') (kpm k')" "pmm_inv (kpm k')" "page_directory (kvm k') = page_directory s"
    "\<And>va. mmu_walk (kvm k') va = (if vpage va \<in> P then Some (fr (vpage va) OR (va AND 0xFFF)) else mmu_walk s va)"
    "\<And>q. q \<in> P \<Longrightarrow> aligned (fr q) \<and> vpage (fr q) \<in> free_frames m - free_frames (kpm k')" "inj_on fr P"
    "free_frames (kpm k') \<subseteq> free_frames m" "card (free_frames (kpm k')) + card P = card (free_frames m)"
    "\<And>a. (\<forall>d < 1024. pde_present s d \<longrightarrow> frame_of a \<noteq> table_frame s d) \<Longrightarrow> pmem (kvm k') a = pmem s a"
    using b unfolding backed_def by simp_all
  have D: "pde_present s = pde_present (kvm k)" "table_frame s = table_frame (kvm k)" using directory_cong [OF s(1)] by simp_all
  have nf: "fr q \<noteq> f" if "q \<in> P" for q
  proof
    assume "fr q = f"
    then have "vpage f \<in> free_frames m" using B(6) [OF that] by (simp only: Diff_iff)
    then show False unfolding m(3) by blast
  qed
  have I1: "inj_on (fr(p := f)) (insert p P)"
  proof (rule inj_onI)
    fix x y assume "x \<in> insert p P" "y \<in> insert p P" "(fr(p := f)) x = (fr(p := f)) y"
    then show "x = y" using nf nf [symmetric] inj_onD [OF B(7), of x y] by (auto split: if_splits)
  qed
  have I2: "mmu_walk (kvm k') va = (if vpage va \<in> insert p P then Some ((fr(p := f)) (vpage va) OR (va AND 0xFFF))
      else mmu_walk (kvm k) va)" for va
    using B(5) [of va] s(2) [of va] p(1) by simp
  have I3: "aligned ((fr(p := f)) q) \<and> vpage ((fr(p := f)) q) \<in> free_frames (kpm k) - free_frames (kpm k')"
    if "q \<in> insert p P" for q
  proof (cases "q = p")
    case True
    then show ?thesis using m(1,2) B(8) unfolding m(3) by (simp only: fun_upd_same) blast
  next
    case False
    then have e: "(fr(p := f)) q = fr q" "q \<in> P" using that by simp_all
    show ?thesis unfolding e(1) using B(6) [OF e(2)] unfolding m(3) by blast
  qed
  have I4: "free_frames (kpm k') \<subseteq> free_frames (kpm k)" using B(8) unfolding m(3) by blast
  have I5: "card (free_frames (kpm k')) + card (insert p P) = card (free_frames (kpm k))" using B(9) card p by simp
  have I6: "pmem (kvm k') a = pmem (kvm k) a" if "\<forall>d < 1024. pde_present (kvm k) d \<longrightarrow> frame_of a \<noteq> table_frame (kvm k) d" for a
    using B(10) [of a] s(3) [of a] that D by simp
  have I7: "page_directory (kvm k') = page_directory (kvm k)" using B(4) s(1) by simp
  show ?thesis unfolding backed_def by (intro conjI allI ballI impI B(1-3) I1 I2 I4 I5 I6 I7 I3 [THEN conjunct1] I3 [THEN conjunct2]; blast)
qed

lemma backed_insert:
  assumes inv: "vmm_inv (kvm k) (kpm k)" "pmm_inv (kpm k)" and free: "free_frames (kpm k) \<noteq> {}"
    and p: "vpage virt = p" "p \<notin> P" "finite P" "pde_present (kvm k) (unat (dir_index virt))"
    "\<forall>d < 1024. pde_present (kvm k) d \<longrightarrow> vpage (table_frame (kvm k) d) \<noteq> p"
  obtains m f s where "pmm_alloc (kpm k) = Some (m, f)" "f \<noteq> 0" "vmm_map virt f page_rwu (kvm k) m = Some (s, m, [])"
    "vmm_inv s m" "pmm_inv m" "page_directory s = page_directory (kvm k)" "card (free_frames m) + 1 = card (free_frames (kpm k))"
    "\<And>fr k'. backed (k\<lparr>kvm := s, kpm := m\<rparr>) P fr k' \<Longrightarrow> backed k (insert p P) (fr(p := f)) k'"
proof -
  obtain m where m: "pmm_alloc (kpm k) = Some (m, next_frame (kpm k))" "pmm_inv m" "next_frame (kpm k) \<noteq> 0"
    "vpage (next_frame (kpm k)) \<in> free_frames (kpm k)" "aligned (next_frame (kpm k))"
    "free_frames m = free_frames (kpm k) - {vpage (next_frame (kpm k))}"
    using pmm_alloc_next_frame [OF inv(2) free] by metis
  let ?f = "next_frame (kpm k)"
  have inv1: "vmm_inv (kvm k) m" using vmm_inv_fewer [OF inv(1)] m(6) by blast
  have t: "\<forall>d < 1024. pde_present (kvm k) d \<longrightarrow> vpage (table_frame (kvm k) d) \<noteq> vpage virt" using p(1,5) by simp
  obtain s where s: "vmm_map virt ?f page_rwu (kvm k) m = Some (s, m, [])" "vmm_inv s m" "page_directory s = page_directory (kvm k)"
    "\<And>va. mmu_walk s va = (if vpage va = p then Some (?f OR (va AND 0xFFF)) else mmu_walk (kvm k) va)"
    "\<And>a. (\<forall>d < 1024. pde_present (kvm k) d \<longrightarrow> frame_of a \<noteq> table_frame (kvm k) d) \<Longrightarrow> pmem s a = pmem (kvm k) a"
    by (rule vmm_map_present [OF inv1 m(2) p(4) t m(5), unfolded p(1)]) (rule that)
  have card: "card (free_frames m) + 1 = card (free_frames (kpm k))"
    using card_Suc_Diff1 [OF finite_free m(4)] m(6) by simp
  have "backed k (insert p P) (fr(p := ?f)) k'" if "backed (k\<lparr>kvm := s, kpm := m\<rparr>) P fr k'" for fr k'
    by (rule backed_extend [OF that p(2,3) s(3-5) m(4,5,6) card])
  then show thesis using that m s card by blast
qed

lemma load8_heap: "in_window a \<Longrightarrow> kheap_of k' = kheap_of k \<Longrightarrow> load8 a k' = load8 a k"
  by (simp add: load8_def)

lemma page_at:
  fixes v p :: u32
  assumes "vpage v + unat p < 1048575"
  shows "vpage (v + p * 4096) = vpage v + unat p"
proof -
  have "unat v = vpage v * 4096 + unat v mod 4096" by simp
  then have "unat v + unat p * 4096 < 4294967296" using assms by linarith
  moreover have "unat (p * 4096) = unat p * 4096" using assms by (simp add: unat_mult_u32)
  ultimately have "unat (v + p * 4096) = unat v + unat p * 4096" by (simp add: unat_add_u32)
  then show ?thesis by simp
qed

lemma elf_map_pages_spec:
  fixes ph :: u32
  assumes "vmm_inv (kvm k) (kpm k)" "pmm_inv (kpm k)" "\<And>s m. ph_vaddr ph (k\<lparr>kvm := s, kpm := m\<rparr>) = Some v"
    and "unat p \<le> unat pages" "vpage v + unat pages < 1048576" "unat pages - unat p \<le> card (free_frames (kpm k))"
    and "\<And>va. vpage va \<in> {vpage v + unat p..<vpage v + unat pages} \<Longrightarrow> pde_present (kvm k) (unat (dir_index va))"
    and "\<forall>d < 1024. pde_present (kvm k) d \<longrightarrow> vpage (table_frame (kvm k) d) \<notin> {vpage v + unat p..<vpage v + unat pages}"
  shows "\<exists>k' fr. elf_map_pages ph p pages k = Some (k', True) \<and> backed k {vpage v + unat p..<vpage v + unat pages} fr k'"
  using assms
proof (induction "unat pages - unat p" arbitrary: p k)
  case 0
  then have e: "unat p = unat pages" "p = pages" by (simp_all add: word_eq_unat)
  have "elf_map_pages ph p pages k = Some (k, True)" unfolding e(2) by (simp add: elf_map_pages.simps [of ph pages])
  then show ?case unfolding e(1) using backed_empty [OF 0(2,3)] by simp
next
  case (Suc n)
  let ?P = "{vpage v + unat (p + 1)..<vpage v + unat pages}" and ?virt = "v + p * 4096"
  have lt: "p < pages" using Suc(2) by (simp add: word_less_nat_alt)
  note lt = lt unat_inc_u32 [OF lt]
  have virt: "vpage ?virt = vpage v + unat p" using Suc(7) lt(1) by (intro page_at) (simp add: word_less_nat_alt)
  have P: "{vpage v + unat p..<vpage v + unat pages} = insert (vpage v + unat p) ?P"
    using lt by (auto simp: word_less_nat_alt)
  have free: "free_frames (kpm k) \<noteq> {}" using Suc(2,8) by auto
  obtain m f s where b: "pmm_alloc (kpm k) = Some (m, f)" "f \<noteq> 0" "vmm_map ?virt f page_rwu (kvm k) m = Some (s, m, [])"
    "vmm_inv s m" "pmm_inv m" "page_directory s = page_directory (kvm k)" "card (free_frames m) + 1 = card (free_frames (kpm k))"
    "\<And>fr k'. backed (k\<lparr>kvm := s, kpm := m\<rparr>) ?P fr k' \<Longrightarrow> backed k (insert (vpage v + unat p) ?P) (fr(vpage v + unat p := f)) k'"
  proof (rule backed_insert [OF Suc(3,4) free virt, of ?P])
    show "vpage v + unat p \<notin> ?P" "finite ?P" using lt(2) by auto
    show "pde_present (kvm k) (unat (dir_index ?virt))" using Suc(9) virt P by blast
    show "\<forall>d < 1024. pde_present (kvm k) d \<longrightarrow> vpage (table_frame (kvm k) d) \<noteq> vpage v + unat p" using Suc(10) P by blast
  qed (rule that)
  let ?k = "k\<lparr>kvm := s, kpm := m\<rparr>"
  have D: "pde_present s = pde_present (kvm k)" "table_frame s = table_frame (kvm k)" using directory_cong [OF b(6)] by simp_all
  have "\<exists>k' fr. elf_map_pages ph (p + 1) pages ?k = Some (k', True) \<and> backed ?k ?P fr k'"
  proof (rule Suc(1))
    show "n = unat pages - unat (p + 1)" "unat (p + 1) \<le> unat pages" "unat pages - unat (p + 1) \<le> card (free_frames (kpm ?k))"
      using Suc(2,6,8) lt b(7) by (simp_all add: word_less_nat_alt)
    show "vmm_inv (kvm ?k) (kpm ?k)" "pmm_inv (kpm ?k)" "\<And>s m. ph_vaddr ph (?k\<lparr>kvm := s, kpm := m\<rparr>) = Some v" "vpage v + unat pages < 1048576"
      using b(4,5) Suc(5,7) by simp_all
    show "\<And>va. vpage va \<in> ?P \<Longrightarrow> pde_present (kvm ?k) (unat (dir_index va))"
      using Suc(9) P D by simp
    show "\<forall>d < 1024. pde_present (kvm ?k) d \<longrightarrow> vpage (table_frame (kvm ?k) d) \<notin> ?P"
      using Suc(10) P D by simp
  qed
  then obtain k' fr where r: "elf_map_pages ph (p + 1) pages ?k = Some (k', True)" "backed ?k ?P fr k'" by blast
  have "ph_vaddr ph (k\<lparr>kpm := m\<rparr>) = Some v" using Suc(5) [of m "kvm k"] by simp
  then have "elf_map_pages ph p pages k = Some (k', True)"
    using lt(1) b(1-3) r(1) by (simp add: elf_map_pages.simps [of ph p] Let_def kprint_def page_rwu_def)
  then show ?case unfolding P using b(8) [OF r(2)] by blast
qed

subsection \<open>Where a segment goes\<close>

definition pages_of :: "segment \<Rightarrow> nat" where "pages_of g = (seg_msize g + 4095) div 4096"

definition vpages :: "segment \<Rightarrow> nat set" where
  "vpages g = {vpage (seg_vaddr g)..<vpage (seg_vaddr g) + pages_of g}"

definition contents :: "bytes \<Rightarrow> segment \<Rightarrow> bytes" where
  "contents d g = take (seg_fsize g) (drop (seg_offset g) d) @ replicate (seg_msize g - seg_fsize g) 0"

text \<open>
  A segment that the loader can place: its pages, counted from the size alone, reach to its
  end (they do when it starts on a page), they are outside the heap window and the page
  tables, and there are page tables for them.
\<close>

definition placed :: "vmm \<Rightarrow> segment \<Rightarrow> bool" where
  "placed s g \<longleftrightarrow> unat (seg_vaddr g) mod 4096 + seg_msize g \<le> 4096 * pages_of g \<and>
     vpage (seg_vaddr g) + pages_of g < 1048576 \<and> (\<forall>p \<in> vpages g. p < 4096 \<or> 4352 \<le> p) \<and>
     (\<forall>va. vpage va \<in> vpages g \<longrightarrow> pde_present s (unat (dir_index va))) \<and>
     (\<forall>d < 1024. pde_present s d \<longrightarrow> vpage (table_frame s d) \<notin> vpages g)"

lemma in_window_page: "in_window a \<Longrightarrow> 4096 \<le> vpage a \<and> vpage a < 4352"
proof -
  assume "in_window a"
  then have w: "unat (a - 0x1000000) < 0x100000" by (simp add: in_window_def word_less_nat_alt HEAP_START_def HEAP_SIZE_def)
  have "unat (a - 0x1000000 + 0x1000000) = unat (a - 0x1000000) + 0x1000000" using w by (subst unat_add_u32) simp_all
  then have "unat a = unat (a - 0x1000000) + 0x1000000" by simp
  then have "4096 * 4096 \<le> unat a" "unat a < 4352 * 4096" using w by simp_all
  then show ?thesis using div_le_mono [of "4096 * 4096" "unat a" 4096] less_mult_imp_div_less [of "unat a" 4352 4096] by simp
qed

lemma placed_address:
  assumes "placed s g" "i < seg_msize g"
  shows "unat (seg_vaddr g + of_nat i) = unat (seg_vaddr g) + i" "vpage (seg_vaddr g + of_nat i) \<in> vpages g"
    "\<not> in_window (seg_vaddr g + of_nat i)"
proof -
  let ?v = "seg_vaddr g"
  have b: "unat ?v mod 4096 + seg_msize g \<le> 4096 * pages_of g" "vpage ?v + pages_of g < 1048576" using assms(1) by (simp_all add: placed_def)
  have v: "unat ?v = vpage ?v * 4096 + unat ?v mod 4096" by simp
  have lt: "unat ?v + i < (vpage ?v + pages_of g) * 4096" using v b(1) assms(2) unfolding add_mult_distrib by linarith
  moreover have "(vpage ?v + pages_of g) * 4096 < 4294967296" using b(2) by simp
  ultimately have "unat ?v + i < 4294967296" by linarith
  then show u: "unat (?v + of_nat i) = unat ?v + i" by (subst unat_add_u32) (simp_all add: unat_of_nat_u32)
  have "vpage ?v \<le> (unat ?v + i) div 4096" by (rule div_le_mono) simp
  then show p: "vpage (?v + of_nat i) \<in> vpages g" using less_mult_imp_div_less [OF lt] by (simp add: vpages_def u)
  then show "\<not> in_window (?v + of_nat i)" using in_window_page assms(1) unfolding placed_def by (meson not_le)
qed

lemma pages_word:
  fixes n :: u32
  assumes "placed s g" "seg_msize g = unat n"
  shows "unat ((n + 4095) div 4096) = pages_of g"
proof -
  have "seg_msize g \<le> 4096 * pages_of g" "pages_of g < 1048576" using assms(1) by (simp_all add: placed_def)
  then have "unat n + unat (4095 :: u32) < 4294967296" using assms(2) by simp
  then have "unat (n + 4095) = unat n + 4095" using unat_add_u32 [of n 4095] by simp
  then show ?thesis using assms(2) by (simp add: unat_div pages_of_def)
qed

lemma placed_cong: "page_directory s' = page_directory s \<Longrightarrow> placed s' g = placed s g"
  using directory_cong [of s' s] by (simp add: placed_def)

lemma frame_with_offset:
  assumes "aligned f"
  shows "frame_of (f OR (va AND 0xFFF)) = f" "(f OR (va AND 0xFFF)) AND 0xFFF = va AND 0xFFF"
proof -
  have f: "f = f AND NOT 0xFFF" using frame_of_aligned [OF assms] by (simp add: frame_of_def)
  show "frame_of (f OR (va AND 0xFFF)) = f" unfolding frame_of_def
    by (subst (2) f, subst f, rule bit_word_eqI) (auto simp: bit_simps mask12)
  show "(f OR (va AND 0xFFF)) AND 0xFFF = va AND 0xFFF"
    by (subst f, rule bit_word_eqI) (auto simp: bit_simps mask12)
qed

lemma vpage_frame: "vpage (frame_of a) = vpage a"
  by (simp add: unat_frame)

text \<open>The pages just backed are memory of their own.\<close>

lemma backed_mapped:
  assumes inv: "vmm_inv (kvm k) (kpm k)" and b: "backed k (vpages g) fr k'" and pl: "placed (kvm k) g"
  defines "pa \<equiv> \<lambda>i. fr (vpage (seg_vaddr g + of_nat i)) OR ((seg_vaddr g + of_nat i) AND 0xFFF)"
  shows "mapped k' (seg_vaddr g) (seg_msize g) pa"
    "\<And>i. i < seg_msize g \<Longrightarrow> vpage (pa i) \<in> free_frames (kpm k) - free_frames (kpm k')"
proof -
  let ?a = "\<lambda>i. seg_vaddr g + of_nat i :: u32"
  have B: "vmm_inv (kvm k') (kpm k')" "page_directory (kvm k') = page_directory (kvm k)"
    "\<And>va. mmu_walk (kvm k') va = (if vpage va \<in> vpages g then Some (fr (vpage va) OR (va AND 0xFFF)) else mmu_walk (kvm k) va)"
    "\<And>p. p \<in> vpages g \<Longrightarrow> aligned (fr p) \<and> vpage (fr p) \<in> free_frames (kpm k) - free_frames (kpm k')" "inj_on fr (vpages g)"
    using b unfolding backed_def by simp_all
  note A = placed_address [OF pl]
  have fr: "frame_of (pa i) = fr (vpage (?a i))" "pa i AND 0xFFF = ?a i AND 0xFFF" if "i < seg_msize g" for i
    using frame_with_offset B(4) [OF A(2) [OF that]] by (simp_all add: pa_def)
  show page: "vpage (pa i) \<in> free_frames (kpm k) - free_frames (kpm k')" if "i < seg_msize g" for i
    using B(4) [OF A(2) [OF that]] fr(1) [OF that] vpage_frame [of "pa i"] by simp
  have "no_table (kvm k') (pa i)" if "i < seg_msize g" for i
  proof -
    have "vpage (frame_of (pa i)) \<in> free_frames (kpm k)" using page [OF that] vpage_frame by simp
    then have "\<forall>d < 1024. pde_present (kvm k) d \<longrightarrow> table_frame (kvm k) d \<noteq> frame_of (pa i)" using inv unfolding vmm_inv_def by metis
    then show ?thesis using directory_cong [OF B(2)] by (simp add: no_table_def)
  qed
  moreover have "inj_on pa {..<seg_msize g}"
  proof (rule inj_onI)
    fix i j assume ij: "i \<in> {..<seg_msize g}" "j \<in> {..<seg_msize g}" "pa i = pa j"
    then have "fr (vpage (?a i)) = fr (vpage (?a j))" "?a i AND 0xFFF = ?a j AND 0xFFF" using fr by (metis lessThan_iff)+
    then have "vpage (?a i) = vpage (?a j)" "unat (?a i) mod 4096 = unat (?a j) mod 4096"
      using inj_onD [OF B(5)] A(2) ij(1,2) unat_offset by (metis lessThan_iff)+
    then have "unat (?a i) = unat (?a j)" by (metis div_mult_mod_eq)
    then show "i = j" using A(1) ij(1,2) by simp
  qed
  moreover have "paging (kvm k')" using B(1) by (simp add: vmm_inv_def)
  ultimately show "mapped k' (seg_vaddr g) (seg_msize g) pa" using A(2,3) B(3) by (simp add: mapped_def pa_def)
qed

subsection \<open>Copying a segment\<close>

lemma store8_heap: "store8 a c k = Some k' \<Longrightarrow> \<not> in_window a \<Longrightarrow> kheap_of k' = kheap_of k"
  by (auto simp: store8_def bind_eq_Some_conv)

lemma elf_memcpy_store:
  assumes "holds k src cs" "\<And>i. i < length cs \<Longrightarrow> in_window (src + of_nat i) \<and> \<not> in_window (dst + of_nat i)"
  shows "elf_memcpy dst src (length cs) k = store_bytes dst cs k"
  using assms
proof (induction cs arbitrary: dst src k)
  case (Cons c cs)
  have l: "load8 src k = Some c" "in_window src" "\<not> in_window dst" using Cons.prems(1) Cons.prems(2) [of 0] by (force simp: holds_def)+
  have w: "in_window (src + 1 + of_nat i) \<and> \<not> in_window (dst + 1 + of_nat i)" if "i < length cs" for i
    using Cons.prems(2) [of "Suc i"] that by (simp add: add.assoc)
  have "elf_memcpy (dst + 1) (src + 1) (length cs) k' = store_bytes (dst + 1) cs k'" if "store8 dst c k = Some k'" for k'
  proof (rule Cons.IH [OF _ w])
    show "holds k' (src + 1) cs"
      unfolding holds_def
    proof (intro allI impI)
      fix i assume i: "i < length cs"
      then have "load8 (src + 1 + of_nat i) k = Some (cs ! i)" using Cons.prems(1) by (auto simp: holds_def add.assoc dest: spec [of _ "Suc i"])
      then show "load8 (src + 1 + of_nat i) k' = Some (cs ! i)" using load8_heap [of _ k' k] w i store8_heap [OF that l(3)] by simp
    qed
  qed
  then show ?case using l(1) by (cases "store8 dst c k") simp_all
qed simp

lemma elf_memset_store: "elf_memset a v n k = store_bytes a (replicate n v) k"
proof (induction a v n k rule: elf_memset.induct)
  case (2 a v n k)
  then show ?case by (cases "store8 a v k") simp_all
qed simp

lemma store_bytes_append: "store_bytes a (xs @ ys) k = do { k \<leftarrow> store_bytes a xs k; store_bytes (a + of_nat (length xs)) ys k }"
proof (induction a xs k rule: store_bytes.induct)
  case (2 a c cs k)
  then show ?case by (cases "store8 a c k") (simp_all add: add.assoc)
qed simp

text \<open>What loading may change: pages \<open>P\<close> are backed by frames that were free, and only those frames and the page tables are written.\<close>

definition grown :: "kernel \<Rightarrow> nat set \<Rightarrow> kernel \<Rightarrow> bool" where
  "grown k P k' \<longleftrightarrow> (\<exists>s m c. k' = k\<lparr>kvm := s, kpm := m, kcon := c\<rparr>) \<and> con_inv (kcon k') \<and>
     vmm_inv (kvm k') (kpm k') \<and> pmm_inv (kpm k') \<and> page_directory (kvm k') = page_directory (kvm k) \<and>
     (\<forall>va. vpage va \<notin> P \<longrightarrow> mmu_walk (kvm k') va = mmu_walk (kvm k) va) \<and>
     free_frames (kpm k') \<subseteq> free_frames (kpm k) \<and> card (free_frames (kpm k')) + card P = card (free_frames (kpm k)) \<and>
     (\<forall>q. vpage q \<notin> free_frames (kpm k) \<longrightarrow> no_table (kvm k) q \<longrightarrow> phys_byte (pmem (kvm k')) q = phys_byte (pmem (kvm k)) q)"

text \<open>A segment in memory, in frames that are not free.\<close>

definition image :: "bytes \<Rightarrow> kernel \<Rightarrow> segment \<Rightarrow> bool" where
  "image d k g \<longleftrightarrow> (\<exists>pa. mapped k (seg_vaddr g) (seg_msize g) pa \<and>
     (\<forall>i < seg_msize g. vpage (pa i) \<notin> free_frames (kpm k) \<and> phys_byte (pmem (kvm k)) (pa i) = contents d g ! i))"

definition segment_ok :: "bytes \<Rightarrow> segment \<Rightarrow> bool" where
  "segment_ok d g \<longleftrightarrow> seg_offset g + seg_fsize g \<le> length d \<and> seg_fsize g \<le> seg_msize g"

lemma length_contents [simp]: "segment_ok d g \<Longrightarrow> length (contents d g) = seg_msize g"
  by (auto simp: contents_def segment_ok_def)

lemma length_file_part [simp]: "segment_ok d g \<Longrightarrow> length (take (seg_fsize g) (drop (seg_offset g) d)) = seg_fsize g"
  by (auto simp: segment_ok_def)

lemma image_readable: "image d k g \<Longrightarrow> segment_ok d g \<Longrightarrow> readable (seg_vaddr g) (seg_msize g) k = contents d g"
  using readable_eqI [of "contents d g" "seg_vaddr g" k] load8_mapped [of k "seg_vaddr g" "seg_msize g"] by (auto simp: image_def)

lemma no_table_cong: "page_directory s' = page_directory s \<Longrightarrow> no_table s' q = no_table s q"
  using directory_cong [of s' s] by (simp add: no_table_def)

lemma image_grown:
  assumes "image d k g" "grown k P k'" "placed (kvm k) g" "vpages g \<inter> P = {}"
  shows "image d k' g"
proof -
  obtain pa where pa: "mapped k (seg_vaddr g) (seg_msize g) pa"
    "\<And>i. i < seg_msize g \<Longrightarrow> vpage (pa i) \<notin> free_frames (kpm k) \<and> phys_byte (pmem (kvm k)) (pa i) = contents d g ! i"
    using assms(1) by (auto simp: image_def)
  have G: "vmm_inv (kvm k') (kpm k')" "page_directory (kvm k') = page_directory (kvm k)"
    "\<And>va. vpage va \<notin> P \<Longrightarrow> mmu_walk (kvm k') va = mmu_walk (kvm k) va" "free_frames (kpm k') \<subseteq> free_frames (kpm k)"
    "\<And>q. vpage q \<notin> free_frames (kpm k) \<Longrightarrow> no_table (kvm k) q \<Longrightarrow> phys_byte (pmem (kvm k')) q = phys_byte (pmem (kvm k)) q"
    using assms(2) unfolding grown_def by simp_all
  have "mmu_walk (kvm k') (seg_vaddr g + of_nat i) = mmu_walk (kvm k) (seg_vaddr g + of_nat i)" if "i < seg_msize g" for i
    using placed_address(2) [OF assms(3) that] assms(4) by (intro G(3)) blast
  moreover have "paging (kvm k')" using G(1) by (simp add: vmm_inv_def)
  ultimately have "mapped k' (seg_vaddr g) (seg_msize g) pa" using pa(1) no_table_cong [OF G(2)] by (simp add: mapped_def)
  moreover have "vpage (pa i) \<notin> free_frames (kpm k') \<and> phys_byte (pmem (kvm k')) (pa i) = contents d g ! i" if "i < seg_msize g" for i
    using pa(1) pa(2) [OF that] G(4) G(5) [of "pa i"] that unfolding mapped_def by auto
  ultimately show ?thesis unfolding image_def by blast
qed

lemma grown_trans:
  assumes "grown k P k1" "grown k1 Q k2" "P \<inter> Q = {}" "finite P" "finite Q"
  shows "grown k (P \<union> Q) k2"
proof -
  have G: "\<exists>s m c. k1 = k\<lparr>kvm := s, kpm := m, kcon := c\<rparr>" "page_directory (kvm k1) = page_directory (kvm k)"
    "\<And>va. vpage va \<notin> P \<Longrightarrow> mmu_walk (kvm k1) va = mmu_walk (kvm k) va" "free_frames (kpm k1) \<subseteq> free_frames (kpm k)"
    "card (free_frames (kpm k1)) + card P = card (free_frames (kpm k))"
    "\<And>q. vpage q \<notin> free_frames (kpm k) \<Longrightarrow> no_table (kvm k) q \<Longrightarrow> phys_byte (pmem (kvm k1)) q = phys_byte (pmem (kvm k)) q"
    using assms(1) unfolding grown_def by simp_all
  have H: "\<exists>s m c. k2 = k1\<lparr>kvm := s, kpm := m, kcon := c\<rparr>" "page_directory (kvm k2) = page_directory (kvm k1)"
    "\<And>va. vpage va \<notin> Q \<Longrightarrow> mmu_walk (kvm k2) va = mmu_walk (kvm k1) va" "free_frames (kpm k2) \<subseteq> free_frames (kpm k1)"
    "card (free_frames (kpm k2)) + card Q = card (free_frames (kpm k1))"
    "\<And>q. vpage q \<notin> free_frames (kpm k1) \<Longrightarrow> no_table (kvm k1) q \<Longrightarrow> phys_byte (pmem (kvm k2)) q = phys_byte (pmem (kvm k1)) q"
    "con_inv (kcon k2)" "vmm_inv (kvm k2) (kpm k2)" "pmm_inv (kpm k2)"
    using assms(2) unfolding grown_def by simp_all
  have 1: "\<exists>s m c. k2 = k\<lparr>kvm := s, kpm := m, kcon := c\<rparr>" using G(1) H(1) by force
  have 2: "card (free_frames (kpm k2)) + card (P \<union> Q) = card (free_frames (kpm k))"
    using G(5) H(5) card_Un_disjoint [OF assms(4,5,3)] by simp
  have 3: "phys_byte (pmem (kvm k2)) q = phys_byte (pmem (kvm k)) q" if "vpage q \<notin> free_frames (kpm k)" "no_table (kvm k) q" for q
    using G(6) [OF that] H(6) [of q] G(4) no_table_cong [OF G(2)] that by auto
  have 4: "mmu_walk (kvm k2) va = mmu_walk (kvm k) va" if "vpage va \<notin> P \<union> Q" for va using G(3) H(3) that by auto
  have 5: "free_frames (kpm k2) \<subseteq> free_frames (kpm k)" using G(4) H(4) by blast
  show ?thesis unfolding grown_def by (intro conjI allI impI 1 2 3 4 5 H(7-9); simp add: G(2) H(2))
qed

lemma grown_refl: "con_inv c \<Longrightarrow> vmm_inv (kvm k) (kpm k) \<Longrightarrow> pmm_inv (kpm k) \<Longrightarrow> grown k {} (k\<lparr>kcon := c\<rparr>)"
  unfolding grown_def by (intro conjI exI [of _ "kvm k"] exI [of _ "kpm k"] exI [of _ c]) simp_all

lemma holds_heap:
  assumes "holds k buf d" "\<And>i. i < length d \<Longrightarrow> in_window (buf + of_nat i)" "kheap_of k' = kheap_of k"
  shows "holds k' buf d"
  using assms(1) load8_heap [OF assms(2,3)] by (simp add: holds_def)

lemma frame_word_addr: "frame_of (word_addr q) = frame_of q"
proof -
  obtain i where "word_addr q = frame_of q + 4 * i" "unat i < 1024" using word_addr_entry by blast
  then have "vpage (word_addr q) = vpage q" using entry_page [of "frame_of q" i] vpage_frame by simp
  then show ?thesis by (simp add: word_eq_unat unat_frame)
qed

lemma backed_stored:
  assumes inv: "vmm_inv (kvm k) (kpm k)" "con_inv (kcon k)" and pl: "placed (kvm k) g" and b: "backed k (vpages g) fr k1" and ok: "segment_ok d g"
  obtains k2 where "store_bytes (seg_vaddr g) (contents d g) k1 = Some k2" "grown k (vpages g) k2" "image d k2 g"
proof -
  let ?pa = "\<lambda>i. fr (vpage (seg_vaddr g + of_nat i)) OR ((seg_vaddr g + of_nat i) AND 0xFFF)"
  note M = backed_mapped [OF inv(1) b pl]
  have l: "length (contents d g) = seg_msize g" using ok by simp
  have "mapped k1 (seg_vaddr g) (length (contents d g)) ?pa" unfolding l by (rule M(1))
  from store_bytes_mapped [OF this] obtain m where m: "store_bytes (seg_vaddr g) (contents d g) k1 = Some (k1\<lparr>kvm := (kvm k1)\<lparr>pmem := m\<rparr>\<rparr>)"
    "same_map (kvm k1) ((kvm k1)\<lparr>pmem := m\<rparr>)" "\<And>i. i < seg_msize g \<Longrightarrow> phys_byte m (?pa i) = contents d g ! i"
    "\<And>q. (\<forall>i < seg_msize g. q \<noteq> ?pa i) \<Longrightarrow> phys_byte m q = phys_byte (pmem (kvm k1)) q"
    unfolding l by blast
  let ?k = "k1\<lparr>kvm := (kvm k1)\<lparr>pmem := m\<rparr>\<rparr>"
  have B: "\<exists>s m. k1 = k\<lparr>kvm := s, kpm := m\<rparr>" "vmm_inv (kvm k1) (kpm k1)" "pmm_inv (kpm k1)" "page_directory (kvm k1) = page_directory (kvm k)"
    "\<And>va. mmu_walk (kvm k1) va = (if vpage va \<in> vpages g then Some (fr (vpage va) OR (va AND 0xFFF)) else mmu_walk (kvm k) va)"
    "free_frames (kpm k1) \<subseteq> free_frames (kpm k)" "card (free_frames (kpm k1)) + card (vpages g) = card (free_frames (kpm k))"
    "\<And>a. (\<forall>d < 1024. pde_present (kvm k) d \<longrightarrow> frame_of a \<noteq> table_frame (kvm k) d) \<Longrightarrow> pmem (kvm k1) a = pmem (kvm k) a"
    using b unfolding backed_def by simp_all
  have same: "page_directory (kvm ?k) = page_directory (kvm k1)" "paging (kvm ?k) = paging (kvm k1)" "\<And>va. mmu_walk (kvm ?k) va = mmu_walk (kvm k1) va"
    using m(2) by (simp_all add: same_map_def)
  have 1: "\<exists>s m c. ?k = k\<lparr>kvm := s, kpm := m, kcon := c\<rparr>"
  proof -
    obtain s' m' where e: "k1 = k\<lparr>kvm := s', kpm := m'\<rparr>" using B(1) by blast
    show ?thesis by (intro exI [of _ "s'\<lparr>pmem := m\<rparr>"] exI [of _ m'] exI [of _ "kcon k"]) (simp add: e)
  qed
  have 2: "vmm_inv (kvm ?k) (kpm ?k)" using vmm_inv_cong [OF B(2) same] by simp
  have 3: "phys_byte (pmem (kvm ?k)) q = phys_byte (pmem (kvm k)) q" if q: "vpage q \<notin> free_frames (kpm k)" "no_table (kvm k) q" for q
  proof -
    have "\<forall>i < seg_msize g. q \<noteq> ?pa i" using M(2) q(1) by blast
    then have "phys_byte m q = phys_byte (pmem (kvm k1)) q" by (rule m(4))
    moreover have "pmem (kvm k1) (word_addr q) = pmem (kvm k) (word_addr q)"
      using q(2) by (intro B(8)) (auto simp: no_table_def frame_word_addr)
    ultimately show ?thesis by (simp add: phys_byte_def)
  qed
  have 4: "con_inv (kcon ?k)" using B(1) inv(2) by auto
  have "grown k (vpages g) ?k"
    unfolding grown_def by (intro conjI allI impI 1 2 3 4) (simp_all add: B(3,4,5,6,7) same(3) [simplified])
  moreover have "mapped ?k (seg_vaddr g) (seg_msize g) ?pa" using mapped_same [of k1 ?k] M(1) m(2) by simp
  then have "image d ?k g" unfolding image_def using m(3) M(2) by (intro exI [of _ ?pa]) simp
  ultimately show thesis using that m(1) by blast
qed

lemma seg_in_file:
  assumes "elf_tables_ok d" "unat i < f_count d" "ph_word d (unat i) 0 = PT_LOAD"
  shows "segment_ok d (segment_of d (unat i))"
  using assms by (auto simp: elf_tables_ok_def segment_ok_def segments_from_def)

lemma copy_segment:
  fixes buf :: u32
  assumes h: "holds k buf d" and w: "\<And>i. i < length d \<Longrightarrow> in_window (buf + of_nat i)" and ok: "segment_ok d g" and pl: "placed s g"
  shows "elf_memcpy (seg_vaddr g) (buf + of_nat (seg_offset g)) (seg_fsize g) k =
    store_bytes (seg_vaddr g) (take (seg_fsize g) (drop (seg_offset g) d)) k"
proof -
  let ?cs = "take (seg_fsize g) (drop (seg_offset g) d)" and ?src = "buf + of_nat (seg_offset g)"
  have l: "length ?cs = seg_fsize g" using length_file_part [OF ok] .
  have e: "?src + of_nat i = buf + of_nat (seg_offset g + i)" for i by (simp add: add.assoc)
  have "holds k ?src ?cs" unfolding holds_def e using h ok by (auto simp: holds_def segment_ok_def simp del: of_nat_add)
  moreover have "in_window (?src + of_nat i) \<and> \<not> in_window (seg_vaddr g + of_nat i)" if "i < length ?cs" for i
    using w [of "seg_offset g + i"] placed_address(3) [OF pl, of i] that ok unfolding e by (simp add: segment_ok_def)
  ultimately show ?thesis using elf_memcpy_store [of k ?src ?cs "seg_vaddr g"] l by simp
qed

text \<open>The copy and the zeroing together store the contents of the segment.\<close>

lemma segment_filled:
  assumes h: "holds k1 buf d" and w: "\<And>i. i < length d \<Longrightarrow> in_window (buf + of_nat i)" and ok: "segment_ok d g"
    and inv: "vmm_inv (kvm k) (kpm k)" "backed k (vpages g) fr k1" "placed (kvm k) g" and st: "store_bytes (seg_vaddr g) (contents d g) k1 = Some k2"
  obtains k' where "elf_memcpy (seg_vaddr g) (buf + of_nat (seg_offset g)) (seg_fsize g) k1 = Some k'" "kheap_of k' = kheap_of k1"
    "if seg_fsize g < seg_msize g then elf_memset (seg_vaddr g + of_nat (seg_fsize g)) 0 (seg_msize g - seg_fsize g) k' = Some k2 else k' = k2"
proof -
  let ?v = "seg_vaddr g" and ?cs = "take (seg_fsize g) (drop (seg_offset g) d)" and ?zs = "replicate (seg_msize g - seg_fsize g) 0"
  obtain k' where k': "store_bytes ?v ?cs k1 = Some k'" "store_bytes (?v + of_nat (seg_fsize g)) ?zs k' = Some k2"
    using st ok by (auto simp: contents_def store_bytes_append bind_eq_Some_conv segment_ok_def)
  have cp: "elf_memcpy ?v (buf + of_nat (seg_offset g)) (seg_fsize g) k1 = Some k'" using copy_segment [OF h w ok inv(3)] k'(1) by simp
  have len: "length ?cs \<le> seg_msize g" unfolding length_file_part [OF ok] using ok by (simp add: segment_ok_def)
  have "mapped k1 ?v (length ?cs) (\<lambda>i. fr (vpage (?v + of_nat i)) OR ((?v + of_nat i) AND 0xFFF))"
    using mapped_take [OF backed_mapped(1) [OF inv] len] .
  from store_bytes_mapped [OF this] obtain m where "k' = k1\<lparr>kvm := (kvm k1)\<lparr>pmem := m\<rparr>\<rparr>" using k'(1) by auto
  then show thesis using that [OF cp] k'(2) by (cases "seg_fsize g < seg_msize g") (simp_all add: elf_memset_store)
qed

lemma elf_segment_spec:
  fixes buf :: u32
  assumes inv: "vmm_inv (kvm k) (kpm k)" "pmm_inv (kpm k)" "con_inv (kcon k)"
    and h: "holds k buf d" and w: "\<And>i. i < length d \<Longrightarrow> in_window (buf + of_nat i)"
    and i: "elf_tables_ok d" "unat i < f_count d" "ph_word d (unat i) 0 = PT_LOAD"
  defines "g \<equiv> segment_of d (unat i)" and "p \<equiv> ph_at (buf + of_nat (f_off d)) i"
  assumes pl: "placed (kvm k) g" and room: "pages_of g \<le> card (free_frames (kpm k))"
  shows "\<exists>k'. elf_segment buf p i k = Some (k', True) \<and> grown k (vpages g) k' \<and> image d k' g"
proof -
  let ?v = "seg_vaddr g" and ?n = "ph_word d (unat i) 20" and ?f = "ph_word d (unat i) 16"
  have g: "ph_word d (unat i) 8 = ?v" "seg_msize g = unat ?n" "seg_fsize g = unat ?f" "seg_offset g = unat (ph_word d (unat i) 4)"
    by (simp_all add: g_def segment_of_def)
  have ok: "segment_ok d g" unfolding g_def using i by (rule seg_in_file)
  have F: "ph_offset p k' = Some (ph_word d (unat i) 4)" "ph_vaddr p k' = Some ?v" "ph_file_size p k' = Some ?f" "ph_mem_size p k' = Some ?n"
    if "kheap_of k' = kheap_of k" for k'
    using ph_fields [OF holds_heap [OF h w that] i(1,2)] g(1) by (simp_all add: p_def)
  let ?ms = "[(''ELF: segment %d: vaddr=%x size=%d'' @ nl, [KInt (ucast i), KInt ?v, KInt ?n])]"
  have "list_all msg_ok ?ms" by (simp add: msg_ok_def)
  then obtain c where c: "kprint ?ms k = Some (k\<lparr>kcon := c\<rparr>)" "con_inv c" using kprint_ok [OF inv(3)] by blast
  let ?k = "k\<lparr>kcon := c\<rparr>" and ?pages = "(?n + 4095) div 4096"
  have np: "unat ?pages = pages_of g" by (rule pages_word [OF pl g(2)])
  have "\<exists>k1 fr. elf_map_pages p 0 ?pages ?k = Some (k1, True) \<and> backed ?k {vpage ?v + unat (0 :: u32)..<vpage ?v + unat ?pages} fr k1"
  proof (rule elf_map_pages_spec)
    show "\<And>s m. ph_vaddr p (?k\<lparr>kvm := s, kpm := m\<rparr>) = Some ?v" by (rule F) simp
  qed (use inv(1,2) pl room np in \<open>auto simp: placed_def vpages_def\<close>)
  then obtain k1 fr where k1: "elf_map_pages p 0 ?pages ?k = Some (k1, True)" "backed ?k (vpages g) fr k1"
    using np by (auto simp: vpages_def)
  have inv0: "vmm_inv (kvm ?k) (kpm ?k)" "con_inv (kcon ?k)" "placed (kvm ?k) g" using inv c(2) pl by simp_all
  obtain k2 where k2: "store_bytes ?v (contents d g) k1 = Some k2" "grown ?k (vpages g) k2" "image d k2 g"
    by (rule backed_stored [OF inv0 k1(2) ok])
  have hp1: "kheap_of k1 = kheap_of k" using k1(2) by (auto simp: backed_def)
  obtain k' where k': "elf_memcpy ?v (buf + of_nat (seg_offset g)) (seg_fsize g) k1 = Some k'" "kheap_of k' = kheap_of k1"
    "if seg_fsize g < seg_msize g then elf_memset (?v + of_nat (seg_fsize g)) 0 (seg_msize g - seg_fsize g) k' = Some k2 else k' = k2"
    by (rule segment_filled [OF holds_heap [OF h w hp1] w ok inv0(1) k1(2) inv0(3) k2(1)])
  have cp: "elf_memcpy ?v (buf + ph_word d (unat i) 4) (unat ?f) k1 = Some k'" and hp': "kheap_of k' = kheap_of k"
    using k'(1,2) hp1 g(3,4) by simp_all
  note F0 = F [OF refl] F [of ?k, simplified] F [OF hp1] F [OF hp']
  have "elf_segment buf p i k = Some (k2, True)"
    using F0 c(1) k1(1) cp k'(3) g by (cases "?f < ?n") (simp_all add: elf_segment_def unat_sub_u32 word_less_nat_alt)
  moreover have "grown k (vpages g) k2"
    using grown_trans [OF grown_refl [OF c(2) inv(1,2)] k2(2)] by (simp add: vpages_def)
  ultimately show ?thesis using k2(3) by blast
qed

subsection \<open>Loading a file\<close>

abbreviation all_pages :: "segment list \<Rightarrow> nat set" where
  "all_pages gs \<equiv> \<Union> (vpages ` set gs)"

text \<open>The segments of a file can be placed side by side, and there are frames for them.\<close>

definition loadable :: "kernel \<Rightarrow> segment list \<Rightarrow> bool" where
  "loadable k gs \<longleftrightarrow> (\<forall>g \<in> set gs. placed (kvm k) g) \<and> sorted_wrt (\<lambda>g h. vpages g \<inter> vpages h = {}) gs \<and>
     sum_list (map pages_of gs) \<le> card (free_frames (kpm k))"

lemma segments_from_step:
  "i < f_count d \<Longrightarrow> segments_from d i =
    (if ph_word d i 0 = PT_LOAD then segment_of d i # segments_from d (Suc i) else segments_from d (Suc i))"
  by (simp add: segments_from_def upt_conv_Cons)

lemma loadable_grown:
  assumes "loadable k (g # gs)" "grown k (vpages g) k'"
  shows "loadable k' gs"
proof -
  have "page_directory (kvm k') = page_directory (kvm k)" "card (free_frames (kpm k')) + pages_of g = card (free_frames (kpm k))"
    using assms(2) unfolding grown_def by (simp_all add: vpages_def)
  then show ?thesis using assms(1) placed_cong [of "kvm k'" "kvm k"] by (auto simp: loadable_def)
qed

lemma segments_loop:
  fixes buf :: u32
  assumes "vmm_inv (kvm k) (kpm k)" "pmm_inv (kpm k)" "con_inv (kcon k)"
    and "holds k buf d" "\<And>j. j < length d \<Longrightarrow> in_window (buf + of_nat j)" "elf_tables_ok d"
    and "unat i \<le> f_count d" "loadable k (segments_from d (unat i))"
  shows "\<exists>k'. elf_segments buf (buf + of_nat (f_off d)) i k = Some (k', True) \<and>
    grown k (all_pages (segments_from d (unat i))) k' \<and> (\<forall>g \<in> set (segments_from d (unat i)). image d k' g)"
  using assms
proof (induction "f_count d - unat i" arbitrary: i k)
  case 0
  have e: "unat i = f_count d" using 0(1,8) by simp
  then have "hdr_ph_count buf k = Some i" "segments_from d (unat i) = []"
    using table_fields(3) [OF 0(5)] 0(7) by (simp_all add: elf_tables_ok_def segments_from_def flip: e)
  then show ?case using grown_refl [OF 0(4,2,3)] by (intro exI [of _ k]) (simp add: elf_segments.simps [of buf _ i k])
next
  case (Suc n)
  let ?ph = "buf + of_nat (f_off d)" and ?gs = "segments_from d (Suc (unat i))"
  have lt: "unat i < f_count d" using Suc(2) by simp
  have cnt: "hdr_ph_count buf k = Some (of_nat (f_count d))" using table_fields(3) [OF Suc(6)] Suc(8) by (simp add: elf_tables_ok_def)
  have lw: "i < of_nat (f_count d)" using lt by (simp add: word_less_nat_alt f_count_def)
  have si: "unat (i + 1) = Suc (unat i)" using unat_inc_u16 [OF lw] .
  have ty: "ph_type (ph_at ?ph i) k = Some (ph_word d (unat i) 0)" using ph_fields(1) [OF Suc(6,8) lt] .
  have IH: "\<exists>k'. elf_segments buf ?ph (i + 1) k1 = Some (k', True) \<and> grown k1 (all_pages ?gs) k' \<and> (\<forall>g \<in> set ?gs. image d k' g)"
    if "vmm_inv (kvm k1) (kpm k1)" "pmm_inv (kpm k1)" "con_inv (kcon k1)" "holds k1 buf d" "loadable k1 ?gs" for k1
    using Suc(1) [of "i + 1" k1] that Suc(2,7,8) lt si by simp
  show ?case
  proof (cases "ph_word d (unat i) 0 = PT_LOAD")
    case False
    then have gs: "segments_from d (unat i) = ?gs" using segments_from_step [OF lt] by simp
    have "elf_segments buf ?ph i k = elf_segments buf ?ph (i + 1) k"
      using cnt lw ty False by (simp add: elf_segments.simps [of buf _ i k])
    then show ?thesis using IH [OF Suc(3,4,5,6)] Suc(10) unfolding gs by simp
  next
    case True
    let ?g = "segment_of d (unat i)"
    have gs: "segments_from d (unat i) = ?g # ?gs" using segments_from_step [OF lt] True by simp
    note L = Suc(10) [unfolded gs]
    have "placed (kvm k) ?g" "pages_of ?g \<le> card (free_frames (kpm k))" using L by (simp_all add: loadable_def)
    then obtain k1 where k1: "elf_segment buf (ph_at ?ph i) i k = Some (k1, True)" "grown k (vpages ?g) k1" "image d k1 ?g"
      using elf_segment_spec [OF Suc(3,4,5,6,7,8) lt True] by blast
    have inv1: "vmm_inv (kvm k1) (kpm k1)" "pmm_inv (kpm k1)" "con_inv (kcon k1)" "kheap_of k1 = kheap_of k"
      using k1(2) by (auto simp: grown_def)
    obtain k' where k': "elf_segments buf ?ph (i + 1) k1 = Some (k', True)" "grown k1 (all_pages ?gs) k'" "\<forall>g \<in> set ?gs. image d k' g"
      using IH [OF inv1(1-3) holds_heap [OF Suc(6,7) inv1(4)] loadable_grown [OF L k1(2)]] by blast
    have disj: "vpages ?g \<inter> all_pages ?gs = {}" using L by (auto simp: loadable_def)
    have "page_directory (kvm k1) = page_directory (kvm k)" using k1(2) by (simp add: grown_def)
    then have "placed (kvm k1) ?g" using placed_cong \<open>placed (kvm k) ?g\<close> by blast
    then have "image d k' ?g" using image_grown [OF k1(3) k'(2)] disj by blast
    moreover have "elf_segments buf ?ph i k = Some (k', True)"
      using cnt lw ty True k1(1) k'(1) by (simp add: elf_segments.simps [of buf _ i k])
    moreover have "grown k (all_pages (?g # ?gs)) k'"
      using grown_trans [OF k1(2) k'(2) disj] by (simp add: vpages_def)
    ultimately show ?thesis unfolding gs using k'(3) by auto
  qed
qed

lemma block_in_window:
  assumes "heap_rep h bs" "(unat p, n) \<in> live 0x1000000 bs" "j < n"
  shows "in_window (p + of_nat j)"
proof -
  have "0x100000C \<le> unat p" "unat p + n \<le> 0x1100000"
    using live_range [OF assms(2)] live_bound [OF _ assms(2)] assms(1) by (auto simp: heap_rep_def)
  then have "in_window (of_nat (unat p + j))" using assms(3) by (intro in_window_of_nat) simp_all
  then show ?thesis by simp
qed

text \<open>The file in its block.\<close>

lemma elf_probe:
  assumes inv: "kernel_inv k bs as" and name: "0 \<notin> set name" and room: "alloc_spec 8192 0x1000000 bs \<noteq> None"
  obtains h buf m k2 b2 where "kmalloc_k 8192 k = Some (set_heap h k, buf)" "buf \<noteq> 0"
    "fs_read_k name buf 8192 (set_heap h k) =
       Some (k2, case files (disk (kfs k)) name of None \<Rightarrow> -1 | Some data \<Rightarrow> int (length (take 8192 data)))"
    "scratch_kept k bs b2 k2" "live 0x1000000 b2 = insert (unat buf, m) (live 0x1000000 bs)" "8192 \<le> m"
    "\<And>j. (unat buf, j) \<notin> live 0x1000000 bs" "\<And>j. j < 8192 \<Longrightarrow> in_window (buf + of_nat j)"
    "\<And>data. files (disk (kfs k)) name = Some data \<Longrightarrow> holds k2 buf (take 8192 data)"
proof -
  note D = kernel_invD [OF inv]
  have u: "up4 (unat (8192 :: u32)) = 8192" by (simp add: up4_def)
  obtain h buf m k2 n b2 where r: "kmalloc_k 8192 k = Some (set_heap h k, buf)" "buf \<noteq> 0"
    "fs_read_k name buf 8192 (set_heap h k) = Some (k2, n)" "scratch_kept k bs b2 k2"
    "live 0x1000000 b2 = insert (unat buf, m) (live 0x1000000 bs)" "unat (8192 :: u32) \<le> m" "\<And>j. (unat buf, j) \<notin> live 0x1000000 bs"
    "n = (case files (disk (kfs k)) name of None \<Rightarrow> -1 | Some d \<Rightarrow> int (min (unat (8192 :: u32)) (length d)))"
    "\<And>d. files (disk (kfs k)) name = Some d \<Longrightarrow>
       readable buf (min (unat (8192 :: u32)) (length d)) k2 = take (unat (8192 :: u32)) d \<and> kcon k2 = kcon k"
    by (rule scratch_read [OF D(1) _ _ _ D(2,3) name, of 8192]) (use room u in auto)
  have z: "unat (8192 :: u32) = 8192" by simp
  have "n = (case files (disk (kfs k)) name of None \<Rightarrow> -1 | Some data \<Rightarrow> int (length (take 8192 data)))"
    using r(8) by (cases "files (disk (kfs k)) name") (simp_all add: min.commute)
  moreover have "holds k2 buf (take 8192 data)" if "files (disk (kfs k)) name = Some data" for data
    using r(9) [OF that] holds_readable [of buf "take 8192 data" k2] unfolding z by (simp add: min.commute)
  moreover have "in_window (buf + of_nat j)" if "j < 8192" for j
  proof -
    obtain h2 where "heap_rep h2 b2" using r(4) by (auto simp: scratch_kept_def)
    then show ?thesis using r(5,6) that by (intro block_in_window [of h2 b2 buf m]) simp_all
  qed
  ultimately show thesis using that [OF r(1,2)] r(3-7) z by auto
qed

lemma elf_reject_spec:
  assumes "scratch_kept k bs b2 k2" "live 0x1000000 b2 = insert (unat buf, m) (live 0x1000000 bs)"
    "\<And>j. (unat buf, j) \<notin> live 0x1000000 bs" "list_all msg_ok ms"
  obtains k3 b3 where "elf_reject ms buf e k2 = Some (k3, -1, e)" "scratch_kept k bs b3 k3" "live 0x1000000 b3 = live 0x1000000 bs"
proof -
  obtain h c where k2: "k2 = (set_heap h k)\<lparr>kcon := c\<rparr>" "con_inv c" "heap_rep h b2" "keeps (live 0x1000000 bs) (kheap_of k) h"
    using assms(1) by (auto simp: scratch_kept_def)
  obtain c' where c': "kprint ms k2 = Some (k2\<lparr>kcon := c'\<rparr>)" "con_inv c'" using kprint_ok [OF _ assms(4), of k2] k2(1,2) by auto
  have "scratch_kept k bs b2 (k2\<lparr>kcon := c'\<rparr>)" unfolding scratch_kept_def using k2 c'(2) by (intro exI [of _ h] exI [of _ c']) simp
  from scratch_release [OF this assms(2,3)] obtain k3 b3 where "kfree_k buf (k2\<lparr>kcon := c'\<rparr>) = Some k3" "scratch_kept k bs b3 k3"
    "live 0x1000000 b3 = live 0x1000000 bs" by blast
  then show thesis using that c'(1) by (simp add: elf_reject_def)
qed

definition not_loadable :: "bytes option \<Rightarrow> bool" where
  "not_loadable f \<longleftrightarrow> (case f of None \<Rightarrow> True | Some data \<Rightarrow> data = [] \<or> 20 \<le> length data \<and> \<not> elf_header_ok (take 8192 data))"

lemma elf_load_rejected:
  assumes "kmalloc_k 8192 k = Some (set_heap h k, buf)" "buf \<noteq> 0"
    "fs_read_k name buf 8192 (set_heap h k) =
       Some (k2, case files (disk (kfs k)) name of None \<Rightarrow> -1 | Some data \<Rightarrow> int (length (take 8192 data)))"
    "\<And>data. files (disk (kfs k)) name = Some data \<Longrightarrow> holds k2 buf (take 8192 data)"
    "not_loadable (files (disk (kfs k)) name)"
  shows "\<exists>ms. list_all msg_ok ms \<and> elf_load name e k = elf_reject ms buf e k2"
proof (cases "case files (disk (kfs k)) name of None \<Rightarrow> True | Some data \<Rightarrow> data = []")
  case True
  then have "elf_load name e k = elf_reject
      [(''ELF: could not read '' @ [CHR 0x27] @ ''%s'' @ [CHR 0x27] @ nl, [KStr (Some name)])] buf e k2"
    using assms(1-3) by (auto simp: elf_load_def split: option.splits)
  then show ?thesis by (intro exI conjI) (simp_all add: msg_ok_def)
next
  case False
  then obtain data where d: "files (disk (kfs k)) name = Some data" "data \<noteq> []" by (auto split: option.splits)
  then have bad: "20 \<le> length data" "\<not> elf_header_ok (take 8192 data)" using assms(5) by (auto simp: not_loadable_def)
  let ?d = "take 8192 data"
  have "0 < int (length ?d)" using d(2) by simp
  then obtain n where n: "fs_read_k name buf 8192 (set_heap h k) = Some (k2, n)" "\<not> n \<le> 0" using assms(3) d(1) by auto
  have H: "hdr_magic buf k2 = Some (un32 ?d)" "hdr_bits buf k2 = Some (?d ! 4)" "hdr_machine buf k2 = Some (un16 (drop 18 ?d))"
    "hdr_type buf k2 = Some (un16 (drop 16 ?d))"
    using header_fields [OF assms(4) [OF d(1)]] bad(1) by simp_all
  consider "un32 ?d \<noteq> ELF_MAGIC" | "un32 ?d = ELF_MAGIC" "?d ! 4 \<noteq> 1 \<or> un16 (drop 18 ?d) \<noteq> EM_386"
    | "un32 ?d = ELF_MAGIC" "\<not> (?d ! 4 \<noteq> 1 \<or> un16 (drop 18 ?d) \<noteq> EM_386)" "un16 (drop 16 ?d) \<noteq> ET_EXEC"
    using bad(2) by (auto simp: elf_header_ok_def)
  then show ?thesis
  proof cases
    case 1
    then have "elf_load name e k = elf_reject [(''ELF: invalid magic number'' @ nl, [])] buf e k2"
      using assms(1,2) n H by (simp add: elf_load_def)
    then show ?thesis by (intro exI conjI) (simp_all add: msg_ok_def)
  next
    case 2
    then have "elf_load name e k = elf_reject [(''ELF: not a 32-bit x86 binary'' @ nl, [])] buf e k2"
      using assms(1,2) n H by (simp add: elf_load_def)
    then show ?thesis by (intro exI conjI) (simp_all add: msg_ok_def)
  next
    case 3
    then have "elf_load name e k = elf_reject [(''ELF: not an executable'' @ nl, [])] buf e k2"
      using assms(1,2) n H by (simp add: elf_load_def)
    then show ?thesis by (intro exI conjI) (simp_all add: msg_ok_def)
  qed
qed

subsection \<open>Properties\<close>

lemma elf_load_refused:
  assumes "kernel_inv k bs as" "0 \<notin> set name"
    and "alloc_spec 8192 0x1000000 bs = None \<or> not_loadable (files (disk (kfs k)) name)"
  shows "\<exists>k' bs' h c. elf_load name e k = Some (k', -1, e) \<and> k' = (set_heap h k)\<lparr>kcon := c\<rparr> \<and> kernel_inv k' bs' as \<and>
    live 0x1000000 bs' = live 0x1000000 bs \<and> keeps (live 0x1000000 bs) (kheap_of k) h"
proof (cases "alloc_spec 8192 0x1000000 bs = None")
  case True
  note D = kernel_invD [OF assms(1)]
  let ?m = "(''ELF: out of memory'' @ nl, [])"
  have "kmalloc 8192 (kheap_of k) = Some (kheap_of k, 0, [kmalloc_oom])"
    using kmalloc_spec [OF D(1), of 8192] True by (simp add: up4_def)
  moreover have ok: "list_all msg_ok [kmalloc_oom]" "list_all msg_ok [?m]" by (simp_all add: msg_ok_def kmalloc_oom_def)
  obtain c where c: "kprint [kmalloc_oom] k = Some (k\<lparr>kcon := c\<rparr>)" "con_inv c" using kprint_ok [OF D(3) ok(1)] .
  have "con_inv (kcon (k\<lparr>kcon := c\<rparr>))" using c(2) by simp
  then obtain c2 where c2: "kprint [?m] (k\<lparr>kcon := c\<rparr>) = Some (k\<lparr>kcon := c, kcon := c2\<rparr>)" "con_inv c2" by (rule kprint_ok [OF _ ok(2)])
  ultimately have "elf_load name e k = Some (k\<lparr>kcon := c2\<rparr>, -1, e)" using c(1) by (simp add: elf_load_def kmalloc_k_def)
  moreover have "kernel_inv (k\<lparr>kcon := c2\<rparr>) bs as" using assms(1) c2(2) by (simp add: kernel_inv_def)
  ultimately show ?thesis
    by (intro exI [of _ "k\<lparr>kcon := c2\<rparr>"] exI [of _ bs] exI [of _ "kheap_of k"] exI [of _ c2]) (simp add: keeps_def)
next
  case False
  obtain h buf m k2 b2 where r: "kmalloc_k 8192 k = Some (set_heap h k, buf)" "buf \<noteq> 0"
    "fs_read_k name buf 8192 (set_heap h k) =
       Some (k2, case files (disk (kfs k)) name of None \<Rightarrow> -1 | Some data \<Rightarrow> int (length (take 8192 data)))"
    "scratch_kept k bs b2 k2" "live 0x1000000 b2 = insert (unat buf, m) (live 0x1000000 bs)" "\<And>j. (unat buf, j) \<notin> live 0x1000000 bs"
    "\<And>data. files (disk (kfs k)) name = Some data \<Longrightarrow> holds k2 buf (take 8192 data)"
    by (rule elf_probe [OF assms(1,2) False]) (rule that)
  have "\<exists>ms. list_all msg_ok ms \<and> elf_load name e k = elf_reject ms buf e k2"
    using assms(3) False by (intro elf_load_rejected [OF r(1-3,7)]) simp_all
  then obtain ms where ms: "list_all msg_ok ms" "elf_load name e k = elf_reject ms buf e k2" by blast
  obtain k3 b3 where f: "elf_reject ms buf e k2 = Some (k3, -1, e)" "scratch_kept k bs b3 k3" "live 0x1000000 b3 = live 0x1000000 bs"
    by (rule elf_reject_spec [OF r(4,5,6) ms(1)])
  obtain h3 c3 where "k3 = (set_heap h3 k)\<lparr>kcon := c3\<rparr>" "keeps (live 0x1000000 bs) (kheap_of k) h3"
    using f(2) by (auto simp: scratch_kept_def)
  then show ?thesis using f ms(2) kernel_inv_scratch(1) [OF assms(1) f(2,3)] by (intro exI [of _ k3] exI [of _ b3] exI [of _ h3] exI [of _ c3]) simp
qed


lemma segments_placed:
  assumes inv: "vmm_inv (kvm k) (kpm k)" "pmm_inv (kpm k)" "con_inv (kcon k)"
    and h: "holds k buf d" and w: "\<And>j. j < length d \<Longrightarrow> in_window (buf + of_nat j)" and d: "elf_tables_ok d" "loadable k (segments_from d 0)"
    and ms: "list_all msg_ok ms"
  obtains c k' where "kprint ms k = Some (k\<lparr>kcon := c\<rparr>)" "holds (k\<lparr>kcon := c\<rparr>) buf d"
    "elf_segments buf (buf + of_nat (f_off d)) 0 (k\<lparr>kcon := c\<rparr>) = Some (k', True)"
    "grown k (all_pages (segments_from d 0)) k'" "\<forall>g \<in> set (segments_from d 0). image d k' g" "holds k' buf d"
proof -
  let ?gs = "segments_from d 0"
  obtain c where c: "kprint ms k = Some (k\<lparr>kcon := c\<rparr>)" "con_inv c" using kprint_ok [OF inv(3) ms] by blast
  have hc: "holds (k\<lparr>kcon := c\<rparr>) buf d" using h by (simp add: holds_def)
  have "\<exists>k'. elf_segments buf (buf + of_nat (f_off d)) 0 (k\<lparr>kcon := c\<rparr>) = Some (k', True) \<and>
    grown (k\<lparr>kcon := c\<rparr>) (all_pages (segments_from d (unat (0 :: u16)))) k' \<and> (\<forall>g \<in> set (segments_from d (unat (0 :: u16))). image d k' g)"
    by (rule segments_loop) (use inv(1,2) c(2) hc w d in \<open>simp_all add: loadable_def\<close>)
  then obtain k' where k': "elf_segments buf (buf + of_nat (f_off d)) 0 (k\<lparr>kcon := c\<rparr>) = Some (k', True)"
    "grown (k\<lparr>kcon := c\<rparr>) (all_pages ?gs) k'" "\<forall>g \<in> set ?gs. image d k' g" by auto
  have "grown k (all_pages ?gs) k'" using grown_trans [OF grown_refl [OF c(2) inv(1,2)] k'(2)] by (simp add: vpages_def)
  moreover have "kheap_of k' = kheap_of (k\<lparr>kcon := c\<rparr>)" using k'(2) by (auto simp: grown_def)
  then have "holds k' buf d" using holds_heap [OF hc w] by blast
  ultimately show thesis using that c(1) hc k'(1,3) by blast
qed

lemma elf_load_spec:
  assumes inv: "kernel_inv k bs as" "vmm_inv (kvm k) (kpm k)" "pmm_inv (kpm k)"
    and name: "0 \<notin> set name" and room: "alloc_spec 8192 0x1000000 bs \<noteq> None"
    and fl: "files (disk (kfs k)) name = Some data" "d = take 8192 data" "elf_header_ok d" "elf_tables_ok d" "gs = segments_from d 0"
    and fits: "loadable k gs"
  shows "\<exists>k' bs'. elf_load name e k = Some (k', 0, f_entry d) \<and>
    (\<forall>g \<in> set gs. readable (seg_vaddr g) (seg_msize g) k' = contents d g) \<and>
    kernel_inv k' bs' as \<and> live 0x1000000 bs' = live 0x1000000 bs \<and> keeps (live 0x1000000 bs) (kheap_of k) (kheap_of k') \<and>
    kfs k' = kfs k \<and> vmm_inv (kvm k') (kpm k') \<and> pmm_inv (kpm k') \<and>
    (\<forall>va. vpage va \<notin> all_pages gs \<longrightarrow> mmu_walk (kvm k') va = mmu_walk (kvm k) va) \<and>
    free_frames (kpm k') \<subseteq> free_frames (kpm k) \<and> card (free_frames (kpm k')) + card (all_pages gs) = card (free_frames (kpm k))"
proof -
  obtain h buf m k2 b2 where r: "kmalloc_k 8192 k = Some (set_heap h k, buf)" "buf \<noteq> 0"
    "fs_read_k name buf 8192 (set_heap h k) =
       Some (k2, case files (disk (kfs k)) name of None \<Rightarrow> -1 | Some data \<Rightarrow> int (length (take 8192 data)))"
    and sk: "scratch_kept k bs b2 k2" "live 0x1000000 b2 = insert (unat buf, m) (live 0x1000000 bs)" "8192 \<le> m"
    "\<And>j. (unat buf, j) \<notin> live 0x1000000 bs" and w: "\<And>j. j < 8192 \<Longrightarrow> in_window (buf + of_nat j)"
    and h0: "\<And>data. files (disk (kfs k)) name = Some data \<Longrightarrow> holds k2 buf (take 8192 data)"
    by (rule elf_probe [OF inv(1) name room]) (rule that)
  obtain h2 c2 where k2: "k2 = (set_heap h2 k)\<lparr>kcon := c2\<rparr>" "con_inv c2" "heap_rep h2 b2" "keeps (live 0x1000000 bs) (kheap_of k) h2"
    using sk(1) by (auto simp: scratch_kept_def)
  have hd: "holds k2 buf d" using h0 [OF fl(1)] fl(2) by simp
  have len: "20 \<le> length d" "52 \<le> length d" using fl(4) by (simp_all add: elf_tables_ok_def)
  then have "0 < int (length (take 8192 data))" using fl(2) by auto
  then obtain n where n: "fs_read_k name buf 8192 (set_heap h k) = Some (k2, n)" "\<not> n \<le> 0" using r(3) fl(1) by auto
  let ?ms = "[(''ELF: loading '' @ [CHR 0x27] @ ''%s'' @ [CHR 0x27] @ '', entry at %x'' @ nl, [KStr (Some name), KInt (f_entry d)])]"
  have kin: "vmm_inv (kvm k2) (kpm k2)" "pmm_inv (kpm k2)" "con_inv (kcon k2)" "loadable k2 gs" "list_all msg_ok ?ms"
    using inv(2,3) k2(1,2) fits by (simp_all add: loadable_def msg_ok_def)
  have w': "in_window (buf + of_nat j)" if "j < length d" for j using w that fl(2) by simp
  obtain c3 k4 where c3: "kprint ?ms k2 = Some (k2\<lparr>kcon := c3\<rparr>)" and h3: "holds (k2\<lparr>kcon := c3\<rparr>) buf d"
    and k4: "elf_segments buf (buf + of_nat (f_off d)) 0 (k2\<lparr>kcon := c3\<rparr>) = Some (k4, True)" "grown k2 (all_pages gs) k4"
    "\<forall>g \<in> set gs. image d k4 g" "holds k4 buf d"
    by (rule segments_placed [OF kin(1-3) hd w' fl(4) kin(4) [unfolded fl(5)] kin(5), folded fl(5)])
  obtain s m' c4 where k4e: "k4 = k2\<lparr>kvm := s, kpm := m', kcon := c4\<rparr>" "con_inv c4" using k4(2) by (auto simp: grown_def)
  have hp4: "kheap_of k4 = h2" using k4e(1) k2(1) by simp
  obtain h5 b5 where f: "kfree_k buf k4 = Some (set_heap h5 k4)" "heap_rep h5 b5"
    "live 0x1000000 b5 = live 0x1000000 b2 - {(unat buf, m)}" "keeps (live 0x1000000 b2 - {(unat buf, m)}) h2 h5"
    using kfree_k_block [of k4 b2 buf m] k2(3) sk(2) hp4 by auto
  have L: "live 0x1000000 b2 - {(unat buf, m)} = live 0x1000000 bs" using sk(2,4) by auto
  let ?done = "[(''ELF: loaded successfully'' @ nl, [])]"
  have "list_all msg_ok ?done" by (simp add: msg_ok_def)
  then obtain c6 where c6: "kprint ?done (set_heap h5 k4) = Some ((set_heap h5 k4)\<lparr>kcon := c6\<rparr>)" "con_inv c6"
    using kprint_ok [of "set_heap h5 k4" ?done] k4e by auto
  let ?k = "(set_heap h5 k4)\<lparr>kcon := c6\<rparr>"
  have H: "hdr_magic buf k2 = Some (un32 d)" "hdr_bits buf k2 = Some (d ! 4)" "hdr_machine buf k2 = Some (un16 (drop 18 d))"
    "hdr_type buf k2 = Some (un16 (drop 16 d))" "hdr_entry buf k2 = Some (f_entry d)" "hdr_ph_offset buf (k2\<lparr>kcon := c3\<rparr>) = Some (of_nat (f_off d))"
    using header_fields [OF hd len(1)] table_fields [OF hd len(2)] table_fields [OF h3 len(2)] by simp_all
  have "elf_load name e k = Some (?k, 0, f_entry d)"
    using r(1,2) n fl(3) H c3 k4(1) table_fields(1) [OF k4(4) len(2)] f(1) c6(1) by (simp add: elf_load_def elf_header_ok_def)
  moreover have "readable (seg_vaddr g) (seg_msize g) ?k = contents d g" if g: "g \<in> set gs" for g
  proof -
    have "image d ?k g" using k4(3) g by (auto simp: image_def mapped_def)
    moreover have "segment_ok d g" using fl(4,5) g by (auto simp: elf_tables_ok_def segment_ok_def)
    ultimately show ?thesis by (rule image_readable)
  qed
  moreover have "kernel_inv ?k b5 as"
    using inv(1) f(2,3) L c6(2) by (simp add: k4e(1) k2(1) kernel_inv_def owned_def sched_inv_def set_heap_def)
  moreover have "keeps (live 0x1000000 bs) (kheap_of k) h5" using keeps_trans [OF k2(4)] f(4) L by simp
  ultimately show ?thesis
    using f(3) L k4(2) k2(1) k4e(1) unfolding grown_def by (intro exI [of _ ?k] exI [of _ b5]) simp
qed


text \<open>An executable of one segment for the examples: four bytes of code and four zeros at \<open>0x400000\<close>.\<close>

definition elf_demo :: bytes where
  "elf_demo = [0x7F, 0x45, 0x4C, 0x46, 1, 1, 1, 0, 0, 0, 0, 0, 0, 0, 0, 0, 2, 0, 3, 0, 1, 0, 0, 0,
     0, 0, 0x40, 0, 52, 0, 0, 0, 0, 0, 0, 0, 0, 0, 0, 0, 52, 0, 32, 0, 1, 0, 0, 0, 0, 0, 0, 0,
     1, 0, 0, 0, 84, 0, 0, 0, 0, 0, 0x40, 0, 0, 0, 0x40, 0, 4, 0, 0, 0, 8, 0, 0, 0, 7, 0, 0, 0, 0, 0x10, 0, 0,
     0xB8, 1, 2, 3]"

lemma elf_demo_fields:
  "length elf_demo = 88" "elf_header_ok elf_demo" "f_off elf_demo = 52" "f_count elf_demo = 1" "f_entry elf_demo = 0x400000"
  "ph_word elf_demo 0 0 = 1" "ph_word elf_demo 0 4 = 84" "ph_word elf_demo 0 8 = 0x400000" "ph_word elf_demo 0 16 = 4"
  "ph_word elf_demo 0 20 = 8"
proof -
  show "length elf_demo = 88" "elf_header_ok elf_demo" by (simp_all add: elf_demo_def elf_header_ok_def un32_def un16_def const_defs)
  show o: "f_off elf_demo = 52" "f_count elf_demo = 1" "f_entry elf_demo = 0x400000"
    by (simp_all add: elf_demo_def un32_def un16_def f_off_def f_count_def f_entry_def)
  show "ph_word elf_demo 0 0 = 1" "ph_word elf_demo 0 4 = 84" "ph_word elf_demo 0 8 = 0x400000" "ph_word elf_demo 0 16 = 4"
    "ph_word elf_demo 0 20 = 8"
    unfolding ph_word_def o by (simp_all add: elf_demo_def un32_def)
qed

abbreviation demo_seg :: segment where
  "demo_seg \<equiv> \<lparr>seg_offset = 84, seg_vaddr = 0x400000, seg_fsize = 4, seg_msize = 8\<rparr>"

lemma elf_demo_segments: "segments_from elf_demo 0 = [demo_seg]" "elf_tables_ok elf_demo" "contents elf_demo demo_seg = [0xB8, 1, 2, 3, 0, 0, 0, 0]"
proof -
  show s: "segments_from elf_demo 0 = [demo_seg]"
    by (simp add: segments_from_def segment_of_def elf_demo_fields PT_LOAD_def)
  show "elf_tables_ok elf_demo" unfolding elf_tables_ok_def s by (simp add: elf_demo_fields)
  show "contents elf_demo demo_seg = [0xB8, 1, 2, 3, 0, 0, 0, 0]"
    by (simp add: contents_def elf_demo_def eval_nat_numeral)
qed

lemma demo_loadable:
  assumes "kvm k = vmm_boot" "kpm k = pmm_boot2"
  shows "loadable k [demo_seg]"
proof -
  have p: "pages_of demo_seg = 1" "vpages demo_seg = {1024}" by (auto simp: pages_of_def vpages_def)
  have "pde_present vmm_boot (unat (dir_index va))" if "vpage va = 1024" for va
  proof -
    have "unat (dir_index va) = vpage va div 1024" by (simp add: unat_dir_index flip: div_mult2_eq)
    then show ?thesis using that vmm_boot_state(6) [of 1] by simp
  qed
  moreover have "vpage (table_frame vmm_boot d) \<noteq> 1024" if "d < 1024" "pde_present vmm_boot d" for d
    using that vmm_boot_state(6,7,8) by (auto simp: less_2_cases_iff)
  ultimately have "placed vmm_boot demo_seg" unfolding placed_def p by simp
  then show ?thesis using assms p(1) by (simp add: loadable_def vmm_boot_state(4))
qed



end
