(* ===== verification/Descriptors.thy ===== *)
theory Descriptors
  imports Machine
begin

text \<open>
  The processor's tables: segment descriptors (\<open>kernel/gdt.c\<close>), the task state segment
  (\<open>kernel/tss.c\<close>), interrupt gates and the interrupt controllers (\<open>kernel/idt.c\<close>), and the frame
  of the jump to ring 3 (\<open>kernel/usermode.c\<close>). The addresses of the static tables and of the
  assembly entry points are the linker's, and are parameters. What the tables mean is read
  off them the way the processor does it.
\<close>

record gdt_entry_t =
  limit_low :: u16
  g_base_low :: u16
  base_middle :: u8
  access :: u8
  granularity :: u8
  base_high :: u8

record idt_entry_t =
  i_base_low :: u16
  selector :: u16
  i_zero :: u8
  gate_flags :: u8
  i_base_high :: u16

text \<open>The operand of \<open>lgdt\<close> and \<open>lidt\<close>.\<close>

record descriptor_t =
  desc_limit :: u16
  desc_base :: u32

record tss_t =
  prev_tss :: u32
  esp0 :: u32
  ss0 :: u32
  esp1 :: u32
  ss1 :: u32
  esp2 :: u32
  ss2 :: u32
  tss_cr3 :: u32
  tss_eip :: u32
  tss_eflags :: u32
  tss_eax :: u32
  tss_ecx :: u32
  tss_edx :: u32
  tss_ebx :: u32
  tss_esp :: u32
  tss_ebp :: u32
  tss_esi :: u32
  tss_edi :: u32
  tss_es :: u32
  tss_cs :: u32
  tss_ss :: u32
  tss_ds :: u32
  tss_fs :: u32
  tss_gs :: u32
  ldt :: u32
  trap :: u16
  iomap_base :: u16

definition sizeof_tss_t :: u32 where [const_defs]: "sizeof_tss_t = 104"

definition tss_zero :: tss_t where
  "tss_zero = \<lparr>prev_tss = 0, esp0 = 0, ss0 = 0, esp1 = 0, ss1 = 0, esp2 = 0, ss2 = 0, tss_cr3 = 0, tss_eip = 0,
     tss_eflags = 0, tss_eax = 0, tss_ecx = 0, tss_edx = 0, tss_ebx = 0, tss_esp = 0, tss_ebp = 0, tss_esi = 0,
     tss_edi = 0, tss_es = 0, tss_cs = 0, tss_ss = 0, tss_ds = 0, tss_fs = 0, tss_gs = 0, ldt = 0, trap = 0,
     iomap_base = 0\<rparr>"

text \<open>The tables, the registers that point at them, the interrupt flag and the writes to the controllers' ports.\<close>

record cpu =
  gdt :: "gdt_entry_t list"
  gdt_descriptor :: descriptor_t
  gdtr :: "descriptor_t option"
  idt :: "idt_entry_t list"
  idt_descriptor :: descriptor_t
  idtr :: "descriptor_t option"
  tss :: tss_t
  task_register :: u16
  interrupts :: bool
  pic_ports :: "(u16 \<times> u8) list"

subsection \<open>Segments\<close>

definition gdt_set_entry :: "nat \<Rightarrow> u32 \<Rightarrow> u32 \<Rightarrow> u8 \<Rightarrow> u8 \<Rightarrow> cpu \<Rightarrow> cpu" where
  "gdt_set_entry index bas limit acc gran c =
     c\<lparr>gdt := (gdt c)[index :=
        \<lparr>limit_low = ucast (limit AND 0xFFFF), g_base_low = ucast (bas AND 0xFFFF),
         base_middle = ucast (drop_bit 16 bas AND 0xFF), access = acc,
         granularity = ucast (drop_bit 16 limit AND 0x0F) OR (gran AND 0xF0),
         base_high = ucast (drop_bit 24 bas AND 0xFF)\<rparr>]\<rparr>"

definition gdt_set_tss :: "u32 \<Rightarrow> u32 \<Rightarrow> cpu \<Rightarrow> cpu" where
  "gdt_set_tss bas limit = gdt_set_entry 5 bas limit 0x89 0x00"

definition gdt_init :: "u32 \<Rightarrow> cpu \<Rightarrow> cpu" where
  "gdt_init gdt_addr c =
     (let c = c\<lparr>gdt_descriptor := \<lparr>desc_limit = 8 * 6 - 1, desc_base = gdt_addr\<rparr>\<rparr>;
          c = gdt_set_entry 0 0 0x00000000 0x00 0x00 c;
          c = gdt_set_entry 1 0 0xFFFFFFFF 0x9A 0xCF c;
          c = gdt_set_entry 2 0 0xFFFFFFFF 0x92 0xCF c;
          c = gdt_set_entry 3 0 0xFFFFFFFF 0xFA 0xCF c;
          c = gdt_set_entry 4 0 0xFFFFFFFF 0xF2 0xCF c;
          c = gdt_set_entry 5 0 0x00000000 0x00 0x00 c
      in c\<lparr>gdtr := Some (gdt_descriptor c)\<rparr>)"

text \<open>\<open>tss_init\<close>; the limit it passes on is the end of the structure, not its size.\<close>

definition tss_init :: "u32 \<Rightarrow> u32 \<Rightarrow> cpu \<Rightarrow> cpu \<times> msg list" where
  "tss_init tss_addr kernel_stack c =
     (let bas = tss_addr; limit = bas + sizeof_tss_t;
          c = c\<lparr>tss := tss_zero\<lparr>ss0 := 0x10, esp0 := kernel_stack\<rparr>\<rparr>;
          c = gdt_set_tss bas limit c;
          c = c\<lparr>task_register := 0x28\<rparr>
      in (c, [(''TSS: initialised, kernel stack at %x'' @ nl, [KInt kernel_stack])]))"

definition tss_set_kernel_stack :: "u32 \<Rightarrow> cpu \<Rightarrow> cpu" where
  "tss_set_kernel_stack stk c = c\<lparr>tss := (tss c)\<lparr>esp0 := stk\<rparr>\<rparr>"

subsection \<open>Gates\<close>

definition PIC1_COMMAND :: u16 where [const_defs]: "PIC1_COMMAND = 0x20"
definition PIC1_DATA :: u16 where [const_defs]: "PIC1_DATA = 0x21"
definition PIC2_COMMAND :: u16 where [const_defs]: "PIC2_COMMAND = 0xA0"
definition PIC2_DATA :: u16 where [const_defs]: "PIC2_DATA = 0xA1"
definition PIC_EOI :: u8 where [const_defs]: "PIC_EOI = 0x20"

definition pic_outb :: "u16 \<Rightarrow> u8 \<Rightarrow> cpu \<Rightarrow> cpu" where
  "pic_outb port v c = c\<lparr>pic_ports := pic_ports c @ [(port, v)]\<rparr>"

definition io_wait :: "cpu \<Rightarrow> cpu" where
  "io_wait = pic_outb 0x80 0"

definition pic_remap :: "cpu \<Rightarrow> cpu" where
  "pic_remap c =
     (let mask1 = 0xFC; mask2 = 0xFF;
          c = io_wait (pic_outb PIC1_COMMAND 0x11 c);
          c = io_wait (pic_outb PIC2_COMMAND 0x11 c);
          c = io_wait (pic_outb PIC1_DATA 0x20 c);
          c = io_wait (pic_outb PIC2_DATA 0x28 c);
          c = io_wait (pic_outb PIC1_DATA 0x04 c);
          c = io_wait (pic_outb PIC2_DATA 0x02 c);
          c = io_wait (pic_outb PIC1_DATA 0x01 c);
          c = io_wait (pic_outb PIC2_DATA 0x01 c);
          c = pic_outb PIC1_DATA mask1 c
      in pic_outb PIC2_DATA mask2 c)"

definition idt_set_gate :: "u8 \<Rightarrow> u32 \<Rightarrow> u16 \<Rightarrow> u8 \<Rightarrow> cpu \<Rightarrow> cpu" where
  "idt_set_gate num bas sel flags c =
     c\<lparr>idt := (idt c)[unat num :=
        \<lparr>i_base_low = ucast (bas AND 0xFFFF), selector = sel, i_zero = 0, gate_flags = flags,
         i_base_high = ucast (drop_bit 16 bas AND 0xFFFF)\<rparr>]\<rparr>"

text \<open>\<open>isr\<close> and \<open>irq\<close> are the addresses of the entry points of \<open>idt.s\<close>; the gates are set in the order of the code.\<close>

definition idt_init :: "u32 \<Rightarrow> (nat \<Rightarrow> u32) \<Rightarrow> (nat \<Rightarrow> u32) \<Rightarrow> cpu \<Rightarrow> cpu" where
  "idt_init idt_addr isr irq c =
     (let c = c\<lparr>idt_descriptor := \<lparr>desc_limit = 8 * 256 - 1, desc_base = idt_addr\<rparr>\<rparr>;
          c = fold (\<lambda>i. idt_set_gate (of_nat i) (isr i) 0x08 0x8E) [0..<32] c;
          c = idt_set_gate 128 (isr 128) 0x08 0xEE c;
          c = pic_remap c;
          c = fold (\<lambda>i. idt_set_gate (of_nat (32 + i)) (irq i) 0x08 0x8E) [0..<16] c
      in c\<lparr>idtr := Some (idt_descriptor c), interrupts := True\<rparr>)"

subsection \<open>Ring 3\<close>

text \<open>The words that \<open>iret\<close> pops: instruction pointer, code selector, flags, stack pointer, stack selector.\<close>

definition iret_frame :: "u32 \<Rightarrow> u32 \<Rightarrow> u32 \<Rightarrow> u32 list" where
  "iret_frame eflags entry user_stack = [entry, 0x1B, eflags OR 0x200, user_stack, 0x23]"

definition enter_usermode :: "u32 \<Rightarrow> u32 \<Rightarrow> kernel \<Rightarrow> (kernel \<times> control) option" where
  "enter_usermode entry user_stack k =
     do { k \<leftarrow> kprint [(''Entering ring 3 at 0x%x'' @ nl, [KInt entry])] k;
          Some (k, Enters entry user_stack) }"

subsection \<open>What the processor reads\<close>

definition seg_base :: "gdt_entry_t \<Rightarrow> u32" where
  "seg_base e = ucast (g_base_low e) OR push_bit 16 (ucast (base_middle e)) OR push_bit 24 (ucast (base_high e))"

definition seg_raw_limit :: "gdt_entry_t \<Rightarrow> u32" where
  "seg_raw_limit e = ucast (limit_low e) OR push_bit 16 (ucast (granularity e AND 0x0F))"

definition seg_limit :: "gdt_entry_t \<Rightarrow> u32" where
  "seg_limit e = (if bit (granularity e) 7 then push_bit 12 (seg_raw_limit e) OR 0xFFF else seg_raw_limit e)"

definition seg_dpl :: "gdt_entry_t \<Rightarrow> u8" where "seg_dpl e = drop_bit 5 (access e) AND 3"
definition seg_present :: "gdt_entry_t \<Rightarrow> bool" where "seg_present e \<longleftrightarrow> bit (access e) 7"
definition seg_code :: "gdt_entry_t \<Rightarrow> bool" where "seg_code e \<longleftrightarrow> bit (access e) 4 \<and> bit (access e) 3"
definition seg_data :: "gdt_entry_t \<Rightarrow> bool" where "seg_data e \<longleftrightarrow> bit (access e) 4 \<and> \<not> bit (access e) 3"

definition gate_offset :: "idt_entry_t \<Rightarrow> u32" where
  "gate_offset e = ucast (i_base_low e) OR push_bit 16 (ucast (i_base_high e))"

definition gate_dpl :: "idt_entry_t \<Rightarrow> u8" where "gate_dpl e = drop_bit 5 (gate_flags e) AND 3"
definition gate_present :: "idt_entry_t \<Rightarrow> bool" where "gate_present e \<longleftrightarrow> bit (gate_flags e) 7"

text \<open>The descriptor a selector names, and the privilege it asks for.\<close>

definition selector_index :: "u32 \<Rightarrow> nat" where "selector_index s = unat (drop_bit 3 s)"
definition selector_rpl :: "u32 \<Rightarrow> u8" where "selector_rpl s = ucast (s AND 3)"

lemma byte_masks: "(0xFFFF :: u32) = mask 16" "(0xFF :: u32) = mask 8" "(0x0F :: u32) = mask 4" "(0x0F :: u8) = mask 4"
  by (simp_all add: mask_eq_exp_minus_1)

lemma split_base:
  fixes b :: u32
  shows "(ucast (ucast (b AND 0xFFFF) :: u16) :: u32) OR push_bit 16 (ucast (ucast (drop_bit 16 b AND 0xFF) :: u8)) OR
     push_bit 24 (ucast (ucast (drop_bit 24 b AND 0xFF) :: u8)) = b"
  unfolding byte_masks
proof (rule bit_word_eqI)
  fix n assume "n < LENGTH(32)"
  then consider "n < 16" | "16 \<le> n" "n < 24" | "24 \<le> n" "n < 32" by fastforce
  then show "bit ((ucast (ucast (b AND mask 16) :: u16) :: u32) OR push_bit 16 (ucast (ucast (drop_bit 16 b AND mask 8) :: u8)) OR
     push_bit 24 (ucast (ucast (drop_bit 24 b AND mask 8) :: u8))) n = bit b n"
    by cases (auto simp: bit_simps)
qed

lemma split_limit:
  fixes l :: u32
  shows "(ucast (ucast (l AND 0xFFFF) :: u16) :: u32) OR push_bit 16 (ucast (((ucast (drop_bit 16 l AND 0x0F) :: u8) OR (g AND 0xF0)) AND 0x0F)) = take_bit 20 l"
proof -
  have z: "(0xF0 :: u8) AND 0x0F = 0" by simp
  have "((ucast (drop_bit 16 l AND 0x0F) :: u8) OR (g AND 0xF0)) AND 0x0F = ucast (drop_bit 16 l AND 0x0F) AND 0x0F"
    unfolding bit.conj_disj_distrib2 and.assoc z by simp
  moreover have "(ucast (ucast (l AND mask 16) :: u16) :: u32) OR push_bit 16 (ucast ((ucast (drop_bit 16 l AND mask 4) :: u8) AND mask 4)) = take_bit 20 l"
  proof (rule bit_word_eqI)
    fix n assume "n < LENGTH(32)"
    then consider "n < 16" | "16 \<le> n" "n < 20" | "20 \<le> n" "n < 32" by fastforce
    then show "bit ((ucast (ucast (l AND mask 16) :: u16) :: u32) OR push_bit 16 (ucast ((ucast (drop_bit 16 l AND mask 4) :: u8) AND mask 4))) n =
        bit (take_bit 20 l) n"
      by cases (auto simp: bit_simps)
  qed
  ultimately show ?thesis unfolding byte_masks by simp
qed

lemma split_offset:
  fixes b :: u32
  shows "(ucast (ucast (b AND 0xFFFF) :: u16) :: u32) OR push_bit 16 (ucast (ucast (drop_bit 16 b AND 0xFFFF) :: u16)) = b"
  unfolding byte_masks
proof (rule bit_word_eqI)
  fix n assume "n < LENGTH(32)"
  then consider "n < 16" | "16 \<le> n" "n < 32" by fastforce
  then show "bit ((ucast (ucast (b AND mask 16) :: u16) :: u32) OR push_bit 16 (ucast (ucast (drop_bit 16 b AND mask 16) :: u16))) n = bit b n"
    by cases (auto simp: bit_simps)
qed

text \<open>An entry set is an entry read back: base, the low 20 bits of the limit, and the access byte.\<close>

lemma gdt_entry_roundtrip:
  assumes "i < length (gdt c)" and e_def: "e = gdt (gdt_set_entry i b l a g c) ! i"
  shows "seg_base e = b" "seg_raw_limit e = take_bit 20 l" "access e = a" "bit (granularity e) 7 = bit g 7"
proof -
  have e: "e = \<lparr>limit_low = ucast (l AND 0xFFFF), g_base_low = ucast (b AND 0xFFFF), base_middle = ucast (drop_bit 16 b AND 0xFF),
     access = a, granularity = ucast (drop_bit 16 l AND 0x0F) OR (g AND 0xF0), base_high = ucast (drop_bit 24 b AND 0xFF)\<rparr>"
    using assms(1) by (simp add: e_def gdt_set_entry_def)
  show "seg_base e = b" "seg_raw_limit e = take_bit 20 l" "access e = a"
    by (simp_all add: e seg_base_def seg_raw_limit_def split_base split_limit)
  have "bit (0xF0 :: u8) 7" by simp
  then show "bit (granularity e) 7 = bit g 7" by (simp add: e bit_simps byte_masks)
qed

lemma gdt_other: "j \<noteq> i \<Longrightarrow> gdt (gdt_set_entry i b l a g c) ! j = gdt c ! j"
  by (simp add: gdt_set_entry_def)

lemma gdt_length [simp]: "length (gdt (gdt_set_entry i b l a g c)) = length (gdt c)"
  by (simp add: gdt_set_entry_def)

text \<open>A flat segment over the whole address space.\<close>

definition flat :: "gdt_entry_t \<Rightarrow> u8 \<Rightarrow> bool" where
  "flat e dpl \<longleftrightarrow> seg_present e \<and> seg_base e = 0 \<and> seg_limit e = 0xFFFFFFFF \<and> seg_dpl e = dpl"

lemma gdt_init_entries:
  assumes "length (gdt c) = 6"
  shows "length (gdt (gdt_init a c)) = 6" "flat (gdt (gdt_init a c) ! 1) 0" "seg_code (gdt (gdt_init a c) ! 1)"
    "flat (gdt (gdt_init a c) ! 2) 0" "seg_data (gdt (gdt_init a c) ! 2)" "flat (gdt (gdt_init a c) ! 3) 3" "seg_code (gdt (gdt_init a c) ! 3)"
    "flat (gdt (gdt_init a c) ! 4) 3" "seg_data (gdt (gdt_init a c) ! 4)" "\<not> seg_present (gdt (gdt_init a c) ! 0)"
    "\<not> seg_present (gdt (gdt_init a c) ! 5)" "gdtr (gdt_init a c) = Some \<lparr>desc_limit = 47, desc_base = a\<rparr>"
  using assms by (simp_all add: gdt_init_def gdt_set_entry_def Let_def flat_def seg_present_def seg_base_def seg_limit_def
      seg_raw_limit_def seg_dpl_def seg_code_def seg_data_def)

definition gate_is :: "idt_entry_t \<Rightarrow> u32 \<Rightarrow> u8 \<Rightarrow> bool" where
  "gate_is e h f \<longleftrightarrow> gate_offset e = h \<and> selector e = 0x08 \<and> gate_flags e = f"

lemma gate_set: "length (idt c) = 256 \<Longrightarrow> gate_is (idt (idt_set_gate n b 0x08 f c) ! unat n) b f"
  using unat_u8_less [of n] by (simp add: idt_set_gate_def gate_is_def gate_offset_def split_offset)

lemma gate_other: "j \<noteq> unat n \<Longrightarrow> idt (idt_set_gate n b s f c) ! j = idt c ! j"
  by (simp add: idt_set_gate_def)

lemma gate_length [simp]: "length (idt (idt_set_gate n b s f c)) = length (idt c)"
  by (simp add: idt_set_gate_def)

text \<open>A run of gates set by a loop.\<close>

definition gates_set :: "cpu \<Rightarrow> nat \<Rightarrow> nat \<Rightarrow> (nat \<Rightarrow> u32) \<Rightarrow> u8 \<Rightarrow> cpu \<Rightarrow> bool" where
  "gates_set c m n h f c' \<longleftrightarrow> length (idt c') = 256 \<and>
     (\<forall>j. m \<le> j \<and> j < m + n \<longrightarrow> gate_is (idt c' ! j) (h (j - m)) f) \<and>
     (\<forall>j. \<not> (m \<le> j \<and> j < m + n) \<longrightarrow> idt c' ! j = idt c ! j)"

lemma gates_set_Suc:
  assumes "gates_set c m n h f c'" "m + n < 256"
  shows "gates_set c m (Suc n) h f (idt_set_gate (of_nat (m + n)) (h n) 0x08 f c')"
proof -
  let ?c' = "idt_set_gate (of_nat (m + n)) (h n) 0x08 f c'"
  have u: "unat (of_nat (m + n) :: u8) = m + n" using assms(2) by (intro unat_of_nat_u8) simp
  have l: "length (idt c') = 256" using assms(1) by (simp add: gates_set_def)
  have old: "\<And>j. \<not> (m \<le> j \<and> j < m + n) \<Longrightarrow> idt c' ! j = idt c ! j" using assms(1) by (simp add: gates_set_def)
  have "gate_is (idt ?c' ! (m + n)) (h n) f" using gate_set [OF l, of "of_nat (m + n)"] unfolding u .
  moreover have other: "idt ?c' ! j = idt c' ! j" if "j \<noteq> m + n" for j using gate_other [of j "of_nat (m + n)"] that unfolding u by simp
  moreover have "\<And>j. m \<le> j \<and> j < m + n \<Longrightarrow> gate_is (idt c' ! j) (h (j - m)) f"
    using assms(1) by (simp add: gates_set_def)
  ultimately have "gate_is (idt ?c' ! j) (h (j - m)) f" if "m \<le> j \<and> j < m + Suc n" for j
    using that by (cases "j = m + n") simp_all
  moreover have "idt ?c' ! j = idt c ! j" if "\<not> (m \<le> j \<and> j < m + Suc n)" for j
  proof -
    have "j \<noteq> m + n" "\<not> (m \<le> j \<and> j < m + n)" using that by auto
    then show ?thesis using other old by metis
  qed
  ultimately show ?thesis unfolding gates_set_def using l by simp
qed

lemma gates_fold:
  assumes "length (idt c) = 256" "m + n \<le> 256"
  shows "gates_set c m n h f (fold (\<lambda>i. idt_set_gate (of_nat (m + i)) (h i) 0x08 f) [0..<n] c)"
  using assms(2)
proof (induction n)
  case 0
  then show ?case using assms(1) by (auto simp: gates_set_def)
next
  case (Suc n)
  then show ?case using gates_set_Suc [of c m n h f] by (simp del: of_nat_add)
qed

lemma pic_remap_idt [simp]: "idt (pic_remap c) = idt c" "gdt (pic_remap c) = gdt c" "gdtr (pic_remap c) = gdtr c" "tss (pic_remap c) = tss c"
  by (simp_all add: pic_remap_def Let_def pic_outb_def io_wait_def)

lemma fold_gates_gdt: "gdt (fold (\<lambda>i. idt_set_gate (g i) (h i) s f) xs c) = gdt c"
  by (induction xs arbitrary: c) (simp_all add: idt_set_gate_def)

lemma idt_init_gates:
  assumes "length (idt c) = 256" "j < 256"
  shows "if j < 32 then gate_is (idt (idt_init a isr irq c) ! j) (isr j) 0x8E
    else if j < 48 then gate_is (idt (idt_init a isr irq c) ! j) (irq (j - 32)) 0x8E
    else if j = 128 then gate_is (idt (idt_init a isr irq c) ! j) (isr 128) 0xEE else idt (idt_init a isr irq c) ! j = idt c ! j"
proof -
  let ?c = "c\<lparr>idt_descriptor := \<lparr>desc_limit = 8 * 256 - 1, desc_base = a\<rparr>\<rparr>"
  let ?x = "fold (\<lambda>i. idt_set_gate (of_nat (0 + i)) (isr i) 0x08 0x8E) [0..<32] ?c"
  let ?y = "pic_remap (idt_set_gate 128 (isr 128) 0x08 0xEE ?x)"
  let ?z = "fold (\<lambda>i. idt_set_gate (of_nat (32 + i)) (irq i) 0x08 0x8E) [0..<16] ?y"
  have l: "length (idt ?c) = 256" using assms(1) by simp
  have "gates_set ?c 0 32 isr 0x8E ?x" by (rule gates_fold [OF l]) simp
  then have x: "length (idt ?x) = 256" "if j < 32 then gate_is (idt ?x ! j) (isr j) 0x8E else idt ?x ! j = idt c ! j"
    by (simp_all add: gates_set_def)
  have u: "unat (128 :: u8) = 128" by simp
  have y: "length (idt ?y) = 256" "gate_is (idt ?y ! 128) (isr 128) 0xEE" "j \<noteq> 128 \<Longrightarrow> idt ?y ! j = idt ?x ! j"
    using x(1) gate_set [OF x(1), of 128] gate_other [of j 128] by simp_all
  have "gates_set ?y 32 16 irq 0x8E ?z" by (rule gates_fold [OF y(1)]) simp
  then have "if 32 \<le> j \<and> j < 48 then gate_is (idt ?z ! j) (irq (j - 32)) 0x8E else idt ?z ! j = idt ?y ! j"
    by (simp add: gates_set_def)
  moreover have "idt (idt_init a isr irq c) = idt ?z" by (simp add: idt_init_def Let_def)
  ultimately show ?thesis using x y(2,3) by (cases "j = 128") (auto split: if_splits)
qed

lemma idt_init_keeps:
  "gdt (idt_init a isr irq c) = gdt c" "idtr (idt_init a isr irq c) = Some \<lparr>desc_limit = 2047, desc_base = a\<rparr>" "interrupts (idt_init a isr irq c)"
proof -
  have d: "idt_descriptor (fold (\<lambda>i. idt_set_gate (g i) (h i) s f) xs c) = idt_descriptor c" for g h s f xs c
    by (induction xs arbitrary: c) (simp_all add: idt_set_gate_def)
  have p: "idt_descriptor (pic_remap c) = idt_descriptor c" for c by (simp add: pic_remap_def Let_def pic_outb_def io_wait_def)
  show "gdt (idt_init a isr irq c) = gdt c" "idtr (idt_init a isr irq c) = Some \<lparr>desc_limit = 2047, desc_base = a\<rparr>" "interrupts (idt_init a isr irq c)"
    by (simp_all add: idt_init_def Let_def d p fold_gates_gdt idt_set_gate_def)
qed

subsection \<open>Properties\<close>


text \<open>The state at power on, for the examples.\<close>

definition cpu_reset :: cpu where
  "cpu_reset = \<lparr>gdt = replicate 6 \<lparr>limit_low = 0, g_base_low = 0, base_middle = 0, access = 0, granularity = 0, base_high = 0\<rparr>,
     gdt_descriptor = \<lparr>desc_limit = 0, desc_base = 0\<rparr>, gdtr = None,
     idt = replicate 256 \<lparr>i_base_low = 0, selector = 0, i_zero = 0, gate_flags = 0, i_base_high = 0\<rparr>,
     idt_descriptor = \<lparr>desc_limit = 0, desc_base = 0\<rparr>, idtr = None, tss = tss_zero, task_register = 0, interrupts = False,
     pic_ports = []\<rparr>"

lemma cpu_reset_lengths: "length (gdt cpu_reset) = 6" "length (idt cpu_reset) = 256"
  by (simp_all add: cpu_reset_def)


text \<open>\<open>tss_init\<close> gives the processor the task state segment: the task register names a present TSS
  descriptor at the address of the structure, whose ring 0 stack is the given one, and no
  other segment changes. The limit of the descriptor is not the size of the structure less
  one but the low 20 bits of the address where it ends.\<close>

theorem tss_init_descriptor:
  assumes "length (gdt c) = 6" "tss_init a stk c = (c', ms)" "e = gdt c' ! selector_index (ucast (task_register c'))"
  shows "seg_base e = a \<and> seg_present e \<and> access e = 0x89 \<and> esp0 (tss c') = stk \<and> ss0 (tss c') = 0x10 \<and>
    (\<forall>j < 5. gdt c' ! j = gdt c ! j) \<and> unat (seg_limit e) = (unat a + 104) mod 1048576"
proof -
  let ?c = "c\<lparr>tss := tss_zero\<lparr>ss0 := 0x10, esp0 := stk\<rparr>\<rparr>"
  have c': "c' = (gdt_set_entry 5 a (a + 104) 0x89 0 ?c)\<lparr>task_register := 0x28\<rparr>"
    using assms(2) by (auto simp: tss_init_def gdt_set_tss_def Let_def sizeof_tss_t_def)
  then have e: "e = gdt (gdt_set_entry 5 a (a + 104) 0x89 0 ?c) ! 5" using assms(3) by (simp add: selector_index_def)
  note R = gdt_entry_roundtrip [OF _ e]
  have len: "5 < length (gdt ?c)" using assms(1) by simp
  have "unat (seg_limit e) = unat (take_bit 20 (a + 104))" using R(2,4) [OF len] by (simp add: seg_limit_def)
  also have "\<dots> = (unat a + 104) mod 4294967296 mod 1048576"
    by (simp add: take_bit_eq_mod unat_mod unat_word_ariths)
  also have "\<dots> = (unat a + 104) mod 1048576" by (rule mod_mod_cancel) simp
  finally have lim: "unat (seg_limit e) = (unat a + 104) mod 1048576" .
  have "gdt c' ! j = gdt c ! j" if "j < 5" for j using that gdt_other [of j 5] by (simp add: c')
  moreover have "seg_present e" using R(3) [OF len] by (simp add: seg_present_def)
  moreover have "esp0 (tss c') = stk" "ss0 (tss c') = 0x10" by (simp_all add: c' gdt_set_entry_def)
  ultimately show ?thesis using R(1,3) [OF len] lim by simp
qed

theorem tss_init_descriptor_witness:
  "\<exists>c ms. tss_init 0x206000 0x200000 cpu_reset = (c, ms) \<and> seg_base (gdt c ! 5) = 0x206000 \<and> unat (seg_limit (gdt c ! 5)) = 0x6068"
proof -
  obtain c ms where c: "tss_init 0x206000 0x200000 cpu_reset = (c, ms)" by force
  then have "task_register c = 0x28" by (auto simp: tss_init_def Let_def)
  then have "selector_index (ucast (task_register c)) = 5" by (simp add: selector_index_def)
  then show ?thesis using tss_init_descriptor [OF cpu_reset_lengths(1) c refl] c by simp
qed

end
