(* ===== verification/Shell.thy ===== *)
theory Shell
  imports Elf Descriptors
begin

text \<open>
  The command line, \<open>kernel/shell.c\<close>: the line buffer, the commands and their dispatch. A
  command is given the C string in the buffer, or the part of it behind the command word.
  \<open>run\<close> does not return: it leaves for ring 3 with the line still in the buffer. A write past
  the local array of \<open>cmd_write\<close> is \<open>None\<close>.
\<close>

definition SHELL_BUFFER_SIZE :: u32 where [const_defs]: "SHELL_BUFFER_SIZE = 256"

record shell =
  sh_buffer :: bytes
  buffer_pos :: u32

definition setcolor_k :: "u8 \<Rightarrow> kernel \<Rightarrow> kernel" where
  "setcolor_k color k = k\<lparr>kcon := (kcon k)\<lparr>tty := terminal_setcolor color (tty (kcon k))\<rparr>\<rparr>"

definition putchar_k :: "u8 \<Rightarrow> kernel \<Rightarrow> kernel option" where
  "putchar_k c k = do { t \<leftarrow> terminal_putchar c (tty (kcon k)); Some (k\<lparr>kcon := (kcon k)\<lparr>tty := t\<rparr>\<rparr>) }"

definition shell_prompt :: "kernel \<Rightarrow> kernel option" where
  "shell_prompt k =
     do { k \<leftarrow> kprint [(''AshOS> '', [])] (setcolor_k 0x0A k);
          Some (setcolor_k 0x07 k) }"

text \<open>Comparison of C strings, by signed characters; the end of a string reads as 0.\<close>

definition char_at :: "bytes \<Rightarrow> u8" where "char_at s = (case s of [] \<Rightarrow> 0 | c # _ \<Rightarrow> c)"

fun strcmp :: "bytes \<Rightarrow> bytes \<Rightarrow> int" where
  "strcmp [] b = 0 - sint (char_at b)"
| "strcmp (x # a) b =
     (if x \<noteq> 0 \<and> char_at b \<noteq> 0 \<and> x = char_at b then strcmp a (tl b) else sint x - sint (char_at b))"

fun strncmp :: "bytes \<Rightarrow> bytes \<Rightarrow> nat \<Rightarrow> int" where
  "strncmp a b 0 = 0"
| "strncmp a b (Suc n) =
     (if char_at a \<noteq> 0 \<and> char_at b \<noteq> 0 \<and> char_at a = char_at b then strncmp (tl a) (tl b) n
      else sint (char_at a) - sint (char_at b))"

subsection \<open>Commands\<close>

definition help_text :: "msg list" where
  "help_text =
     [(''  help     - show this message'' @ nl, []),
      (''  clear    - clear the screen'' @ nl, []),
      (''  version  - show OS version'' @ nl, []),
      (''  echo     - print text back'' @ nl, []),
      (''  meminfo  - show memory usage'' @ nl, []),
      (''  ps       - list processes'' @ nl, []),
      (''  ls            - list files'' @ nl, []),
      (''  touch <file>  - create a file'' @ nl, []),
      (''  write <file>  - write to a file'' @ nl, []),
      (''  cat <file>    - read a file'' @ nl, []),
      (''  rm <file>     - delete a file'' @ nl, []),
      (''  run <file>    - run an ELF program'' @ nl, [])]"

definition cmd_help :: "kernel \<Rightarrow> kernel option" where
  "cmd_help k =
     do { k \<leftarrow> kprint [(nl @ ''Available commands:'' @ nl, [])] (setcolor_k 0x0B k);
          kprint help_text (setcolor_k 0x07 k) }"

definition cmd_clear :: "kernel \<Rightarrow> kernel" where
  "cmd_clear k = k\<lparr>kcon := (kcon k)\<lparr>tty := terminal_initialize (tty (kcon k))\<rparr>\<rparr>"

definition cmd_version :: "kernel \<Rightarrow> kernel option" where
  "cmd_version k =
     do { k \<leftarrow> kprint [(nl @ ''%s'' @ nl, [KStr (Some (cstr ''AshOS V210526''))])] (setcolor_k 0x0B k);
          kprint [(''Built from scratch.'' @ nl, [])] (setcolor_k 0x07 k) }"

definition cmd_echo :: "bytes \<Rightarrow> kernel \<Rightarrow> kernel option" where
  "cmd_echo args k = kprint [(nl @ ''%s'' @ nl, [KStr (Some args)])] k"

definition cmd_meminfo :: "kernel \<Rightarrow> kernel option" where
  "cmd_meminfo k =
     kprint [(nl @ ''Total pages: %d'' @ nl, [KInt (pmm_free_pages (kpm k) + 521)]),
             (''Free pages:  %d'' @ nl, [KInt (pmm_free_pages (kpm k))]),
             (''Free memory: %d KB'' @ nl, [KInt (pmm_free_pages (kpm k) * 4)])] k"

definition tab :: string where "tab = [CHR 0x09]"

definition state_name :: "process_state_t \<Rightarrow> string" where
  "state_name s = (case s of PROCESS_RUNNING \<Rightarrow> ''RUNNING'' | PROCESS_READY \<Rightarrow> ''READY'' | PROCESS_DEAD \<Rightarrow> ''DEAD'')"

text \<open>The walk along the process list; on a list without an end it does not return.\<close>

partial_function (option) ps_loop :: "u32 \<Rightarrow> kernel \<Rightarrow> kernel option" where
  "ps_loop proc k =
     (if proc = 0 then Some k
      else do { k \<leftarrow> kprint [(''%d'' @ tab @ ''%s'' @ nl, [KInt (pid (procs (ksched k) proc)),
                    KStr (Some (cstr (state_name (state (procs (ksched k) proc)))))])] k;
                ps_loop (next_proc (procs (ksched k) proc)) k })"

definition cmd_ps :: "kernel \<Rightarrow> kernel option" where
  "cmd_ps k =
     do { k \<leftarrow> kprint [(nl @ ''PID'' @ tab @ ''STATE'' @ nl, []), (''---'' @ tab @ ''-----'' @ nl, [])] k;
          ps_loop (process_list (ksched k)) k }"

definition cmd_ls :: "kernel \<Rightarrow> kernel option" where
  "cmd_ls k = kprint (fs_list (kfs k)) k"

definition cmd_touch :: "bytes \<Rightarrow> kernel \<Rightarrow> kernel option" where
  "cmd_touch args k =
     (if char_at args = 0 then kprint [(''Usage: touch <filename>'' @ nl, [])] k
      else let (f, r, ms) = fs_create args (kfs k) in kprint ms (k\<lparr>kfs := f\<rparr>))"

definition cmd_write :: "bytes \<Rightarrow> kernel \<Rightarrow> kernel option" where
  "cmd_write args k =
     (let name = takeWhile (\<lambda>c. c \<noteq> 32) args; len = length name
      in if len = length args then kprint [(''Usage: write <filename> <content>'' @ nl, [])] k
         else if 64 \<le> len then None
         else do { let content = drop (len + 1) args;
                   (f, r, ms) \<leftarrow> fs_write name content (of_nat (length content)) (kfs k);
                   kprint ms (k\<lparr>kfs := f\<rparr>) })"

text \<open>The string \<open>%s\<close> reads from memory, up to its terminator.\<close>

fun string_at :: "u32 \<Rightarrow> nat \<Rightarrow> kernel \<Rightarrow> bytes option" where
  "string_at a n k =
     (if n = 0 then None
      else do { c \<leftarrow> load8 a k;
                if c = 0 then Some [] else do { cs \<leftarrow> string_at (a + 1) (n - 1) k; Some (c # cs) } })"

declare string_at.simps [simp del]

definition cmd_cat :: "bytes \<Rightarrow> kernel \<Rightarrow> kernel option" where
  "cmd_cat args k =
     (if char_at args = 0 then kprint [(''Usage: cat <filename>'' @ nl, [])] k
      else do { (k, buf) \<leftarrow> kmalloc_k 512 k;
                (k, n) \<leftarrow> fs_read_k args buf 512 k;
                k \<leftarrow> (if n > 0
                     then do { k \<leftarrow> store8 (buf + of_int n) 0 k;
                               s \<leftarrow> string_at buf 4294967296 k;
                               kprint [(nl @ ''%s'' @ nl, [KStr (Some s)])] k }
                     else Some k);
                kfree_k buf k })"

definition cmd_rm :: "bytes \<Rightarrow> kernel \<Rightarrow> kernel option" where
  "cmd_rm args k =
     (if char_at args = 0 then kprint [(''Usage: rm <filename>'' @ nl, [])] k
      else let (f, r, ms) = fs_delete args (kfs k) in kprint ms (k\<lparr>kfs := f\<rparr>))"

definition cmd_run :: "bytes \<Rightarrow> kernel \<Rightarrow> (kernel \<times> control) option" where
  "cmd_run args k =
     (if char_at args = 0
      then do { k \<leftarrow> kprint [(''Usage: run <filename>'' @ nl, [])] k; Some (k, Returns) }
      else do { (k, r, entry) \<leftarrow> elf_load args 0 k;
                if r < 0
                then do { k \<leftarrow> kprint [(''Failed to load '' @ [CHR 0x27] @ ''%s'' @ [CHR 0x27] @ nl, [KStr (Some args)])] k;
                          Some (k, Returns) }
                else do { (k, stk) \<leftarrow> kmalloc_k 4096 k;
                          enter_usermode entry (stk + 4096) k } })"

subsection \<open>The line\<close>

definition returning :: "kernel option \<Rightarrow> (kernel \<times> control) option" where
  "returning r = do { k \<leftarrow> r; Some (k, Returns) }"

definition dispatch :: "bytes \<Rightarrow> kernel \<Rightarrow> (kernel \<times> control) option" where
  "dispatch line k =
     (if strcmp line (cstr ''help'') = 0 then returning (cmd_help k)
      else if strcmp line (cstr ''clear'') = 0 then Some (cmd_clear k, Returns)
      else if strcmp line (cstr ''version'') = 0 then returning (cmd_version k)
      else if strncmp line (cstr ''echo '') 5 = 0 then returning (cmd_echo (drop 5 line) k)
      else if strcmp line (cstr ''meminfo'') = 0 then returning (cmd_meminfo k)
      else if strcmp line (cstr ''ps'') = 0 then returning (cmd_ps k)
      else if strcmp line (cstr ''ls'') = 0 then returning (cmd_ls k)
      else if strncmp line (cstr ''touch '') 6 = 0 then returning (cmd_touch (drop 6 line) k)
      else if strncmp line (cstr ''write '') 6 = 0 then returning (cmd_write (drop 6 line) k)
      else if strncmp line (cstr ''cat '') 4 = 0 then returning (cmd_cat (drop 4 line) k)
      else if strncmp line (cstr ''rm '') 3 = 0 then returning (cmd_rm (drop 3 line) k)
      else if strncmp line (cstr ''run '') 4 = 0 then cmd_run (drop 4 line) k
      else do { k \<leftarrow> kprint [(''Unknown command: %s'' @ nl, [KStr (Some line)])] (setcolor_k 0x04 k);
                Some (setcolor_k 0x07 k, Returns) })"

definition buffer_line :: "shell \<Rightarrow> bytes option" where
  "buffer_line sh = (if 0 \<in> set (sh_buffer sh) then Some (takeWhile (\<lambda>c. c \<noteq> 0) (sh_buffer sh)) else None)"

definition shell_execute :: "shell \<Rightarrow> kernel \<Rightarrow> (shell \<times> kernel \<times> control) option" where
  "shell_execute sh k =
     do { k \<leftarrow> kprint [(nl, [])] k;
          if buffer_pos sh = 0 then do { k \<leftarrow> shell_prompt k; Some (sh, k, Returns) }
          else do { line \<leftarrow> buffer_line sh;
                    (k, ctl) \<leftarrow> dispatch line k;
                    if ctl \<noteq> Returns then Some (sh, k, ctl)
                    else do { let sh = sh\<lparr>buffer_pos := 0, sh_buffer := (sh_buffer sh)[0 := 0]\<rparr>;
                              k \<leftarrow> putchar_k 10 k;
                              k \<leftarrow> shell_prompt k;
                              Some (sh, k, Returns) } } }"

text \<open>A store outside the buffer is \<open>None\<close>.\<close>

definition set_char :: "u32 \<Rightarrow> u8 \<Rightarrow> shell \<Rightarrow> shell option" where
  "set_char i c sh = (if i < SHELL_BUFFER_SIZE then Some (sh\<lparr>sh_buffer := (sh_buffer sh)[unat i := c]\<rparr>) else None)"

definition shell_process_char :: "u8 \<Rightarrow> shell \<Rightarrow> kernel \<Rightarrow> (shell \<times> kernel \<times> control) option" where
  "shell_process_char c sh k =
     (if c = 10 then shell_execute sh k
      else if c = 8
      then (if buffer_pos sh > 0
            then do { let sh = sh\<lparr>buffer_pos := buffer_pos sh - 1\<rparr>;
                      sh \<leftarrow> set_char (buffer_pos sh) 0 sh;
                      k \<leftarrow> putchar_k 8 k;
                      Some (sh, k, Returns) }
            else Some (sh, k, Returns))
      else if buffer_pos sh \<ge> SHELL_BUFFER_SIZE - 1 then Some (sh, k, Returns)
      else do { sh \<leftarrow> set_char (buffer_pos sh) c sh;
                let sh = sh\<lparr>buffer_pos := buffer_pos sh + 1\<rparr>;
                sh \<leftarrow> set_char (buffer_pos sh) 0 sh;
                k \<leftarrow> putchar_k c k;
                Some (sh, k, Returns) })"

definition shell_init :: "shell \<Rightarrow> kernel \<Rightarrow> (shell \<times> kernel) option" where
  "shell_init sh k =
     do { let sh = sh\<lparr>buffer_pos := 0, sh_buffer := (sh_buffer sh)[0 := 0]\<rparr>;
          k \<leftarrow> putchar_k 10 k;
          k \<leftarrow> shell_prompt k;
          Some (sh, k) }"

subsection \<open>Output\<close>

text \<open>A step that only writes to the console.\<close>

definition talks :: "kernel \<Rightarrow> kernel \<Rightarrow> bool" where
  "talks k k' \<longleftrightarrow> (\<exists>c. k' = k\<lparr>kcon := c\<rparr> \<and> con_inv c)"

lemma talks_con: "talks k k' \<Longrightarrow> con_inv (kcon k')"
  by (auto simp: talks_def)

lemma talks_trans: "talks k k' \<Longrightarrow> talks k' k'' \<Longrightarrow> talks k k''"
  by (auto simp: talks_def)

lemma talks_fields: "talks k k' \<Longrightarrow> kfs k' = kfs k \<and> ksched k' = ksched k \<and> kvm k' = kvm k \<and> kpm k' = kpm k"
  by (auto simp: talks_def)

lemma talks_inv: "talks k k' \<Longrightarrow> kernel_inv k bs as \<Longrightarrow> kernel_inv k' bs as"
  by (auto simp: talks_def kernel_inv_def)

text \<open>The page tables and the frame allocator are left alone.\<close>

definition same_pages :: "kernel \<Rightarrow> kernel \<Rightarrow> bool" where
  "same_pages k k' \<longleftrightarrow> kvm k' = kvm k \<and> kpm k' = kpm k"

lemma talks_pages: "talks k k' \<Longrightarrow> same_pages k k'"
  by (auto simp: talks_def same_pages_def)

lemma scratch_pages: "scratch_kept k bs b k' \<Longrightarrow> same_pages k k'"
  by (auto simp: scratch_kept_def same_pages_def)

lemma same_pages_trans: "same_pages k k' \<Longrightarrow> same_pages k' k'' \<Longrightarrow> same_pages k k''"
  by (simp add: same_pages_def)

lemma setcolor_talks: "con_inv (kcon k) \<Longrightarrow> talks k (setcolor_k c k)"
  by (auto simp: talks_def setcolor_k_def con_inv_def term_inv_def terminal_setcolor_def)

lemma putchar_talks:
  assumes "con_inv (kcon k)"
  obtains k' where "putchar_k c k = Some k'" "talks k k'"
proof -
  obtain t where "terminal_putchar c (tty (kcon k)) = Some t" "term_inv t"
    using terminal_putchar_inv [of "tty (kcon k)" c] assms by (auto simp: con_inv_def)
  moreover from this(2) have "talks k (k\<lparr>kcon := (kcon k)\<lparr>tty := t\<rparr>\<rparr>)"
    unfolding talks_def using assms by (intro exI [of _ "(kcon k)\<lparr>tty := t\<rparr>"]) (auto simp: con_inv_def)
  ultimately show thesis using that by (simp add: putchar_k_def)
qed

lemma kprint_talks:
  assumes "con_inv (kcon k)" "list_all msg_ok ms"
  obtains k' where "kprint ms k = Some k'" "talks k k'"
proof -
  obtain c where "kprint ms k = Some (k\<lparr>kcon := c\<rparr>)" "con_inv c" by (rule kprint_ok [OF assms])
  then show thesis using that unfolding talks_def by blast
qed

lemma prompt_talks:
  assumes "con_inv (kcon k)"
  obtains k' where "shell_prompt k = Some k'" "talks k k'"
proof -
  have s: "talks k (setcolor_k 0x0A k)" by (rule setcolor_talks [OF assms])
  have "list_all msg_ok [(''AshOS> '', [])]" by (simp add: msg_ok_def)
  then obtain k1 where k1: "kprint [(''AshOS> '', [])] (setcolor_k 0x0A k) = Some k1" "talks (setcolor_k 0x0A k) k1"
    by (rule kprint_talks [OF talks_con [OF s]])
  have "talks k (setcolor_k 0x07 k1)"
    using talks_trans [OF s k1(2)] setcolor_talks [OF talks_con [OF k1(2)]] talks_trans by blast
  then show thesis using that k1(1) by (simp add: shell_prompt_def)
qed

subsection \<open>Strings\<close>

lemma sint_u8_eq: "sint (a :: u8) - sint b = 0 \<longleftrightarrow> a = b"
  using signed_word_eqI [of a b, where ?'a = int] by auto

lemma strcmp_eq:
  assumes "0 \<notin> set a" "0 \<notin> set b"
  shows "strcmp a b = 0 \<longleftrightarrow> a = b"
  using assms
proof (induction a arbitrary: b)
  case Nil
  then show ?case using sint_u8_eq [of 0 "hd b"] by (cases b) (auto simp: char_at_def)
next
  case (Cons x a)
  then show ?case using sint_u8_eq [of x "char_at b"] by (cases b) (auto simp: char_at_def)
qed

lemma strncmp_prefix:
  assumes "0 \<notin> set a" "0 \<notin> set b"
  shows "strncmp a b (length b) = 0 \<longleftrightarrow> take (length b) a = b"
  using assms
proof (induction b arbitrary: a)
  case (Cons y b)
  then show ?case using sint_u8_eq [of "char_at a" y] by (cases a) (auto simp: char_at_def)
qed simp

subsection \<open>The line buffer\<close>

definition line :: "shell \<Rightarrow> bytes" where "line sh = take (unat (buffer_pos sh)) (sh_buffer sh)"

definition sh_inv :: "shell \<Rightarrow> bool" where
  "sh_inv sh \<longleftrightarrow> length (sh_buffer sh) = 256 \<and> unat (buffer_pos sh) < 256 \<and> sh_buffer sh ! unat (buffer_pos sh) = 0 \<and> 0 \<notin> set (line sh)"

lemma buffer_line_eq: "sh_inv sh \<Longrightarrow> buffer_line sh = Some (line sh)"
proof -
  assume i: "sh_inv sh"
  let ?n = "unat (buffer_pos sh)"
  have l: "?n < length (sh_buffer sh)" using i by (simp add: sh_inv_def)
  have b: "sh_buffer sh = line sh @ 0 # drop (Suc ?n) (sh_buffer sh)"
    using id_take_nth_drop [OF l] i by (simp add: sh_inv_def line_def)
  have "takeWhile (\<lambda>c. c \<noteq> 0) (line sh @ 0 # xs) = line sh" for xs
    using i by (subst takeWhile_append2) (auto simp: sh_inv_def)
  then show ?thesis unfolding buffer_line_def by (subst (1 2) b) simp
qed

lemma line_length: "sh_inv sh \<Longrightarrow> length (line sh) = unat (buffer_pos sh)"
  by (simp add: sh_inv_def line_def)

lemma emptied: "length (sh_buffer sh) = 256 \<Longrightarrow> sh_inv (sh\<lparr>buffer_pos := 0, sh_buffer := (sh_buffer sh)[0 := 0]\<rparr>) \<and>
    line (sh\<lparr>buffer_pos := 0, sh_buffer := (sh_buffer sh)[0 := 0]\<rparr>) = []"
  by (simp add: sh_inv_def line_def)

text \<open>What a key does to the line: a backspace takes the last character off, any other is appended while there is room.\<close>

definition edit :: "bytes \<Rightarrow> u8 \<Rightarrow> bytes" where
  "edit l c = (if c = 8 then butlast l else if length l < 255 then l @ [c] else l)"

lemma append_char:
  assumes "sh_inv sh" "unat (buffer_pos sh) < 255" "c \<noteq> 0"
  defines "n \<equiv> unat (buffer_pos sh)"
  defines "sh' \<equiv> sh\<lparr>sh_buffer := (sh_buffer sh)[n := c, n + 1 := 0], buffer_pos := buffer_pos sh + 1\<rparr>"
  shows "sh_inv sh'" "line sh' = line sh @ [c]"
proof -
  have u: "unat (buffer_pos sh + 1) = n + 1" using assms(2) by (simp add: n_def unat_add_u32)
  have l: "length (sh_buffer sh) = 256" "0 \<notin> set (line sh)" using assms(1) by (simp_all add: sh_inv_def)
  show line: "line sh' = line sh @ [c]"
    using assms(2) l(1) by (simp add: sh'_def line_def u n_def take_Suc_conv_app_nth)
  show "sh_inv sh'" using l assms(2,3) line by (auto simp: sh_inv_def) (simp_all add: sh'_def u n_def)
qed

lemma remove_char:
  assumes "sh_inv sh" "0 < unat (buffer_pos sh)"
  defines "sh' \<equiv> sh\<lparr>buffer_pos := buffer_pos sh - 1, sh_buffer := (sh_buffer sh)[unat (buffer_pos sh) - 1 := 0]\<rparr>"
  shows "sh_inv sh'" "line sh' = butlast (line sh)"
proof -
  have u: "unat (buffer_pos sh - 1) = unat (buffer_pos sh) - 1" using assms(2) by (simp add: unat_sub_u32)
  have l: "length (sh_buffer sh) = 256" "0 \<notin> set (line sh)" "unat (buffer_pos sh) < 256" using assms(1) by (simp_all add: sh_inv_def)
  show line: "line sh' = butlast (line sh)"
    using assms(2) l(1,3) by (simp add: sh'_def line_def u butlast_take)
  show "sh_inv sh'" using l line by (auto simp: sh_inv_def dest: in_set_butlastD) (simp_all add: sh'_def u)
qed

lemma process_char_edits:
  assumes inv: "sh_inv sh" "con_inv (kcon k)" and c: "c \<noteq> 0" "c \<noteq> 10"
  obtains sh' k' where "shell_process_char c sh k = Some (sh', k', Returns)" "sh_inv sh'" "line sh' = edit (line sh) c" "talks k k'"
proof -
  let ?n = "unat (buffer_pos sh)"
  have n: "?n < 256" "length (line sh) = ?n" using inv(1) line_length by (simp_all add: sh_inv_def)
  have refl: "talks k k" using inv(2) by (auto simp: talks_def intro!: exI [of _ "kcon k"])
  consider "c = 8" "?n = 0" | "c = 8" "0 < ?n" | "c \<noteq> 8" "255 \<le> ?n" | "c \<noteq> 8" "?n < 255" by fastforce
  then show thesis
  proof cases
    case 1
    then have "shell_process_char c sh k = Some (sh, k, Returns)" by (simp add: shell_process_char_def word_less_nat_alt)
    moreover have "line sh = []" using 1(2) n(2) by simp
    ultimately show ?thesis using that [of sh k] inv(1) refl 1 by (simp add: edit_def)
  next
    case 2
    obtain k' where k': "putchar_k 8 k = Some k'" "talks k k'" by (rule putchar_talks [OF inv(2)])
    have u: "unat (buffer_pos sh - 1) = ?n - 1" using 2(2) by (simp add: unat_sub_u32)
    then have "buffer_pos sh - 1 < SHELL_BUFFER_SIZE" using n(1) by (simp add: word_less_nat_alt const_defs)
    then have "shell_process_char c sh k = Some (sh\<lparr>buffer_pos := buffer_pos sh - 1, sh_buffer := (sh_buffer sh)[?n - 1 := 0]\<rparr>, k', Returns)"
      using 2 k'(1) u by (simp add: shell_process_char_def set_char_def Let_def word_less_nat_alt)
    then show ?thesis using that remove_char [OF inv(1) 2(2)] k'(2) 2(1) by (simp add: edit_def)
  next
    case 3
    then have "SHELL_BUFFER_SIZE - 1 \<le> buffer_pos sh" by (simp add: word_le_nat_alt const_defs)
    then have "shell_process_char c sh k = Some (sh, k, Returns)" using 3 c by (simp add: shell_process_char_def)
    then show ?thesis using that [of sh k] inv(1) refl 3 n(2) by (simp add: edit_def)
  next
    case 4
    obtain k' where k': "putchar_k c k = Some k'" "talks k k'" by (rule putchar_talks [OF inv(2)])
    have u: "unat (buffer_pos sh + 1) = ?n + 1" using 4(2) by (simp add: unat_add_u32)
    have "\<not> SHELL_BUFFER_SIZE - 1 \<le> buffer_pos sh" "buffer_pos sh < SHELL_BUFFER_SIZE" "buffer_pos sh + 1 < SHELL_BUFFER_SIZE"
      using 4(2) u by (simp_all add: word_less_nat_alt word_le_nat_alt const_defs)
    then have "shell_process_char c sh k =
        Some (sh\<lparr>sh_buffer := (sh_buffer sh)[?n := c, ?n + 1 := 0], buffer_pos := buffer_pos sh + 1\<rparr>, k', Returns)"
      using 4 c k'(1) u by (simp add: shell_process_char_def set_char_def Let_def)
    then show ?thesis using that append_char [OF inv(1) 4(2) c(1)] k'(2) 4 n(2) by (simp add: edit_def)
  qed
qed

subsection \<open>Commands that only print\<close>

lemma print_step:
  assumes "talks k k1" "list_all msg_ok ms"
  obtains k2 where "kprint ms k1 = Some k2" "talks k k2"
  using kprint_talks [OF talks_con [OF assms(1)] assms(2)] talks_trans [OF assms(1)] by blast

lemma color_step: "talks k k1 \<Longrightarrow> talks k (setcolor_k c k1)"
  using setcolor_talks talks_con talks_trans by blast

lemma talks_refl: "con_inv (kcon k) \<Longrightarrow> talks k k"
  by (auto simp: talks_def intro!: exI [of _ "kcon k"])

lemma fs_list_msgs: "list_all msg_ok (fs_list f)"
proof -
  have "list_all msg_ok (concat (map (list_entry d) xs))" for d xs
    by (induction xs) (auto simp: list_entry_def Let_def msg_ok_def)
  then show ?thesis by (simp add: fs_list_def Let_def msg_ok_def)
qed

lemma ps_loop_talks:
  "chain (procs (ksched k)) proc as \<Longrightarrow> con_inv (kcon k) \<Longrightarrow> \<exists>k'. ps_loop proc k = Some k' \<and> talks k k'"
proof (induction as arbitrary: proc k)
  case Nil
  then show ?case using talks_refl by (auto simp: ps_loop.simps [of 0])
next
  case (Cons a as)
  let ?m = "(''%d'' @ tab @ ''%s'' @ nl, [KInt (pid (procs (ksched k) proc)), KStr (Some (cstr (state_name (state (procs (ksched k) proc)))))])"
  have "list_all msg_ok [?m]" by (simp add: msg_ok_def tab_def)
  then obtain k1 where k1: "kprint [?m] k = Some k1" "talks k k1" by (rule kprint_talks [OF Cons.prems(2)])
  have s: "ksched k1 = ksched k" using talks_fields [OF k1(2)] by simp
  have "chain (procs (ksched k1)) (next_proc (procs (ksched k1) proc)) as" using Cons.prems(1) s by auto
  then obtain k' where "ps_loop (next_proc (procs (ksched k1) proc)) k1 = Some k'" "talks k1 k'"
    using Cons.IH [OF _ talks_con [OF k1(2)]] by blast
  moreover from this(1) have "ps_loop proc k = Some k'" using Cons.prems(1) k1(1) by (subst ps_loop.simps) auto
  ultimately show ?case using talks_trans [OF k1(2)] by blast
qed

lemma plain_msg: "CHR ''%'' \<notin> set fmt \<Longrightarrow> msg_ok (fmt, args)"
  by (induction fmt) (auto simp: msg_ok_def)

lemma help_talks:
  assumes "con_inv (kcon k)"
  shows "\<exists>k'. cmd_help k = Some k' \<and> talks k k'"
proof -
  let ?a = "[(nl @ ''Available commands:'' @ nl, [])]"
  have ok: "list_all msg_ok ?a" "list_all msg_ok help_text" by (simp_all add: help_text_def plain_msg)
  obtain k1 where k1: "kprint ?a (setcolor_k 0x0B k) = Some k1" "talks k k1" by (rule print_step [OF setcolor_talks [OF assms] ok(1)])
  obtain k2 where "kprint help_text (setcolor_k 0x07 k1) = Some k2" "talks k k2" by (rule print_step [OF color_step [OF k1(2)] ok(2)])
  then show ?thesis using k1(1) by (simp add: cmd_help_def)
qed

lemma version_talks:
  assumes "con_inv (kcon k)"
  shows "\<exists>k'. cmd_version k = Some k' \<and> talks k k'"
proof -
  let ?a = "[(nl @ ''%s'' @ nl, [KStr (Some (cstr ''AshOS V210526''))])]" and ?b = "[(''Built from scratch.'' @ nl, [])]"
  have ok: "list_all msg_ok ?a" "list_all msg_ok ?b" by (simp_all add: msg_ok_def)
  obtain k1 where k1: "kprint ?a (setcolor_k 0x0B k) = Some k1" "talks k k1" by (rule print_step [OF setcolor_talks [OF assms] ok(1)])
  obtain k2 where "kprint ?b (setcolor_k 0x07 k1) = Some k2" "talks k k2" by (rule print_step [OF color_step [OF k1(2)] ok(2)])
  then show ?thesis using k1(1) by (simp add: cmd_version_def)
qed

lemma printing_commands:
  assumes "con_inv (kcon k)"
  shows "\<exists>k'. cmd_echo args k = Some k' \<and> talks k k'" "\<exists>k'. cmd_meminfo k = Some k' \<and> talks k k'"
    "\<exists>k'. cmd_ls k = Some k' \<and> talks k k'" "talks k (cmd_clear k)"
proof -
  have e: "list_all msg_ok [(nl @ ''%s'' @ nl, [KStr (Some args)])]" by (simp add: msg_ok_def)
  show "\<exists>k'. cmd_echo args k = Some k' \<and> talks k k'"
    unfolding cmd_echo_def by (rule kprint_talks [OF assms e]) blast
  have m: "list_all msg_ok [(nl @ ''Total pages: %d'' @ nl, [KInt a]), (''Free pages:  %d'' @ nl, [KInt b]), (''Free memory: %d KB'' @ nl, [KInt c])]"
    for a b c by (simp add: msg_ok_def)
  show "\<exists>k'. cmd_meminfo k = Some k' \<and> talks k k'"
    unfolding cmd_meminfo_def by (rule kprint_talks [OF assms m]) blast
  show "\<exists>k'. cmd_ls k = Some k' \<and> talks k k'"
    unfolding cmd_ls_def by (rule kprint_talks [OF assms fs_list_msgs]) blast
  show "talks k (cmd_clear k)"
    unfolding talks_def cmd_clear_def using assms terminal_initialize_inv
    by (intro exI [of _ "(kcon k)\<lparr>tty := terminal_initialize (tty (kcon k))\<rparr>"]) (auto simp: con_inv_def)
qed

lemma ps_talks:
  assumes "con_inv (kcon k)" "sched_inv (ksched k) as"
  shows "\<exists>k'. cmd_ps k = Some k' \<and> talks k k'"
proof -
  let ?m = "[(nl @ ''PID'' @ tab @ ''STATE'' @ nl, []), (''---'' @ tab @ ''-----'' @ nl, [])]"
  have "list_all msg_ok ?m" by (simp add: plain_msg tab_def)
  then obtain k1 where k1: "kprint ?m k = Some k1" "talks k k1" by (rule kprint_talks [OF assms(1)])
  have "chain (procs (ksched k1)) (process_list (ksched k1)) as" using assms(2) talks_fields [OF k1(2)] by (simp add: sched_inv_def)
  then obtain k2 where "ps_loop (process_list (ksched k1)) k1 = Some k2" "talks k1 k2"
    using ps_loop_talks talks_con [OF k1(2)] by blast
  then show ?thesis unfolding cmd_ps_def using k1(1) talks_trans [OF k1(2)] by simp
qed

subsection \<open>Reading a file\<close>

lemma string_at_holds:
  "holds k a (s @ 0 # t) \<Longrightarrow> 0 \<notin> set s \<Longrightarrow> length s < n \<Longrightarrow> string_at a n k = Some s"
proof (induction s arbitrary: a n)
  case Nil
  then show ?case by (auto simp: string_at.simps [of a n] holds_def)
next
  case (Cons c s)
  have c: "load8 a k = Some c" using Cons.prems(1) by (auto simp: holds_def dest: spec [of _ 0])
  have "holds k (a + 1) (s @ 0 # t)" unfolding holds_def
  proof (intro allI impI)
    fix i assume "i < length (s @ 0 # t)"
    then show "load8 (a + 1 + of_nat i) k = Some ((s @ 0 # t) ! i)"
      using Cons.prems(1) by (auto simp: holds_def add.assoc dest: spec [of _ "Suc i"])
  qed
  then have "string_at (a + 1) (n - 1) k = Some s" using Cons.prems(2,3) by (intro Cons.IH) simp_all
  then show ?case using c Cons.prems(2,3) by (simp add: string_at.simps [of a n])
qed

lemma takeWhile_terminated: "\<exists>t. (d :: bytes) @ [0] = takeWhile (\<lambda>c. c \<noteq> 0) d @ 0 # t"
proof (induction d)
  case (Cons c d)
  then show ?case by (cases "c = 0") auto
qed simp

definition file_text :: "bytes \<Rightarrow> msg list" where
  "file_text d = (if d = [] then [] else [(nl @ ''%s'' @ nl, [KStr (Some (takeWhile (\<lambda>c. c \<noteq> 0) d))])])"

text \<open>The terminator stored behind the bytes of a file, inside the block.\<close>

lemma terminate_block:
  assumes "heap_rep (kheap_of k) bs" "(unat p, m) \<in> live 0x1000000 bs" "length d < m" "holds k p d"
  obtains h where "store8 (p + of_nat (length d)) 0 k = Some (set_heap h k)" "heap_rep h bs"
    "keeps (live 0x1000000 bs - {(unat p, m)}) (kheap_of k) h"
    "string_at p 4294967296 (set_heap h k) = Some (takeWhile (\<lambda>c. c \<noteq> 0) d)"
proof -
  let ?x = "unat p + length d"
  obtain h where h: "store_bytes (of_nat ?x) [0] k = Some (set_heap h k)" "heap_rep h bs"
    "keeps (live 0x1000000 bs - {(unat p, m)}) (kheap_of k) h"
    "\<And>b. in_window b \<Longrightarrow> load8 b (set_heap h k) = (if ?x \<le> unat b \<and> unat b < ?x + length [0 :: u8] then Some ([0] ! (unat b - ?x)) else load8 b k)"
    using store_bytes_block [OF assms(1,2), of ?x "[0]"] assms(3) by auto
  have pm: "unat p + m \<le> 0x1100000" using live_bound [OF _ assms(2)] assms(1) by (auto simp: heap_rep_def)
  have w: "in_window (p + of_nat i)" "unat (p + of_nat i) = unat p + i" if "i \<le> length d" for i
  proof -
    show "in_window (p + of_nat i)" using that assms(3) by (intro block_in_window [OF assms(1,2)]) simp
    show "unat (p + of_nat i) = unat p + i" using that assms(3) pm by (subst unat_add_u32) (simp_all add: unat_of_nat_u32)
  qed
  have "holds (set_heap h k) p (d @ [0])" unfolding holds_def
  proof (intro allI impI)
    fix i assume "i < length (d @ [0])"
    then have i: "i \<le> length d" by simp
    show "load8 (p + of_nat i) (set_heap h k) = Some ((d @ [0]) ! i)"
      using h(4) [OF w(1) [OF i]] w(2) [OF i] i assms(4) by (cases "i = length d") (simp_all add: holds_def nth_append)
  qed
  moreover obtain t where "d @ [0] = takeWhile (\<lambda>c. c \<noteq> 0) d @ 0 # t" using takeWhile_terminated by blast
  moreover have "length (takeWhile (\<lambda>c. c \<noteq> 0) d) < 4294967296"
    using le_less_trans [OF length_takeWhile_le [of "\<lambda>c. c \<noteq> 0" d] assms(3)] pm by simp
  ultimately have "string_at p 4294967296 (set_heap h k) = Some (takeWhile (\<lambda>c. c \<noteq> 0) d)"
    using string_at_holds [of "set_heap h k" p "takeWhile (\<lambda>c. c \<noteq> 0) d" t] by (auto dest: set_takeWhileD)
  moreover have "of_nat ?x = p + of_nat (length d)" by simp
  then have "store8 (p + of_nat (length d)) 0 k = Some (set_heap h k)" using h(1) by (simp add: bind_eq_Some_conv)
  ultimately show thesis using that h(2,3) by blast
qed

lemma scratch_keptD:
  "scratch_kept k bs b k' \<Longrightarrow> heap_rep (kheap_of k') b" "scratch_kept k bs b k' \<Longrightarrow> keeps (live 0x1000000 bs) (kheap_of k) (kheap_of k')"
  by (auto simp: scratch_kept_def)

lemma cat_found:
  assumes inv: "kernel_inv k bs as" and name: "0 \<notin> set name" "name \<noteq> []" and room: "alloc_spec 512 0x1000000 bs \<noteq> None"
    and d: "files (disk (kfs k)) name = Some d" "length d < 512"
  obtains h c b where "cmd_cat name k = Some ((set_heap h k)\<lparr>kcon := c\<rparr>)" "say (file_text d) (kcon k) = Some c" "con_inv c"
    "heap_rep h b" "live 0x1000000 b = live 0x1000000 bs" "keeps (live 0x1000000 bs) (kheap_of k) h"
proof -
  note D = kernel_invD [OF inv]
  let ?L = "live 0x1000000"
  have u: "up4 (unat (512 :: u32)) = 512" "unat (512 :: u32) = 512" by (simp_all add: up4_def)
  obtain h tmp m k2 n b2 where r: "kmalloc_k 512 k = Some (set_heap h k, tmp)" "fs_read_k name tmp 512 (set_heap h k) = Some (k2, n)"
    "scratch_kept k bs b2 k2" "?L b2 = insert (unat tmp, m) (?L bs)" "unat (512 :: u32) \<le> m" "\<And>j. (unat tmp, j) \<notin> ?L bs"
    "n = (case files (disk (kfs k)) name of None \<Rightarrow> -1 | Some d \<Rightarrow> int (min (unat (512 :: u32)) (length d)))"
    "\<And>d. files (disk (kfs k)) name = Some d \<Longrightarrow>
       readable tmp (min (unat (512 :: u32)) (length d)) k2 = take (unat (512 :: u32)) d \<and> kcon k2 = kcon k"
    by (rule scratch_read [OF D(1) _ _ _ D(2,3) name(1), of 512]) (use room u in auto)
  have n: "n = int (length d)" "holds k2 tmp d" "kcon k2 = kcon k"
    using r(7) r(8) [OF d(1)] d u(2) holds_readable [of tmp d k2] by (simp_all add: min_def)
  obtain h2 where k2: "k2 = set_heap h2 k" "heap_rep h2 b2" "keeps (?L bs) (kheap_of k) h2"
    using r(3) n(3) by (auto simp: scratch_kept_def set_heap_def)
  have L: "?L b2 - {(unat tmp, m)} = ?L bs" using r(4,6) by auto
  have "list_all msg_ok (file_text d)" by (simp add: file_text_def msg_ok_def)
  then obtain c where c: "say (file_text d) (kcon k) = Some c" "con_inv c" using say_delivers [OF D(3)] by blast
  obtain h3 where h3: "heap_rep h3 b2" "keeps (?L bs) (kheap_of k) h3"
    "(if n > 0 then do { k \<leftarrow> store8 (tmp + of_int n) 0 k2; s \<leftarrow> string_at tmp 4294967296 k; kprint [(nl @ ''%s'' @ nl, [KStr (Some s)])] k }
      else Some k2) = Some ((set_heap h3 k)\<lparr>kcon := c\<rparr>)"
  proof (cases "d = []")
    case True
    moreover from this have "c = kcon k" using c(1) by (simp add: file_text_def)
    ultimately show ?thesis using that [OF k2(2,3)] n(1,3) k2(1) by simp
  next
    case False
    have "heap_rep (kheap_of k2) b2" "(unat tmp, m) \<in> ?L b2" "length d < m" using k2(1,2) r(4,5) d(2) u(2) by simp_all
    then obtain h3 where h3: "store8 (tmp + of_nat (length d)) 0 k2 = Some (set_heap h3 k2)" "heap_rep h3 b2"
      "keeps (?L b2 - {(unat tmp, m)}) (kheap_of k2) h3" "string_at tmp 4294967296 (set_heap h3 k2) = Some (takeWhile (\<lambda>c. c \<noteq> 0) d)"
      using terminate_block [OF _ _ _ n(2)] by blast
    have "keeps (?L bs) (kheap_of k) h3" using keeps_trans [OF k2(3)] h3(3) L k2(1) by simp
    moreover have "kprint [(nl @ ''%s'' @ nl, [KStr (Some (takeWhile (\<lambda>c. c \<noteq> 0) d))])] (set_heap h3 k2) = Some ((set_heap h3 k)\<lparr>kcon := c\<rparr>)"
      using c(1) False k2(1) by (simp add: kprint_def file_text_def del: say.simps)
    ultimately show ?thesis using that h3 False n(1) by simp
  qed
  have "scratch_kept k bs b2 ((set_heap h3 k)\<lparr>kcon := c\<rparr>)" unfolding scratch_kept_def using h3(1,2) c(2) by blast
  then obtain k5 b5 where f: "kfree_k tmp ((set_heap h3 k)\<lparr>kcon := c\<rparr>) = Some k5" "?L b5 = ?L bs" "scratch_kept k bs b5 k5"
    using scratch_release [OF _ r(4,6)] by blast
  obtain h5 where h5: "kfree tmp h3 = Some h5" "k5 = (set_heap h5 k)\<lparr>kcon := c\<rparr>" using f(1) by (auto simp: kfree_k_def bind_eq_Some_conv)
  have "heap_rep h5 b5" "keeps (?L bs) (kheap_of k) h5" using scratch_keptD [OF f(3)] h5(2) by simp_all
  moreover have "cmd_cat name k = Some k5" using r(1,2) h3(3) f(1) name by (cases name) (simp_all add: cmd_cat_def char_at_def)
  ultimately show thesis using that h5(2) c f(2) by blast
qed

lemma cat_missing:
  assumes inv: "kernel_inv k bs as" and name: "0 \<notin> set name" "name \<noteq> []" and room: "alloc_spec 512 0x1000000 bs \<noteq> None"
    and d: "files (disk (kfs k)) name = None"
  obtains k' b where "cmd_cat name k = Some k'" "scratch_kept k bs b k'" "live 0x1000000 b = live 0x1000000 bs"
proof -
  obtain k1 tmp k2 k3 b3 where r: "kmalloc_k 512 k = Some (k1, tmp)"
    "fs_read_k name tmp 512 k1 = Some (k2, case files (disk (kfs k)) name of None \<Rightarrow> -1 | Some d \<Rightarrow> int (min 512 (length d)))"
    "kfree_k tmp k2 = Some k3" "scratch_kept k bs b3 k3" "live 0x1000000 b3 = live 0x1000000 bs"
    by (rule open_probe [OF inv name(1) room])
  then have "cmd_cat name k = Some k3" using d name by (cases name) (simp_all add: cmd_cat_def char_at_def)
  then show thesis using that r(4,5) by blast
qed

subsection \<open>Dispatch\<close>

lemma cstr_words [simp]:
  "cstr ''help'' = [104, 101, 108, 112]" "cstr ''clear'' = [99, 108, 101, 97, 114]" "cstr ''version'' = [118, 101, 114, 115, 105, 111, 110]"
  "cstr ''echo '' = [101, 99, 104, 111, 32]" "cstr ''meminfo'' = [109, 101, 109, 105, 110, 102, 111]" "cstr ''ps'' = [112, 115]"
  "cstr ''ls'' = [108, 115]" "cstr ''touch '' = [116, 111, 117, 99, 104, 32]" "cstr ''write '' = [119, 114, 105, 116, 101, 32]"
  "cstr ''cat '' = [99, 97, 116, 32]" "cstr ''rm '' = [114, 109, 32]" "cstr ''run '' = [114, 117, 110, 32]"
  by (simp_all add: cstr_def)

text \<open>What the comparisons with signed characters decide: equality with a word, or a word in front.\<close>

definition run_command :: "bytes \<Rightarrow> kernel \<Rightarrow> (kernel \<times> control) option" where
  "run_command l k =
     (if l = cstr ''help'' then returning (cmd_help k)
      else if l = cstr ''clear'' then Some (cmd_clear k, Returns)
      else if l = cstr ''version'' then returning (cmd_version k)
      else if take 5 l = cstr ''echo '' then returning (cmd_echo (drop 5 l) k)
      else if l = cstr ''meminfo'' then returning (cmd_meminfo k)
      else if l = cstr ''ps'' then returning (cmd_ps k)
      else if l = cstr ''ls'' then returning (cmd_ls k)
      else if take 6 l = cstr ''touch '' then returning (cmd_touch (drop 6 l) k)
      else if take 6 l = cstr ''write '' then returning (cmd_write (drop 6 l) k)
      else if take 4 l = cstr ''cat '' then returning (cmd_cat (drop 4 l) k)
      else if take 3 l = cstr ''rm '' then returning (cmd_rm (drop 3 l) k)
      else if take 4 l = cstr ''run '' then cmd_run (drop 4 l) k
      else do { k \<leftarrow> kprint [(''Unknown command: %s'' @ nl, [KStr (Some l)])] (setcolor_k 0x04 k); Some (setcolor_k 0x07 k, Returns) })"

lemma dispatch_eq:
  assumes "0 \<notin> set l"
  shows "dispatch l k = run_command l k"
proof -
  have e: "strcmp l w = 0 \<longleftrightarrow> l = w" if "0 \<notin> set w" for w using strcmp_eq [OF assms that] .
  have p: "strncmp l w n = 0 \<longleftrightarrow> take n l = w" if "0 \<notin> set w" "n = length w" for w n using strncmp_prefix [OF assms that(1)] that(2) by simp
  show ?thesis unfolding dispatch_def run_command_def by (simp only: cstr_words) (simp add: e p)
qed

lemma fs_step:
  assumes "kernel_inv k bs as" "fs_inv f" "list_all msg_ok ms"
  shows "\<exists>k'. kprint ms (k\<lparr>kfs := f\<rparr>) = Some k' \<and> kernel_inv k' bs as \<and> same_pages k k'"
proof -
  have inv: "kernel_inv (k\<lparr>kfs := f\<rparr>) bs as" using assms(1,2) by (simp add: kernel_inv_def)
  obtain k' where "kprint ms (k\<lparr>kfs := f\<rparr>) = Some k'" "talks (k\<lparr>kfs := f\<rparr>) k'" by (rule kprint_talks [OF kernel_invD(3) [OF inv] assms(3)])
  then show ?thesis using talks_inv [OF _ inv] talks_pages by (fastforce simp: same_pages_def)
qed

lemma usage_step:
  assumes "kernel_inv k bs as" "CHR ''%'' \<notin> set fmt"
  shows "\<exists>k'. kprint [(fmt, [])] k = Some k' \<and> kernel_inv k' bs as \<and> same_pages k k'"
proof -
  have "list_all msg_ok [(fmt, [])]" using assms(2) by (simp add: plain_msg)
  then obtain k' where "kprint [(fmt, [])] k = Some k'" "talks k k'" by (rule kprint_talks [OF kernel_invD(3) [OF assms(1)]])
  then show ?thesis using talks_inv talks_pages assms(1) by blast
qed

lemma touch_step:
  assumes inv: "kernel_inv k bs as" and name: "0 \<notin> set name" "length name \<le> 63"
  shows "\<exists>k'. cmd_touch name k = Some k' \<and> kernel_inv k' bs as \<and> same_pages k k'"
proof (cases "char_at name = 0")
  case True
  then show ?thesis using usage_step [OF inv, of "''Usage: touch <filename>'' @ nl"] by (simp add: cmd_touch_def)
next
  case False
  obtain f r ms where f: "fs_create name (kfs k) = (f, r, ms)" by (cases "fs_create name (kfs k)")
  note K = fs_create_keeps [OF kernel_invD(2) [OF inv] name f]
  show ?thesis using False f fs_step [OF inv K(1,3)] by (simp add: cmd_touch_def)
qed

lemma rm_step:
  assumes inv: "kernel_inv k bs as" and name: "0 \<notin> set name"
  shows "\<exists>k'. cmd_rm name k = Some k' \<and> kernel_inv k' bs as \<and> same_pages k k'"
proof (cases "char_at name = 0")
  case True
  then show ?thesis using usage_step [OF inv, of "''Usage: rm <filename>'' @ nl"] by (simp add: cmd_rm_def)
next
  case False
  obtain f r ms where f: "fs_delete name (kfs k) = (f, r, ms)" by (cases "fs_delete name (kfs k)")
  note K = fs_delete_keeps [OF kernel_invD(2) [OF inv] name f]
  show ?thesis using False f fs_step [OF inv K(1,3)] by (simp add: cmd_rm_def)
qed

lemma block_alloc_total: "fs_inv f \<Longrightarrow> \<exists>g b. block_alloc f = Some (g, b)"
proof (cases "free_blocks (superblock f) = 0")
  case True
  then show ?thesis by (simp add: block_alloc_def)
next
  case False
  assume "fs_inv f"
  then show ?thesis using False by (cases rule: block_alloc_spec) auto
qed

text \<open>A write of at most one block returns, whatever the state of the disk.\<close>

lemma fs_write_small_total:
  fixes sz :: u32
  assumes "fs_inv f" "unat sz \<le> 512" "unat sz \<le> length data"
  obtains f' r ms where "fs_write name data sz f = Some (f', r, ms)"
proof -
  let ?n = "(sz + FS_BLOCK_SIZE - 1) div FS_BLOCK_SIZE"
  have e: "sz + FS_BLOCK_SIZE - 1 = sz + 511" by (simp add: FS_BLOCK_SIZE_def)
  have "unat (sz + 511) = unat sz + 511" using assms(2) by (subst unat_add_u32) simp_all
  then have n: "unat ?n \<le> 1" unfolding e using assms(2) by (simp add: FS_BLOCK_SIZE_def unat_div div_le_mono [of _ 1023 512, simplified])
  have "\<exists>g y ok. fs_write_loop data sz ?n 0 0 x f = Some (g, y, ok)" for x
  proof (cases "0 < ?n")
    case True
    obtain g b where ba: "block_alloc f = Some (g, b)" using block_alloc_total [OF assms(1)] by blast
    let ?x = "x\<lparr>inode_blocks := (inode_blocks x)[0 := b]\<rparr>"
    let ?g = "g\<lparr>disk := write_sector b (copy_to 0 data (unat sz) (replicate 512 0)) (disk g)\<rparr>"
    have c: "\<not> FS_BLOCK_SIZE < sz" using assms(2) by (simp add: FS_BLOCK_SIZE_def word_less_nat_alt)
    have "\<not> (1 :: u32) < ?n" using n by (simp add: word_less_nat_alt)
    then have last: "fs_write_loop data sz ?n 1 sz ?x ?g = Some (?g, ?x, True)" by (subst fs_write_loop.simps) (rule if_not_P)
    show ?thesis
    proof (cases "b = 0")
      case True
      then have "fs_write_loop data sz ?n 0 0 x f = Some (g, x, False)"
        using \<open>0 < ?n\<close> ba by (subst fs_write_loop.simps) simp
      then show ?thesis by blast
    next
      case False
      then have "fs_write_loop data sz ?n 0 0 x f = fs_write_loop data sz ?n 1 sz ?x ?g"
        using True ba c assms(3) by (subst fs_write_loop.simps) (simp add: Let_def)
      then show ?thesis unfolding last by blast
    qed
  qed (subst fs_write_loop.simps, simp, blast)
  moreover have "\<not> of_nat MAX_FILE_BLOCKS < ?n" using n by (simp add: MAX_FILE_BLOCKS_def word_less_nat_alt)
  moreover obtain g y ok where "fs_write_loop data sz ?n 0 0 (inode_read (nat (inode_find name (disk f))) (disk f)) f = Some (g, y, ok)"
    using calculation(1) by blast
  ultimately show thesis using that unfolding fs_write_def Let_def by (cases "inode_find name (disk f) < 0"; cases ok) simp_all
qed

abbreviation first_word :: "bytes \<Rightarrow> bytes" where "first_word args \<equiv> takeWhile (\<lambda>c. c \<noteq> 32) args"

lemma write_step:
  assumes inv: "kernel_inv k bs as" and args: "0 \<notin> set args" "length args \<le> 255" and len: "length (first_word args) < 64 \<or> 32 \<notin> set args"
  shows "\<exists>k'. cmd_write args k = Some k' \<and> kernel_inv k' bs as \<and> same_pages k k'"
proof (cases "length (first_word args) = length args")
  case True
  then show ?thesis using usage_step [OF inv, of "''Usage: write <filename> <content>'' @ nl"] by (simp add: cmd_write_def Let_def)
next
  case False
  let ?body = "drop (length (first_word args) + 1) args"
  have "32 \<in> set args"
  proof (rule ccontr)
    assume "32 \<notin> set args"
    then have "first_word args = args" by (intro takeWhile_eq_all_conv [THEN iffD2]) auto
    then have "length (first_word args) = length args" by (rule arg_cong)
    with False show False by contradiction
  qed
  then have short: "\<not> 64 \<le> length (first_word args)" using len by simp
  have "length ?body \<le> 255" using args(2) by simp
  then have u: "unat (of_nat (length ?body) :: u32) = length ?body" "unat (of_nat (length ?body) :: u32) \<le> 512"
    by (simp_all add: unat_of_nat_u32 del: length_drop)
  obtain f r ms where f: "fs_write (first_word args) ?body (of_nat (length ?body)) (kfs k) = Some (f, r, ms)"
    by (rule fs_write_small_total [OF kernel_invD(2) [OF inv] u(2) eq_refl [OF u(1)]])
  have z: "0 \<notin> set (first_word args)" using args(1) set_takeWhileD by fast
  have "unat (of_nat (length ?body) :: u32) \<le> 0xFFFFFE00" using u(2) by (simp del: length_drop)
  then have fs: "fs_inv f" using fs_write_keeps [OF kernel_invD(2) [OF inv] z _ f] by blast
  have "cmd_write args k = kprint ms (k\<lparr>kfs := f\<rparr>)" unfolding cmd_write_def Let_def using f False short by (simp del: length_drop)
  then show ?thesis using fs_step [OF inv fs fs_write_msgs [OF f]] by simp
qed

text \<open>
  The lines that return to the prompt safely: \<open>run\<close> without a name or of a file the loader refuses;
  \<open>touch\<close> with a name of at most 63 characters; \<open>write\<close> with one that fits the array of
  \<open>cmd_write\<close>; \<open>cat\<close> of a file of fewer than 512 bytes, with room for its buffer; and every
  other line.
\<close>

definition safe_line :: "kernel \<Rightarrow> blk list \<Rightarrow> bytes \<Rightarrow> bool" where
  "safe_line k bs l \<longleftrightarrow>
     (take 4 l = cstr ''run '' \<longrightarrow> drop 4 l = [] \<or> alloc_spec 8192 0x1000000 bs = None \<or> not_loadable (files (disk (kfs k)) (drop 4 l))) \<and>
     (take 6 l = cstr ''touch '' \<longrightarrow> length l \<le> 69) \<and>
     (take 6 l = cstr ''write '' \<longrightarrow> length (first_word (drop 6 l)) < 64 \<or> 32 \<notin> set (drop 6 l)) \<and>
     (take 4 l = cstr ''cat '' \<longrightarrow> alloc_spec 512 0x1000000 bs \<noteq> None \<and>
        (\<forall>d. files (disk (kfs k)) (drop 4 l) = Some d \<longrightarrow> length d < 512))"

lemma cat_step:
  assumes inv: "kernel_inv k bs as" and name: "0 \<notin> set name" and room: "alloc_spec 512 0x1000000 bs \<noteq> None"
    and d: "\<And>d. files (disk (kfs k)) name = Some d \<Longrightarrow> length d < 512"
  shows "\<exists>k' b. cmd_cat name k = Some k' \<and> kernel_inv k' b as \<and> live 0x1000000 b = live 0x1000000 bs \<and> same_pages k k'"
proof (cases "name = []")
  case True
  then show ?thesis using usage_step [OF inv, of "''Usage: cat <filename>'' @ nl"] by (auto simp: cmd_cat_def char_at_def)
next
  case False
  show ?thesis
  proof (cases "files (disk (kfs k)) name")
    case None
    obtain k3 b where "cmd_cat name k = Some k3" "scratch_kept k bs b k3" "live 0x1000000 b = live 0x1000000 bs"
      by (rule cat_missing [OF inv name False room None])
    then show ?thesis using kernel_inv_scratch(1) [OF inv] scratch_pages by blast
  next
    case (Some f)
    obtain h c b where c: "cmd_cat name k = Some ((set_heap h k)\<lparr>kcon := c\<rparr>)" "con_inv c" "heap_rep h b" "live 0x1000000 b = live 0x1000000 bs"
      "keeps (live 0x1000000 bs) (kheap_of k) h" by (rule cat_found [OF inv name False room Some d [OF Some]])
    then have "scratch_kept k bs b ((set_heap h k)\<lparr>kcon := c\<rparr>)" unfolding scratch_kept_def by blast
    then show ?thesis using kernel_inv_scratch(1) [OF inv _ c(4)] scratch_pages c(1,4) by blast
  qed
qed

definition kept :: "kernel \<Rightarrow> blk list \<Rightarrow> u32 list \<Rightarrow> (kernel \<times> control) option \<Rightarrow> bool" where
  "kept k bs as r \<longleftrightarrow> (\<exists>k' b. r = Some (k', Returns) \<and> kernel_inv k' b as \<and> live 0x1000000 b = live 0x1000000 bs \<and> same_pages k k')"

lemma if_kept: "(b \<Longrightarrow> kept k bs as x) \<Longrightarrow> (\<not> b \<Longrightarrow> kept k bs as y) \<Longrightarrow> kept k bs as (if b then x else y)"
  by simp

lemma keptI:
  "\<exists>k'. s = Some k' \<and> kernel_inv k' bs as \<and> same_pages k k' \<Longrightarrow> kept k bs as (returning s)"
  by (auto simp: kept_def returning_def)

lemma talks_kept: "kernel_inv k bs as \<Longrightarrow> \<exists>k2. s = Some k2 \<and> talks k k2 \<Longrightarrow> kept k bs as (returning s)"
  using talks_inv talks_pages by (intro keptI) blast

lemma run_step:
  assumes inv: "kernel_inv k bs as" and name: "0 \<notin> set name"
    and refused: "name = [] \<or> alloc_spec 8192 0x1000000 bs = None \<or> not_loadable (files (disk (kfs k)) name)"
  shows "kept k bs as (cmd_run name k)"
proof (cases "name = []")
  case True
  then have "cmd_run name k = returning (kprint [(''Usage: run <filename>'' @ nl, [])] k)" by (simp add: cmd_run_def char_at_def returning_def)
  then show ?thesis using keptI usage_step [OF inv, of "''Usage: run <filename>'' @ nl"] by simp
next
  case False
  then obtain k1 b h c where e: "elf_load name 0 k = Some (k1, -1, 0)" "k1 = (set_heap h k)\<lparr>kcon := c\<rparr>" "kernel_inv k1 b as"
    "live 0x1000000 b = live 0x1000000 bs"
    using elf_load_refused [OF inv name, of 0] refused by blast
  let ?m = "[(''Failed to load '' @ [CHR 0x27] @ ''%s'' @ [CHR 0x27] @ nl, [KStr (Some name)])]"
  have "list_all msg_ok ?m" by (simp add: msg_ok_def)
  then obtain k2 where k2: "kprint ?m k1 = Some k2" "talks k1 k2" by (rule kprint_talks [OF kernel_invD(3) [OF e(3)]])
  have "same_pages k k2" using same_pages_trans [OF _ talks_pages [OF k2(2)]] e(2) by (simp add: same_pages_def)
  moreover have "cmd_run name k = Some (k2, Returns)" using False name e(1) k2(1) by (cases name) (simp_all add: cmd_run_def char_at_def)
  ultimately show ?thesis using talks_inv [OF k2(2) e(3)] e(4) by (auto simp: kept_def)
qed

lemma run_command_kept:
  assumes inv: "kernel_inv k bs as" and l: "0 \<notin> set l" "length l \<le> 255" and safe: "safe_line k bs l"
  shows "kept k bs as (run_command l k)"
proof -
  note D = kernel_invD [OF inv]
  have dr: "0 \<notin> set (drop n l)" for n using l(1) by (meson in_set_dropD)
  show ?thesis unfolding run_command_def
  proof (intro if_kept)
    show "kept k bs as (returning (cmd_help k))" by (rule talks_kept [OF inv help_talks [OF D(3)]])
    show "kept k bs as (Some (cmd_clear k, Returns))"
      using talks_inv [OF printing_commands(4) [OF D(3)] inv] talks_pages [OF printing_commands(4) [OF D(3)]] by (auto simp: kept_def)
    show "kept k bs as (returning (cmd_version k))" by (rule talks_kept [OF inv version_talks [OF D(3)]])
    show "kept k bs as (returning (cmd_echo (drop 5 l) k))" by (rule talks_kept [OF inv printing_commands(1) [OF D(3)]])
    show "kept k bs as (returning (cmd_meminfo k))" by (rule talks_kept [OF inv printing_commands(2) [OF D(3)]])
    show "kept k bs as (returning (cmd_ps k))" by (rule talks_kept [OF inv ps_talks [OF D(3,6)]])
    show "kept k bs as (returning (cmd_ls k))" by (rule talks_kept [OF inv printing_commands(3) [OF D(3)]])
    show "kept k bs as (returning (cmd_touch (drop 6 l) k))" if "take 6 l = cstr ''touch ''"
      using that safe by (intro keptI touch_step [OF inv dr]) (auto simp: safe_line_def)
    show "kept k bs as (returning (cmd_write (drop 6 l) k))" if "take 6 l = cstr ''write ''"
      using that safe l(2) by (intro keptI write_step [OF inv dr]) (simp_all add: safe_line_def)
    show "kept k bs as (returning (cmd_cat (drop 4 l) k))" if c: "take 4 l = cstr ''cat ''"
    proof -
      have "alloc_spec 512 0x1000000 bs \<noteq> None" "\<And>d. files (disk (kfs k)) (drop 4 l) = Some d \<Longrightarrow> length d < 512"
        using safe c unfolding safe_line_def by blast+
      then show ?thesis using cat_step [OF inv dr] unfolding kept_def returning_def by fastforce
    qed
    show "kept k bs as (returning (cmd_rm (drop 3 l) k))" by (intro keptI rm_step [OF inv dr])
    show "kept k bs as (cmd_run (drop 4 l) k)" if "take 4 l = cstr ''run ''" using that safe by (intro run_step [OF inv dr]) (simp add: safe_line_def)
    have "list_all msg_ok [(''Unknown command: %s'' @ nl, [KStr (Some l)])]" by (simp add: msg_ok_def)
    then obtain k1 where k1: "kprint [(''Unknown command: %s'' @ nl, [KStr (Some l)])] (setcolor_k 0x04 k) = Some k1" "talks k k1"
      by (rule print_step [OF setcolor_talks [OF D(3)]])
    show "kept k bs as (do { k \<leftarrow> kprint [(''Unknown command: %s'' @ nl, [KStr (Some l)])] (setcolor_k 0x04 k); Some (setcolor_k 0x07 k, Returns) })"
      using k1(1) talks_inv [OF color_step [OF k1(2)] inv] talks_pages [OF color_step [OF k1(2)]] by (auto simp: kept_def)
  qed
qed

text \<open>A whole command line: the command runs between two prints, and the line is empty afterwards.\<close>

lemma execute_eq:
  assumes sh: "sh_inv sh" "line sh \<noteq> []" and k1: "kprint [(nl, [])] k = Some k1"
  shows "shell_execute sh k = do { (k, ctl) \<leftarrow> run_command (line sh) k1;
      if ctl \<noteq> Returns then Some (sh, k, ctl)
      else do { k \<leftarrow> putchar_k 10 k; k \<leftarrow> shell_prompt k; Some (sh\<lparr>buffer_pos := 0, sh_buffer := (sh_buffer sh)[0 := 0]\<rparr>, k, Returns) } }"
proof -
  have "buffer_pos sh \<noteq> 0" using sh line_length [OF sh(1)] by auto
  moreover have "0 \<notin> set (line sh)" using sh(1) by (simp add: sh_inv_def)
  ultimately show ?thesis
    unfolding shell_execute_def Let_def using k1 buffer_line_eq [OF sh(1)] dispatch_eq by simp
qed

lemma execute_line:
  assumes sh: "sh_inv sh" "line sh \<noteq> []" and k: "con_inv (kcon k)"
  obtains k1 where "kprint [(nl, [])] k = Some k1" "talks k k1"
    "\<And>k2. run_command (line sh) k1 = Some (k2, Returns) \<Longrightarrow> con_inv (kcon k2) \<Longrightarrow>
       \<exists>sh' k3. shell_execute sh k = Some (sh', k3, Returns) \<and> sh_inv sh' \<and> line sh' = [] \<and> talks k2 k3"
    "\<And>k2 ctl. run_command (line sh) k1 = Some (k2, ctl) \<Longrightarrow> ctl \<noteq> Returns \<Longrightarrow> shell_execute sh k = Some (sh, k2, ctl)"
    "run_command (line sh) k1 = None \<Longrightarrow> shell_execute sh k = None"
proof -
  have "list_all msg_ok [(nl, [])]" by (simp add: plain_msg)
  then obtain k1 where k1: "kprint [(nl, [])] k = Some k1" "talks k k1" by (rule kprint_talks [OF k])
  have z: "length (sh_buffer sh) = 256" using sh(1) by (simp add: sh_inv_def)
  have x: "shell_execute sh k = do { (k, ctl) \<leftarrow> run_command (line sh) k1;
      if ctl \<noteq> Returns then Some (sh, k, ctl)
      else do { k \<leftarrow> putchar_k 10 k; k \<leftarrow> shell_prompt k; Some (sh\<lparr>buffer_pos := 0, sh_buffer := (sh_buffer sh)[0 := 0]\<rparr>, k, Returns) } }"
    using execute_eq [OF sh k1(1)] .
  have "\<exists>sh' k3. shell_execute sh k = Some (sh', k3, Returns) \<and> sh_inv sh' \<and> line sh' = [] \<and> talks k2 k3"
    if r: "run_command (line sh) k1 = Some (k2, Returns)" "con_inv (kcon k2)" for k2
  proof -
    obtain k3 where k3: "putchar_k 10 k2 = Some k3" "talks k2 k3" by (rule putchar_talks [OF r(2)])
    obtain k4 where k4: "shell_prompt k3 = Some k4" "talks k3 k4" by (rule prompt_talks [OF talks_con [OF k3(2)]])
    show ?thesis using x r(1) k3(1) k4(1) talks_trans [OF k3(2) k4(2)] emptied [OF z] by simp
  qed
  then show thesis using that k1 x by simp
qed

subsection \<open>Properties\<close>

fun type_chars :: "bytes \<Rightarrow> shell \<Rightarrow> kernel \<Rightarrow> (shell \<times> kernel) option" where
  "type_chars [] sh k = Some (sh, k)"
| "type_chars (c # cs) sh k = do { (sh, k, ctl) \<leftarrow> shell_process_char c sh k; type_chars cs sh k }"

text \<open>The shell edits a line the way the specification \<open>edit\<close> does: after any sequence of
  characters other than Enter the buffer holds the characters typed, less those taken back
  and those beyond 255, with its terminator in place; nothing but the console changes, and
  no store leaves the buffer.\<close>

theorem shell_edits_line:
  assumes "sh_inv sh" "con_inv (kcon k)" "0 \<notin> set cs" "10 \<notin> set cs"
  shows "\<exists>sh' k'. type_chars cs sh k = Some (sh', k') \<and> sh_inv sh' \<and> line sh' = foldl edit (line sh) cs \<and> talks k k'"
  using assms
proof (induction cs arbitrary: sh k)
  case Nil
  then show ?case using talks_refl by simp
next
  case (Cons c cs)
  have c: "c \<noteq> 0" "c \<noteq> 10" using Cons.prems(3,4) by auto
  obtain sh1 k1 where 1: "shell_process_char c sh k = Some (sh1, k1, Returns)" "sh_inv sh1" "line sh1 = edit (line sh) c" "talks k k1"
    by (rule process_char_edits [OF Cons.prems(1,2) c])
  obtain sh' k' where 2: "type_chars cs sh1 k1 = Some (sh', k')" "sh_inv sh'" "line sh' = foldl edit (line sh1) cs" "talks k1 k'"
    using Cons.IH [OF 1(2) talks_con [OF 1(4)]] Cons.prems(3,4) by auto
  then show ?case using 1 talks_trans [OF 1(4) 2(4)] by auto
qed

definition sh_empty :: shell where "sh_empty = \<lparr>sh_buffer = replicate 256 0, buffer_pos = 0\<rparr>"

lemma sh_empty_inv: "sh_inv sh_empty" "line sh_empty = []"
  by (simp_all add: sh_empty_def sh_inv_def line_def)

theorem shell_edits_line_witness:
  "\<exists>k sh' k'. con_inv (kcon k) \<and> type_chars [108, 115, 115, 8] sh_empty k = Some (sh', k') \<and> line sh' = [108, 115]"
proof -
  obtain k where k: "kernel_inv k [(1240, False), (1047312, True)] [0x100000C]" by (rule kernel_demo)
  note c = kernel_invD(3) [OF k]
  then show ?thesis using shell_edits_line [OF sh_empty_inv(1) c, of "[108, 115, 115, 8]"] by (auto simp: sh_empty_inv(2) edit_def)
qed

lemma execute_safe:
  assumes "kernel_inv k bs as" "sh_inv sh" "safe_line k bs (line sh)"
  shows "\<exists>sh' k' bs'. shell_execute sh k = Some (sh', k', Returns) \<and> sh_inv sh' \<and> line sh' = [] \<and>
    kernel_inv k' bs' as \<and> live 0x1000000 bs' = live 0x1000000 bs \<and> kvm k' = kvm k \<and> kpm k' = kpm k"
proof (cases "line sh = []")
  case True
  note c = kernel_invD(3) [OF assms(1)]
  have "list_all msg_ok [(nl, [])]" by (simp add: plain_msg)
  then obtain k1 where k1: "kprint [(nl, [])] k = Some k1" "talks k k1" by (rule kprint_talks [OF c])
  obtain k2 where k2: "shell_prompt k1 = Some k2" "talks k1 k2" by (rule prompt_talks [OF talks_con [OF k1(2)]])
  have "buffer_pos sh = 0" using True line_length [OF assms(2)] by (simp add: word_eq_unat)
  then have "shell_execute sh k = Some (sh, k2, Returns)" using k1(1) k2(1) by (simp add: shell_execute_def)
  then show ?thesis
    using assms(2) True talks_inv [OF talks_trans [OF k1(2) k2(2)] assms(1)] talks_fields [OF talks_trans [OF k1(2) k2(2)]] by blast
next
  case False
  note c = kernel_invD(3) [OF assms(1)]
  obtain k1 where k1: "talks k k1"
    "\<And>k2. run_command (line sh) k1 = Some (k2, Returns) \<Longrightarrow> con_inv (kcon k2) \<Longrightarrow>
       \<exists>sh' k3. shell_execute sh k = Some (sh', k3, Returns) \<and> sh_inv sh' \<and> line sh' = [] \<and> talks k2 k3"
    by (rule execute_line [OF assms(2) False c]) (rule that)
  have inv1: "kernel_inv k1 bs as" using talks_inv [OF k1(1) assms(1)] .
  have safe1: "safe_line k1 bs (line sh)" using assms(3) talks_fields [OF k1(1)] by (simp add: safe_line_def)
  have l: "0 \<notin> set (line sh)" "length (line sh) \<le> 255" using assms(2) line_length [OF assms(2)] by (simp_all add: sh_inv_def)
  obtain k2 b where b: "run_command (line sh) k1 = Some (k2, Returns)" "kernel_inv k2 b as" "live 0x1000000 b = live 0x1000000 bs"
    "same_pages k1 k2" using run_command_kept [OF inv1 l safe1] by (auto simp: kept_def)
  obtain sh3 k3 where e: "shell_execute sh k = Some (sh3, k3, Returns)" "sh_inv sh3" "line sh3 = []" "talks k2 k3"
    using k1(2) b(1) kernel_invD(3) [OF b(2)] by blast
  have "same_pages k k3" using talks_pages [OF k1(1)] b(4) talks_pages [OF e(4)] same_pages_trans by blast
  then show ?thesis using e b(3) talks_inv [OF e(4) b(2)] by (auto simp: same_pages_def)
qed


lemma demo_line:
  assumes "length cs < 256" "0 \<notin> set cs"
  obtains sh where "sh_inv sh" "line sh = cs"
proof
  let ?sh = "\<lparr>sh_buffer = cs @ replicate (256 - length cs) 0, buffer_pos = of_nat (length cs)\<rparr>"
  show "line ?sh = cs" using assms(1) by (simp add: line_def unat_of_nat_u32)
  then show "sh_inv ?sh" using assms by (simp add: sh_inv_def unat_of_nat_u32 nth_append)
qed




lemma say_append: "say (a @ b) c = do { c \<leftarrow> say a c; say b c }"
proof (induction a arbitrary: c)
  case (Cons m a)
  then show ?case by (cases m; cases "kprintf (fst m) (snd m) c") auto
qed simp

lemma write_line:
  assumes inv: "kernel_inv k bs as" and name: "0 \<notin> set name" "32 \<notin> set name" "length name \<le> 63"
    and body: "body \<noteq> []" "length body \<le> 512" and fl: "files (disk (kfs k)) name \<noteq> None"
    and disk: "j < unat (total_blocks (superblock (kfs k)))" "\<not> taken (disk (kfs k)) j" "free_blocks (superblock (kfs k)) \<noteq> 0"
  obtains k' where "cmd_write (name @ 32 # body) k = Some k'" "kernel_inv k' bs as"
    "files (disk (kfs k')) = (files (disk (kfs k)))(name \<mapsto> body)"
proof -
  note D = kernel_invD [OF inv]
  let ?n = "of_nat (length body) :: u32"
  have u: "unat ?n = length body" using body(2) by (simp add: unat_of_nat_u32)
  obtain f ms where f: "fs_write name body ?n (kfs k) = Some (f, 0, ms)" "fs_inv f" "files (disk f) = (files (disk (kfs k)))(name \<mapsto> body)"
  proof -
    obtain i where i: "named name (disk (kfs k)) i" using files_None_iff D(2) fl by (auto simp: fs_inv_def)
    have N: "(length body + 511) div 512 = 1" by (rule div_nat_eqI) (use body in \<open>simp_all add: Suc_le_eq\<close>)
    have fr: "(unat ?n + 511) div 512 \<le> unat (free_blocks (superblock (kfs k)))" using disk(3) unfolding u N by (simp add: Suc_le_eq unat_gt_0)
    have sz: "unat ?n \<le> length body" "unat ?n \<le> 16384" using u body(2) by simp_all
    obtain f ms where w: "fs_write name body ?n (kfs k) = Some (f, 0, ms)" "fs_inv f"
      "files (disk f) = (files (disk (kfs k)))(name \<mapsto> take (unat ?n) (concat (replicate ((unat ?n + 511) div 512)
         (padded (chunk_at body (unat ?n) ((unat ?n + 511) div 512 - 1))))))"
      by (rule fs_write_named [OF D(2) i sz disk(1,2) fr])
    from w(3) [unfolded u N] show thesis using that [OF w(1,2)] body(2) by (simp add: padded_def chunk_at_def)
  qed
  have "kernel_inv (k\<lparr>kfs := f\<rparr>) bs as" using inv f(2) by (simp add: kernel_inv_def)
  moreover from this obtain c where c: "kprint ms (k\<lparr>kfs := f\<rparr>) = Some (k\<lparr>kfs := f, kcon := c\<rparr>)" "con_inv c"
    using kprint_ok [of "k\<lparr>kfs := f\<rparr>" ms] fs_write_msgs [OF f(1)] D(3) by auto
  ultimately have "kernel_inv (k\<lparr>kfs := f, kcon := c\<rparr>) bs as" by (simp add: kernel_inv_def)
  moreover have "takeWhile (\<lambda>c. c \<noteq> 32) (name @ 32 # body) = name" using name(2) by (induction name) auto
  then have "cmd_write (name @ 32 # body) k = Some (k\<lparr>kfs := f, kcon := c\<rparr>)"
    using f(1) c(1) name(3) by (simp add: cmd_write_def Let_def)
  ultimately show thesis using that f(3) by simp
qed

lemma execute_write:
  assumes inv: "kernel_inv k bs as" and sh: "sh_inv sh" "line sh = cstr ''write '' @ name @ 32 # body"
    and name: "32 \<notin> set name" "length name \<le> 63" and body: "body \<noteq> []" and fl: "files (disk (kfs k)) name \<noteq> None"
    and disk: "j < unat (total_blocks (superblock (kfs k)))" "\<not> taken (disk (kfs k)) j" "free_blocks (superblock (kfs k)) \<noteq> 0"
  obtains sh' k1 where "shell_execute sh k = Some (sh', k1, Returns)" "line sh' = []"
    "files (disk (kfs k1)) = (files (disk (kfs k)))(name \<mapsto> body)" "kernel_inv k1 bs as"
proof -
  have ne: "line sh \<noteq> []" using sh(2) by simp
  have z: "0 \<notin> set (line sh)" "length (line sh) \<le> 255" using sh(1) line_length [OF sh(1)] by (simp_all add: sh_inv_def)
  then have nz: "0 \<notin> set name" "length body \<le> 512" using sh(2) by auto
  obtain ka where ka: "talks k ka" "\<And>k2. run_command (line sh) ka = Some (k2, Returns) \<Longrightarrow> con_inv (kcon k2) \<Longrightarrow>
       \<exists>sh' k3. shell_execute sh k = Some (sh', k3, Returns) \<and> sh_inv sh' \<and> line sh' = [] \<and> talks k2 k3"
    by (rule execute_line [OF sh(1) ne kernel_invD(3) [OF inv]]) (rule that)
  have e: "kfs ka = kfs k" using talks_fields [OF ka(1)] by simp
  obtain kb where kb: "cmd_write (name @ 32 # body) ka = Some kb" "kernel_inv kb bs as" "files (disk (kfs kb)) = (files (disk (kfs k)))(name \<mapsto> body)"
    by (rule write_line [OF talks_inv [OF ka(1) inv] nz(1) name body nz(2), unfolded e, OF fl disk])
  have "run_command (line sh) ka = returning (cmd_write (name @ 32 # body) ka)" unfolding sh(2) run_command_def by simp
  then have "run_command (line sh) ka = Some (kb, Returns)" using kb(1) by (simp add: returning_def)
  then obtain sh' k1 where k1: "shell_execute sh k = Some (sh', k1, Returns)" "line sh' = []" "talks kb k1"
    using ka(2) kernel_invD(3) [OF kb(2)] by blast
  show thesis using that [OF k1(1,2)] talks_inv [OF k1(3) kb(2)] talks_fields [OF k1(3)] kb(3) by simp
qed

lemma kprint_say: "kprint ms k = Some k' \<Longrightarrow> say ms (kcon k) = Some (kcon k')"
  by (auto simp: kprint_def bind_eq_Some_conv)

lemma execute_cat:
  assumes inv: "kernel_inv k bs as" and sh: "sh_inv sh" "line sh = cstr ''cat '' @ name" and name: "name \<noteq> []"
    and room: "alloc_spec 512 0x1000000 bs \<noteq> None" and body: "files (disk (kfs k)) name = Some body" "body \<noteq> []" "0 \<notin> set body" "length body < 512"
  obtains sh' k2 bs' c k3 where "shell_execute sh k = Some (sh', k2, Returns)" "line sh' = []" "kfs k2 = kfs k"
    "kernel_inv k2 bs' as" "live 0x1000000 bs' = live 0x1000000 bs"
    "say [(nl, []), (nl @ ''%s'' @ nl, [KStr (Some body)])] (kcon k) = Some c"
    "putchar_k 10 (k2\<lparr>kcon := c\<rparr>) = Some k3" "shell_prompt k3 = Some k2"
proof -
  have ne: "line sh \<noteq> []" using sh(2) by simp
  have nz: "0 \<notin> set name" using sh by (auto simp: sh_inv_def)
  have "list_all msg_ok [(nl, [])]" by (simp add: plain_msg)
  then obtain kc where kc: "kprint [(nl, [])] k = Some kc" "talks k kc" by (rule kprint_talks [OF kernel_invD(3) [OF inv]])
  have inv_c: "kernel_inv kc bs as" "kfs kc = kfs k" using talks_inv [OF kc(2) inv] talks_fields [OF kc(2)] by simp_all
  have fl: "files (disk (kfs kc)) name = Some body" using inv_c(2) body(1) by simp
  obtain h c b where cat: "cmd_cat name kc = Some ((set_heap h kc)\<lparr>kcon := c\<rparr>)" "say (file_text body) (kcon kc) = Some c" "con_inv c"
    "heap_rep h b" "live 0x1000000 b = live 0x1000000 bs" "keeps (live 0x1000000 bs) (kheap_of kc) h"
    by (rule cat_found [OF inv_c(1) nz name room fl body(4)])
  let ?kd = "(set_heap h kc)\<lparr>kcon := c\<rparr>"
  have tw: "takeWhile (\<lambda>c. c \<noteq> 0) body = body" using body(3) by (intro takeWhile_eq_all_conv [THEN iffD2]) auto
  have "say ([(nl, [])] @ file_text body) (kcon k) = Some c"
    unfolding say_append using cat(2) kprint_say [OF kc(1)] by (simp del: say.simps)
  then have out: "say [(nl, []), (nl @ ''%s'' @ nl, [KStr (Some body)])] (kcon k) = Some c"
    using body(2) by (simp add: file_text_def tw del: say.simps)
  have "scratch_kept kc bs b ?kd" unfolding scratch_kept_def using cat(3,4,6) by blast
  then have inv_d: "kernel_inv ?kd b as" by (rule kernel_inv_scratch(1) [OF inv_c(1) _ cat(5)])
  obtain ke where ke: "putchar_k 10 ?kd = Some ke" "talks ?kd ke" by (rule putchar_talks [OF kernel_invD(3) [OF inv_d]])
  obtain kf where kf: "shell_prompt ke = Some kf" "talks ke kf" by (rule prompt_talks [OF talks_con [OF ke(2)]])
  have df: "talks ?kd kf" using talks_trans [OF ke(2) kf(2)] .
  have "run_command (line sh) kc = returning (cmd_cat name kc)" unfolding sh(2) run_command_def by simp
  then have x: "shell_execute sh k = Some (sh\<lparr>buffer_pos := 0, sh_buffer := (sh_buffer sh)[0 := 0]\<rparr>, kf, Returns)"
    using execute_eq [OF sh(1) ne kc(1)] cat(1) ke(1) kf(1) by (simp add: returning_def)
  have restored: "kf\<lparr>kcon := c\<rparr> = ?kd" using df by (auto simp: talks_def)
  have pc: "putchar_k 10 (kf\<lparr>kcon := c\<rparr>) = Some ke" unfolding restored by (rule ke(1))
  show thesis
    by (rule that [OF x _ _ talks_inv [OF df inv_d] cat(5) out pc kf(1)])
      (use talks_fields [OF df] inv_c(2) in \<open>simp_all add: line_def\<close>)
qed

text \<open>C36. What \<open>write\<close> stores \<open>cat\<close> prints: executing the line \<open>write name text\<close> for an existing file gives
  it the text as its contents, and executing \<open>cat name\<close> then prints a line break and exactly
  the text before the next prompt; both leave the line empty, the allocated blocks as they
  were, and the invariant intact.\<close>

theorem shell_write_cat:
  assumes "kernel_inv k bs as" "sh_inv sh" "line sh = cstr ''write '' @ name @ 32 # body" "sh_inv sh2" "line sh2 = cstr ''cat '' @ name"
    and "32 \<notin> set name" "name \<noteq> []" "length name \<le> 63" "body \<noteq> []" "files (disk (kfs k)) name \<noteq> None"
    and "j < unat (total_blocks (superblock (kfs k)))" "\<not> taken (disk (kfs k)) j" "free_blocks (superblock (kfs k)) \<noteq> 0"
    and "alloc_spec 512 0x1000000 bs \<noteq> None"
  shows "\<exists>sh' k1 sh2' k2 bs' c k3. shell_execute sh k = Some (sh', k1, Returns) \<and> line sh' = [] \<and>
    files (disk (kfs k1)) = (files (disk (kfs k)))(name \<mapsto> body) \<and>
    shell_execute sh2 k1 = Some (sh2', k2, Returns) \<and> line sh2' = [] \<and> kfs k2 = kfs k1 \<and>
    kernel_inv k2 bs' as \<and> live 0x1000000 bs' = live 0x1000000 bs \<and>
    say [(nl, []), (nl @ ''%s'' @ nl, [KStr (Some body)])] (kcon k1) = Some c \<and>
    putchar_k 10 (k2\<lparr>kcon := c\<rparr>) = Some k3 \<and> shell_prompt k3 = Some k2"
proof -
  obtain sh' k1 where 1: "shell_execute sh k = Some (sh', k1, Returns)" "line sh' = []"
    "files (disk (kfs k1)) = (files (disk (kfs k)))(name \<mapsto> body)" "kernel_inv k1 bs as"
    by (rule execute_write [OF assms(1-3,6,8-13)])
  have l: "0 \<notin> set (line sh)" "length (line sh) \<le> 255" using assms(2) line_length [OF assms(2)] by (simp_all add: sh_inv_def)
  have fl: "files (disk (kfs k1)) name = Some body" "0 \<notin> set body" "length body < 512" using 1(3) l assms(3) by auto
  obtain sh2' k2 bs' c k3 where 2: "shell_execute sh2 k1 = Some (sh2', k2, Returns)" "line sh2' = []" "kfs k2 = kfs k1"
    "kernel_inv k2 bs' as" "live 0x1000000 bs' = live 0x1000000 bs"
    "say [(nl, []), (nl @ ''%s'' @ nl, [KStr (Some body)])] (kcon k1) = Some c"
    "putchar_k 10 (k2\<lparr>kcon := c\<rparr>) = Some k3" "shell_prompt k3 = Some k2"
    by (rule execute_cat [OF 1(4) assms(4,5,7,14) fl(1) assms(9) fl(2,3)])
  show ?thesis by (intro exI conjI) (rule 1 2)+
qed

theorem shell_write_cat_witness:
  "\<exists>k k1 sh sh2 sh' sh2' k2. line sh = cstr ''write '' @ hello @ [32, 104, 105] \<and> line sh2 = cstr ''cat '' @ hello \<and>
     shell_execute sh k = Some (sh', k1, Returns) \<and> files (disk (kfs k1)) hello = Some [104, 105] \<and>
     shell_execute sh2 k1 = Some (sh2', k2, Returns)"
proof -
  obtain k0 where k0: "kernel_inv k0 [(1240, False), (1047312, True)] [0x100000C]" by (rule kernel_demo)
  define k where "k = k0\<lparr>kfs := fs_hello\<rparr>"
  have k: "kernel_inv k [(1240, False), (1047312, True)] [0x100000C]" "kfs k = fs_hello"
    using k0 fs_hello_state(1) by (simp_all add: k_def kernel_inv_def)
  have "length (cstr ''write '' @ hello @ [32, 104, 105]) < 256" "0 \<notin> set (cstr ''write '' @ hello @ [32, 104, 105])" by simp_all
  then obtain sh where sh: "sh_inv sh" "line sh = cstr ''write '' @ hello @ [32, 104, 105]" by (rule demo_line)
  have "length (cstr ''cat '' @ hello) < 256" "0 \<notin> set (cstr ''cat '' @ hello)" by simp_all
  then obtain sh2 where sh2: "sh_inv sh2" "line sh2 = cstr ''cat '' @ hello" by (rule demo_line)
  have d: "files (disk (kfs k)) hello \<noteq> None" "0 < unat (total_blocks (superblock (kfs k)))" "\<not> taken (disk (kfs k)) 0"
    "free_blocks (superblock (kfs k)) \<noteq> 0"
    using fs_hello_state k(2) by (simp_all add: formatted_sb_def)
  have h: "32 \<notin> set hello" "hello \<noteq> []" "length hello \<le> 63" "[104, 105 :: u8] \<noteq> []" by simp_all
  have room: "alloc_spec 512 0x1000000 [(1240, False), (1047312, True)] \<noteq> None" by simp
  show ?thesis
    using shell_write_cat [OF k(1) sh sh2 h d room] sh(2) sh2(2) by (metis fun_upd_same)
qed

end
