(* ===== verification/Keyboard.thy ===== *)
theory Keyboard
  imports Shell
begin

text \<open>
  The keyboard driver, \<open>drivers/keyboard.c\<close>: the two tables of scan code set 1, the state of
  the shift and caps lock keys, and the handler, which reads one scan code and gives the
  character of a pressed key to the shell. The port is a function from port numbers to the
  byte read there.
\<close>

definition KEYBOARD_DATA_PORT :: u16 where [const_defs]: "KEYBOARD_DATA_PORT = 0x60"

definition scancode_table :: bytes where
  "scancode_table =
     [0, 0] @ cstr ''1234567890-='' @ [8, 9] @ cstr ''qwertyuiop[]'' @ [10, 0] @ cstr ''asdfghjkl;'' @
     [39, 96, 0, 92] @ cstr ''zxcvbnm,./'' @ [0, 42, 0, 32]"

definition scancode_table_shifted :: bytes where
  "scancode_table_shifted =
     [0, 0] @ cstr ''!@#$%^&*()_+'' @ [8, 9] @ cstr ''QWERTYUIOP{}'' @ [10, 0] @ cstr ''ASDFGHJKL:'' @
     [34, 126, 0, 124] @ cstr ''ZXCVBNM<>?'' @ [0, 42, 0, 32]"

record keyboard =
  shift_held :: u8
  caps_lock :: u8

definition SCANCODE_LSHIFT :: u8 where [const_defs]: "SCANCODE_LSHIFT = 0x2A"
definition SCANCODE_RSHIFT :: u8 where [const_defs]: "SCANCODE_RSHIFT = 0x36"
definition SCANCODE_LSHIFT_REL :: u8 where [const_defs]: "SCANCODE_LSHIFT_REL = 0xAA"
definition SCANCODE_RSHIFT_REL :: u8 where [const_defs]: "SCANCODE_RSHIFT_REL = 0xB6"
definition SCANCODE_CAPS_LOCK :: u8 where [const_defs]: "SCANCODE_CAPS_LOCK = 0x3A"

definition keyboard_handler ::
    "(u16 \<Rightarrow> u8) \<Rightarrow> keyboard \<Rightarrow> shell \<Rightarrow> kernel \<Rightarrow> (keyboard \<times> shell \<times> kernel \<times> control) option" where
  "keyboard_handler port kb sh k =
     (let scancode = port KEYBOARD_DATA_PORT
      in if scancode = SCANCODE_LSHIFT \<or> scancode = SCANCODE_RSHIFT
         then Some (kb\<lparr>shift_held := 1\<rparr>, sh, k, Returns)
         else if scancode = SCANCODE_LSHIFT_REL \<or> scancode = SCANCODE_RSHIFT_REL
         then Some (kb\<lparr>shift_held := 0\<rparr>, sh, k, Returns)
         else if scancode = SCANCODE_CAPS_LOCK
         then Some (kb\<lparr>caps_lock := (if caps_lock kb = 0 then 1 else 0)\<rparr>, sh, k, Returns)
         else if scancode AND 0x80 \<noteq> 0 then Some (kb, sh, k, Returns)
         else if scancode < 58
         then let use_shift = shift_held kb XOR caps_lock kb;
                  c = (if use_shift \<noteq> 0 then scancode_table_shifted ! unat scancode else scancode_table ! unat scancode)
              in if c \<noteq> 0
                 then do { (sh, k, ctl) \<leftarrow> shell_process_char c sh k; Some (kb, sh, k, ctl) }
                 else Some (kb, sh, k, Returns)
         else Some (kb, sh, k, Returns))"

definition keyboard_init :: "keyboard \<Rightarrow> keyboard" where "keyboard_init kb = kb"

subsection \<open>Keys\<close>

lemma table_values:
  "scancode_table =
     [0, 0, 49, 50, 51, 52, 53, 54, 55, 56, 57, 48, 45, 61, 8, 9, 113, 119, 101, 114, 116, 121, 117, 105, 111, 112, 91, 93, 10, 0,
      97, 115, 100, 102, 103, 104, 106, 107, 108, 59, 39, 96, 0, 92, 122, 120, 99, 118, 98, 110, 109, 44, 46, 47, 0, 42, 0, 32]"
  "scancode_table_shifted =
     [0, 0, 33, 64, 35, 36, 37, 94, 38, 42, 40, 41, 95, 43, 8, 9, 81, 87, 69, 82, 84, 89, 85, 73, 79, 80, 123, 125, 10, 0,
      65, 83, 68, 70, 71, 72, 74, 75, 76, 58, 34, 126, 0, 124, 90, 88, 67, 86, 66, 78, 77, 60, 62, 63, 0, 42, 0, 32]"
  by (simp_all add: scancode_table_def scancode_table_shifted_def cstr_def)

text \<open>The scan codes of a key pressed and released, and of a character: the key alone, or with the left shift key held.\<close>

definition stroke :: "u8 \<Rightarrow> u8 list" where "stroke key = [key, key OR 0x80]"

fun key_of :: "bytes \<Rightarrow> u8 \<Rightarrow> nat \<Rightarrow> nat option" where
  "key_of [] c i = None"
| "key_of (x # xs) c i = (if x = c then Some i else key_of xs c (i + 1))"

definition strokes :: "u8 \<Rightarrow> u8 list" where
  "strokes c =
     (case key_of scancode_table c 0 of
        Some i \<Rightarrow> stroke (of_nat i)
      | None \<Rightarrow> (case key_of scancode_table_shifted c 0 of
          Some i \<Rightarrow> SCANCODE_LSHIFT # stroke (of_nat i) @ [SCANCODE_LSHIFT_REL]
        | None \<Rightarrow> []))"

fun type_codes :: "u8 list \<Rightarrow> keyboard \<Rightarrow> shell \<Rightarrow> kernel \<Rightarrow> (keyboard \<times> shell \<times> kernel) option" where
  "type_codes [] kb sh k = Some (kb, sh, k)"
| "type_codes (sc # scs) kb sh k =
     do { (kb, sh, k, ctl) \<leftarrow> keyboard_handler (\<lambda>_. sc) kb sh k; type_codes scs kb sh k }"

definition printable :: "u8 \<Rightarrow> bool" where "printable c \<longleftrightarrow> 32 \<le> c \<and> c < 127"

lemma table_lengths [simp]: "length scancode_table = 58" "length scancode_table_shifted = 58"
  by (simp_all add: table_values)

lemma key_of_Some: "key_of t c i = Some j \<Longrightarrow> i \<le> j \<and> j < i + length t \<and> t ! (j - i) = c"
  by (induction t c i rule: key_of.induct) (auto simp: nth_Cons' split: if_splits)

lemma key_of_None: "key_of t c i = None \<longleftrightarrow> c \<notin> set t"
  by (induction t c i rule: key_of.induct) auto

lemma printable_key:
  assumes "printable c"
  shows "c \<in> set scancode_table \<or> c \<in> set scancode_table_shifted"
proof -
  have "unat c \<in> set [32..<127]" unfolding set_upt using assms by (simp add: printable_def word_le_nat_alt word_less_nat_alt)
  moreover have "\<forall>n \<in> set [32..<127]. of_nat n \<in> set scancode_table \<or> of_nat n \<in> set scancode_table_shifted"
    unfolding table_values by code_simp
  ultimately have "of_nat (unat c) \<in> set scancode_table \<or> of_nat (unat c) \<in> set scancode_table_shifted" by blast
  then show ?thesis by simp
qed

text \<open>The entries of the shift keys are empty, so a key that has a character is none of them.\<close>

lemma char_key:
  assumes "i < 58" "scancode_table ! i \<noteq> 0 \<or> scancode_table_shifted ! i \<noteq> 0"
  shows "i \<noteq> 42" "i \<noteq> 54"
  using assms by (auto simp: table_values)

lemma key_release:
  assumes "i < 58" "i \<noteq> 42" "i \<noteq> 54"
  shows "keyboard_handler (\<lambda>_. of_nat i OR 0x80) kb sh k = Some (kb, sh, k, Returns)"
proof -
  have "\<forall>i \<in> set [0..<58]. i = 42 \<or> i = 54 \<or>
      (let sc = of_nat i OR 0x80 :: u8 in sc \<noteq> 0x2A \<and> sc \<noteq> 0x36 \<and> sc \<noteq> 0xAA \<and> sc \<noteq> 0xB6 \<and> sc \<noteq> 0x3A \<and> sc AND 0x80 \<noteq> 0)"
    by code_simp
  then have "let sc = of_nat i OR 0x80 :: u8 in sc \<noteq> 0x2A \<and> sc \<noteq> 0x36 \<and> sc \<noteq> 0xAA \<and> sc \<noteq> 0xB6 \<and> sc \<noteq> 0x3A \<and> sc AND 0x80 \<noteq> 0"
    using assms by auto
  then show ?thesis by (simp add: keyboard_handler_def Let_def const_defs)
qed

definition table_in :: "keyboard \<Rightarrow> bytes" where
  "table_in kb = (if shift_held kb XOR caps_lock kb \<noteq> 0 then scancode_table_shifted else scancode_table)"

lemma key_press:
  assumes "i < 58" "i \<noteq> 42" "i \<noteq> 54"
  shows "keyboard_handler (\<lambda>_. of_nat i) kb sh k =
    (if table_in kb ! i = 0 then Some (kb, sh, k, Returns)
     else do { (sh, k, ctl) \<leftarrow> shell_process_char (table_in kb ! i) sh k; Some (kb, sh, k, ctl) })"
proof -
  have u: "unat (of_nat i :: u8) = i" using assms(1) by (simp add: unat_of_nat)
  have "\<forall>i \<in> set [0..<58]. (of_nat i :: u8) AND 0x80 = 0" by code_simp
  then have a: "(of_nat i :: u8) AND 0x80 = 0" using assms(1) by auto
  have "(of_nat i :: u8) < 58" using u assms(1) by (simp add: word_less_nat_alt)
  moreover have "of_nat i \<noteq> (n :: u8)" if "unat n \<noteq> i" for n using that u by auto
  ultimately show ?thesis
    using a u assms by (simp add: keyboard_handler_def Let_def const_defs table_in_def)
qed

lemma key_stroke:
  assumes "i < 58" "table_in kb ! i \<noteq> 0"
  shows "type_codes (stroke (of_nat i) @ scs) kb sh k =
    do { (sh, k, ctl) \<leftarrow> shell_process_char (table_in kb ! i) sh k; type_codes scs kb sh k }"
proof -
  have "scancode_table ! i \<noteq> 0 \<or> scancode_table_shifted ! i \<noteq> 0" using assms(2) unfolding table_in_def by metis
  note i = char_key [OF assms(1) this]
  show ?thesis using assms(2) key_press [OF assms(1) i] key_release [OF assms(1) i]
    by (cases "shell_process_char (table_in kb ! i) sh k") (auto simp: stroke_def)
qed

lemma strokes_type:
  assumes "printable c" "shift_held kb = 0" "caps_lock kb = 0"
  shows "type_codes (strokes c @ scs) kb sh k = do { (sh, k, ctl) \<leftarrow> shell_process_char c sh k; type_codes scs kb sh k }"
proof (cases "key_of scancode_table c 0")
  case (Some i)
  have i: "i < 58" "scancode_table ! i = c" using key_of_Some [OF Some] by simp_all
  have "c \<noteq> 0" using assms(1) by (auto simp: printable_def)
  then show ?thesis using key_stroke [OF i(1), of kb] i(2) assms(2,3) Some by (simp add: strokes_def table_in_def)
next
  case None
  then have "c \<in> set scancode_table_shifted" using printable_key [OF assms(1)] by (simp add: key_of_None)
  then obtain i where j: "key_of scancode_table_shifted c 0 = Some i" by (cases "key_of scancode_table_shifted c 0") (auto simp: key_of_None)
  have i: "i < 58" "scancode_table_shifted ! i = c" using key_of_Some [OF j] by simp_all
  have c: "c \<noteq> 0" using assms(1) by (auto simp: printable_def)
  let ?kb = "kb\<lparr>shift_held := 1\<rparr>"
  have t: "table_in ?kb = scancode_table_shifted" using assms(3) by (simp add: table_in_def)
  have kb: "?kb\<lparr>shift_held := 0\<rparr> = kb" using assms(2) by simp
  have press: "keyboard_handler (\<lambda>_. SCANCODE_LSHIFT) kb sh k = Some (?kb, sh, k, Returns)"
    by (simp add: keyboard_handler_def Let_def)
  have rel: "keyboard_handler (\<lambda>_. SCANCODE_LSHIFT_REL) ?kb sh' k' = Some (kb, sh', k', Returns)" for sh' k'
    using kb by (simp add: keyboard_handler_def Let_def const_defs)
  have "strokes c @ scs = SCANCODE_LSHIFT # stroke (of_nat i) @ SCANCODE_LSHIFT_REL # scs" using None j by (simp add: strokes_def)
  then show ?thesis using press rel key_stroke [OF i(1), of ?kb] c t i(2)
    by (cases "shell_process_char c sh k") (auto simp: i(2))
qed

lemma foldl_edit: "length l \<le> 255 \<Longrightarrow> 8 \<notin> set cs \<Longrightarrow> foldl edit l cs = take 255 (l @ cs)"
proof (induction cs arbitrary: l)
  case (Cons c cs)
  show ?case
  proof (cases "length l < 255")
    case True
    then show ?thesis using Cons.IH [of "l @ [c]"] Cons.prems by (simp add: edit_def)
  next
    case False
    then show ?thesis using Cons.IH [of l] Cons.prems by (simp add: edit_def)
  qed
qed simp

lemma type_text:
  assumes "sh_inv sh" "con_inv (kcon k)" "shift_held kb = 0" "caps_lock kb = 0" "\<forall>c \<in> set cs. printable c"
  shows "\<exists>sh' k'. type_codes (concat (map strokes cs)) kb sh k = Some (kb, sh', k') \<and> sh_inv sh' \<and>
    line sh' = foldl edit (line sh) cs \<and> talks k k'"
  using assms
proof (induction cs arbitrary: sh k)
  case Nil
  then show ?case using talks_refl by simp
next
  case (Cons c cs)
  have p: "printable c" "\<forall>c \<in> set cs. printable c" using Cons.prems(5) by simp_all
  then have c: "c \<noteq> 0" "c \<noteq> 10" by (auto simp: printable_def)
  obtain sh1 k1 where 1: "shell_process_char c sh k = Some (sh1, k1, Returns)" "sh_inv sh1" "line sh1 = edit (line sh) c" "talks k k1"
    by (rule process_char_edits [OF Cons.prems(1,2) c])
  obtain sh2 k2 where 2: "type_codes (concat (map strokes cs)) kb sh1 k1 = Some (kb, sh2, k2)" "sh_inv sh2"
    "line sh2 = foldl edit (line sh1) cs" "talks k1 k2"
    using Cons.IH [OF 1(2) talks_con [OF 1(4)] Cons.prems(3,4) p(2)] by blast
  show ?case using strokes_type [OF p(1) Cons.prems(3,4)] 1 2 talks_trans [OF 1(4) 2(4)] by simp
qed

text \<open>One interrupt of the keyboard, for any scan code.\<close>

lemma table_in_cases: "table_in kb = scancode_table \<or> table_in kb = scancode_table_shifted"
  by (auto simp: table_in_def)

lemma enter_key: "i < 58 \<Longrightarrow> table_in kb ! i = 10 \<Longrightarrow> i = 28"
proof -
  assume i: "i < 58" "table_in kb ! i = 10"
  have "\<forall>i \<in> set [0..<58]. i = 28 \<or> scancode_table ! i \<noteq> 10 \<and> scancode_table_shifted ! i \<noteq> 10"
    unfolding table_values by code_simp
  then show "i = 28" using i table_in_cases [of kb] by fastforce
qed

lemma keyboard_step:
  assumes inv: "kernel_inv k bs as" "sh_inv sh" and enter: "port KEYBOARD_DATA_PORT = 28 \<Longrightarrow> safe_line k bs (line sh)"
  obtains kb' sh' k' bs' where "keyboard_handler port kb sh k = Some (kb', sh', k', Returns)" "sh_inv sh'"
    "kernel_inv k' bs' as" "live 0x1000000 bs' = live 0x1000000 bs" "same_pages k k'"
proof -
  define sc where "sc = port KEYBOARD_DATA_PORT"
  have h: "keyboard_handler port kb sh k = keyboard_handler (\<lambda>_. sc) kb sh k" by (simp add: keyboard_handler_def sc_def)
  show thesis
  proof (cases "sc < 58 \<and> sc \<noteq> 42 \<and> sc \<noteq> 54")
    case False
    then have "\<exists>kb'. keyboard_handler (\<lambda>_. sc) kb sh k = Some (kb', sh, k, Returns)"
      by (auto simp: keyboard_handler_def Let_def const_defs)
    then show ?thesis using that inv h by (auto simp: same_pages_def)
  next
    case True
    let ?i = "unat sc" and ?c = "table_in kb ! unat sc"
    have i: "?i < 58" "?i \<noteq> 42" "?i \<noteq> 54" using True by (auto simp: word_less_nat_alt word_unat_eq_iff)
    have e: "of_nat ?i = sc" by simp
    note press = key_press [OF i, of kb sh k, unfolded e]
    consider "?c = 0" | "?c = 10" | "?c \<noteq> 0" "?c \<noteq> 10" by blast
    then show ?thesis
    proof cases
      case 1
      then show ?thesis using that press inv h by (auto simp: same_pages_def)
    next
      case 2
      then have "unat sc = 28" using enter_key i(1) by blast
      then have "sc = 28" by (simp add: word_unat_eq_iff)
      then obtain sh' k' bs' where e: "shell_execute sh k = Some (sh', k', Returns)" "sh_inv sh'" "kernel_inv k' bs' as"
        "live 0x1000000 bs' = live 0x1000000 bs" "same_pages k k'"
        using execute_safe [OF inv enter] sc_def by (auto simp: same_pages_def)
      have "keyboard_handler port kb sh k = Some (kb, sh', k', Returns)" using h press 2 e(1) by (simp add: shell_process_char_def)
      then show ?thesis using that e by blast
    next
      case 3
      obtain sh' k' where p: "shell_process_char ?c sh k = Some (sh', k', Returns)" "sh_inv sh'" "talks k k'"
        by (rule process_char_edits [OF inv(2) kernel_invD(3) [OF inv(1)] 3])
      have "keyboard_handler port kb sh k = Some (kb, sh', k', Returns)" using h press 3 p(1) by simp
      then show ?thesis using that p talks_inv [OF p(3) inv(1)] talks_pages [OF p(3)] by blast
    qed
  qed
qed

subsection \<open>Properties\<close>



end
