(* ===== verification/Ata.thy ===== *)
theory Ata
  imports Diskfmt
begin

text \<open>
  The ATA driver, \<open>drivers/ata.c\<close>. The drive itself is not part of the sources: the four port
  instructions are arguments of the driver (\<open>io\<close>), acting on a drive state of any type. What
  the driver relies on is the predicate \<open>ata_drive\<close>: the documented PIO protocol for the
  master drive with 28-bit addresses, stated over a view of the drive (its task file
  registers, its transfer phase and its sectors). The theorems show that on every such drive
  the polling loops end and the two transfers are the sector reads and writes of the file
  system's disk.
\<close>

definition ATA_DATA :: u16 where [const_defs]: "ATA_DATA = 0x1F0"
definition ATA_SECTOR_CNT :: u16 where [const_defs]: "ATA_SECTOR_CNT = 0x1F2"
definition ATA_LBA_LOW :: u16 where [const_defs]: "ATA_LBA_LOW = 0x1F3"
definition ATA_LBA_MID :: u16 where [const_defs]: "ATA_LBA_MID = 0x1F4"
definition ATA_LBA_HIGH :: u16 where [const_defs]: "ATA_LBA_HIGH = 0x1F5"
definition ATA_DRIVE_HEAD :: u16 where [const_defs]: "ATA_DRIVE_HEAD = 0x1F6"
definition ATA_STATUS :: u16 where [const_defs]: "ATA_STATUS = 0x1F7"
definition ATA_COMMAND :: u16 where [const_defs]: "ATA_COMMAND = 0x1F7"
definition ATA_SR_BSY :: u8 where [const_defs]: "ATA_SR_BSY = 0x80"
definition ATA_SR_DRQ :: u8 where [const_defs]: "ATA_SR_DRQ = 0x08"
definition ATA_CMD_READ :: u8 where [const_defs]: "ATA_CMD_READ = 0x20"
definition ATA_CMD_WRITE :: u8 where [const_defs]: "ATA_CMD_WRITE = 0x30"

text \<open>The port instructions on a drive of state \<open>'d\<close>.\<close>

record 'd ports =
  inb :: "u16 \<Rightarrow> 'd \<Rightarrow> u8 \<times> 'd"
  outb :: "u16 \<Rightarrow> u8 \<Rightarrow> 'd \<Rightarrow> 'd"
  inw :: "u16 \<Rightarrow> 'd \<Rightarrow> u16 \<times> 'd"
  outw :: "u16 \<Rightarrow> u16 \<Rightarrow> 'd \<Rightarrow> 'd"

partial_function (option) ata_wait :: "'d ports \<Rightarrow> 'd \<Rightarrow> 'd option" where
  "ata_wait io d =
     (let (st, d) = inb io ATA_STATUS d
      in if st AND ATA_SR_BSY \<noteq> 0 then ata_wait io d else Some d)"

partial_function (option) ata_wait_drq :: "'d ports \<Rightarrow> 'd \<Rightarrow> 'd option" where
  "ata_wait_drq io d =
     (let (st, d) = inb io ATA_STATUS d
      in if st AND ATA_SR_DRQ = 0 then ata_wait_drq io d else Some d)"

definition ata_init :: "'d ports \<Rightarrow> 'd \<Rightarrow> ('d \<times> msg list) option" where
  "ata_init io d =
     do { d \<leftarrow> ata_wait io (outb io ATA_DRIVE_HEAD 0xA0 d);
          Some (d, [(''ATA: initialised primary bus'' @ nl, [])]) }"

definition ata_reset :: "'d ports \<Rightarrow> 'd \<Rightarrow> 'd option" where
  "ata_reset io d = ata_wait io (outb io ATA_DRIVE_HEAD 0xA0 d)"

text \<open>The five register writes and the command that start a transfer.\<close>

definition ata_setup :: "'d ports \<Rightarrow> u32 \<Rightarrow> u8 \<Rightarrow> 'd \<Rightarrow> 'd" where
  "ata_setup io lba cmd d =
     (let d = outb io ATA_DRIVE_HEAD (ucast (0xE0 OR (drop_bit 24 lba AND 0x0F))) d;
          d = outb io ATA_SECTOR_CNT 1 d;
          d = outb io ATA_LBA_LOW (ucast (lba AND 0xFF)) d;
          d = outb io ATA_LBA_MID (ucast (drop_bit 8 lba AND 0xFF)) d;
          d = outb io ATA_LBA_HIGH (ucast (drop_bit 16 lba AND 0xFF)) d
      in outb io ATA_COMMAND cmd d)"

text \<open>\<open>buf16[i]\<close> is the two bytes at \<open>2 * i\<close>, the low one first.\<close>

fun read_words :: "'d ports \<Rightarrow> nat \<Rightarrow> 'd \<Rightarrow> bytes \<times> 'd" where
  "read_words io 0 d = ([], d)"
| "read_words io (Suc n) d =
     (let (w, d) = inw io ATA_DATA d; (bs, d) = read_words io n d
      in (ucast w # ucast (drop_bit 8 w) # bs, d))"

definition word_at :: "bytes \<Rightarrow> nat \<Rightarrow> u16" where
  "word_at buf i = ucast (buf ! (2 * i)) OR push_bit 8 (ucast (buf ! (2 * i + 1)))"

definition write_words :: "'d ports \<Rightarrow> bytes \<Rightarrow> 'd \<Rightarrow> 'd" where
  "write_words io buf d = foldl (\<lambda>d i. outw io ATA_DATA (word_at buf i) d) d [0..<256]"

definition ata_read_sector :: "'d ports \<Rightarrow> u32 \<Rightarrow> 'd \<Rightarrow> (bytes \<times> 'd) option" where
  "ata_read_sector io lba d =
     do { d \<leftarrow> ata_reset io d;
          d \<leftarrow> ata_wait io d;
          d \<leftarrow> ata_wait_drq io (ata_setup io lba ATA_CMD_READ d);
          Some (read_words io 256 d) }"

definition ata_write_sector :: "'d ports \<Rightarrow> u32 \<Rightarrow> bytes \<Rightarrow> 'd \<Rightarrow> 'd option" where
  "ata_write_sector io lba buf d =
     do { d \<leftarrow> ata_wait io d;
          d \<leftarrow> ata_wait_drq io (ata_setup io lba ATA_CMD_WRITE d);
          ata_wait io (outb io ATA_COMMAND 0xE7 (write_words io buf d)) }"

subsection \<open>The documented behaviour of a drive\<close>

text \<open>
  The view of a drive: the task file registers as last written, the phase of the current
  transfer with the words still to be read or already received, and the sectors.
\<close>

datatype phase = Idle | Data_In "u16 list" | Data_Out "u16 list"

record drive_view =
  r_count :: u8
  r_low :: u8
  r_mid :: u8
  r_high :: u8
  r_head :: u8
  phase :: phase
  sectors :: disk

definition lba28 :: "drive_view \<Rightarrow> u32" where
  "lba28 v = ucast (r_low v) OR push_bit 8 (ucast (r_mid v)) OR push_bit 16 (ucast (r_high v)) OR
     push_bit 24 (ucast (r_head v AND 0x0F))"

fun words_of :: "bytes \<Rightarrow> u16 list" where
  "words_of (a # b # bs) = (ucast a OR push_bit 8 (ucast b)) # words_of bs"
| "words_of _ = []"

fun bytes_of :: "u16 list \<Rightarrow> bytes" where
  "bytes_of [] = []"
| "bytes_of (w # ws) = ucast w # ucast (drop_bit 8 w) # bytes_of ws"

fun status_polls :: "'d ports \<Rightarrow> nat \<Rightarrow> 'd \<Rightarrow> 'd" where
  "status_polls io 0 d = d"
| "status_polls io (Suc n) d = status_polls io n (snd (inb io ATA_STATUS d))"

definition status_at :: "'d ports \<Rightarrow> nat \<Rightarrow> 'd \<Rightarrow> u8" where
  "status_at io n d = fst (inb io ATA_STATUS (status_polls io n d))"

text \<open>One transfer is set up: the master drive in LBA mode, one sector.\<close>

definition one_sector :: "drive_view \<Rightarrow> bool" where
  "one_sector v \<longleftrightarrow> r_head v AND 0xF0 = 0xE0 \<and> r_count v = 1"

definition after_in :: "u16 list \<Rightarrow> phase" where
  "after_in ws = (if ws = [] then Idle else Data_In ws)"

definition receive :: "u16 \<Rightarrow> drive_view \<Rightarrow> u16 list \<Rightarrow> drive_view" where
  "receive w v ws =
     (if length ws < 255 then v\<lparr>phase := Data_Out (ws @ [w])\<rparr>
      else v\<lparr>phase := Idle, sectors := (sectors v)(lba28 v := bytes_of (ws @ [w]))\<rparr>)"

definition ata_drive :: "'d ports \<Rightarrow> ('d \<Rightarrow> drive_view) \<Rightarrow> bool" where
  "ata_drive io view \<longleftrightarrow>
     (\<forall>d. view (snd (inb io ATA_STATUS d)) = view d) \<and>
     (\<forall>d. phase (view d) = Idle \<longrightarrow> (\<exists>n. status_at io n d AND ATA_SR_BSY = 0)) \<and>
     (\<forall>d. phase (view d) \<noteq> Idle \<longrightarrow> (\<exists>n. status_at io n d AND ATA_SR_DRQ \<noteq> 0)) \<and>
     (\<forall>d v. phase (view d) = Idle \<longrightarrow>
        view (outb io ATA_SECTOR_CNT v d) = (view d)\<lparr>r_count := v\<rparr> \<and>
        view (outb io ATA_LBA_LOW v d) = (view d)\<lparr>r_low := v\<rparr> \<and>
        view (outb io ATA_LBA_MID v d) = (view d)\<lparr>r_mid := v\<rparr> \<and>
        view (outb io ATA_LBA_HIGH v d) = (view d)\<lparr>r_high := v\<rparr> \<and>
        view (outb io ATA_DRIVE_HEAD v d) = (view d)\<lparr>r_head := v\<rparr>) \<and>
     (\<forall>d. phase (view d) = Idle \<and> one_sector (view d) \<longrightarrow>
        view (outb io ATA_COMMAND 0x20 d) = (view d)\<lparr>phase := after_in (words_of (sectors (view d) (lba28 (view d))))\<rparr> \<and>
        view (outb io ATA_COMMAND 0x30 d) = (view d)\<lparr>phase := Data_Out []\<rparr>) \<and>
     (\<forall>d. phase (view d) = Idle \<longrightarrow> view (outb io ATA_COMMAND 0xE7 d) = view d) \<and>
     (\<forall>d w ws. phase (view d) = Data_In (w # ws) \<longrightarrow>
        fst (inw io ATA_DATA d) = w \<and> view (snd (inw io ATA_DATA d)) = (view d)\<lparr>phase := after_in ws\<rparr>) \<and>
     (\<forall>d w ws. phase (view d) = Data_Out ws \<longrightarrow> view (outw io ATA_DATA w d) = receive w (view d) ws)"

lemma ata_driveD:
  assumes "ata_drive io view"
  shows "view (snd (inb io ATA_STATUS d)) = view d"
    "phase (view d) = Idle \<Longrightarrow> \<exists>n. status_at io n d AND ATA_SR_BSY = 0"
    "phase (view d) \<noteq> Idle \<Longrightarrow> \<exists>n. status_at io n d AND ATA_SR_DRQ \<noteq> 0"
    "phase (view d) = Idle \<Longrightarrow> view (outb io ATA_SECTOR_CNT v d) = (view d)\<lparr>r_count := v\<rparr>"
    "phase (view d) = Idle \<Longrightarrow> view (outb io ATA_LBA_LOW v d) = (view d)\<lparr>r_low := v\<rparr>"
    "phase (view d) = Idle \<Longrightarrow> view (outb io ATA_LBA_MID v d) = (view d)\<lparr>r_mid := v\<rparr>"
    "phase (view d) = Idle \<Longrightarrow> view (outb io ATA_LBA_HIGH v d) = (view d)\<lparr>r_high := v\<rparr>"
    "phase (view d) = Idle \<Longrightarrow> view (outb io ATA_DRIVE_HEAD v d) = (view d)\<lparr>r_head := v\<rparr>"
    "phase (view d) = Idle \<Longrightarrow> one_sector (view d) \<Longrightarrow>
       view (outb io ATA_COMMAND ATA_CMD_READ d) = (view d)\<lparr>phase := after_in (words_of (sectors (view d) (lba28 (view d))))\<rparr>"
    "phase (view d) = Idle \<Longrightarrow> one_sector (view d) \<Longrightarrow>
       view (outb io ATA_COMMAND ATA_CMD_WRITE d) = (view d)\<lparr>phase := Data_Out []\<rparr>"
    "phase (view d) = Idle \<Longrightarrow> view (outb io ATA_COMMAND 0xE7 d) = view d"
    "phase (view d) = Data_In (w # ws) \<Longrightarrow> fst (inw io ATA_DATA d) = w"
    "phase (view d) = Data_In (w # ws) \<Longrightarrow> view (snd (inw io ATA_DATA d)) = (view d)\<lparr>phase := after_in ws\<rparr>"
    "phase (view d) = Data_Out ws \<Longrightarrow> view (outw io ATA_DATA w d) = receive w (view d) ws"
  using assms unfolding ata_drive_def ATA_CMD_READ_def ATA_CMD_WRITE_def by metis+

subsection \<open>The polling loops\<close>

lemma ata_wait_idle:
  assumes "ata_drive io view" "phase (view d) = Idle"
  obtains d' where "ata_wait io d = Some d'" "view d' = view d"
proof -
  obtain n where "status_at io n d AND ATA_SR_BSY = 0" using ata_driveD(2) [OF assms] by blast
  then have "\<exists>d'. ata_wait io d = Some d' \<and> view d' = view d"
  proof (induction n arbitrary: d)
    case 0
    then show ?case using ata_driveD(1) [OF assms(1), of d] by (subst ata_wait.simps) (simp add: status_at_def split_beta)
  next
    case (Suc n)
    have "\<exists>d'. ata_wait io (snd (inb io ATA_STATUS d)) = Some d' \<and> view d' = view (snd (inb io ATA_STATUS d))"
      using Suc.prems by (intro Suc.IH) (simp add: status_at_def)
    then show ?case using ata_driveD(1) [OF assms(1), of d] by (subst ata_wait.simps) (simp add: split_beta)
  qed
  then show thesis using that by blast
qed

lemma ata_wait_drq_data:
  assumes "ata_drive io view" "phase (view d) \<noteq> Idle"
  obtains d' where "ata_wait_drq io d = Some d'" "view d' = view d"
proof -
  obtain n where "status_at io n d AND ATA_SR_DRQ \<noteq> 0" using ata_driveD(3) [OF assms] by blast
  then have "\<exists>d'. ata_wait_drq io d = Some d' \<and> view d' = view d"
  proof (induction n arbitrary: d)
    case 0
    then show ?case using ata_driveD(1) [OF assms(1), of d] by (subst ata_wait_drq.simps) (simp add: status_at_def split_beta)
  next
    case (Suc n)
    have "\<exists>d'. ata_wait_drq io (snd (inb io ATA_STATUS d)) = Some d' \<and> view d' = view (snd (inb io ATA_STATUS d))"
      using Suc.prems by (intro Suc.IH) (simp add: status_at_def)
    then show ?case using ata_driveD(1) [OF assms(1), of d] by (subst ata_wait_drq.simps) (simp add: split_beta)
  qed
  then show thesis using that by blast
qed

lemma ata_wait_drq_returns: "ata_wait_drq io d = Some d' \<Longrightarrow> \<exists>n. status_at io n d AND ATA_SR_DRQ \<noteq> 0"
proof (rule ata_wait_drq.raw_induct [where P = "\<lambda>io d d'. \<exists>n. status_at io n d AND ATA_SR_DRQ \<noteq> 0"], goal_cases)
  case (1 f io d d')
  show ?case
  proof (cases "fst (inb io ATA_STATUS d) AND ATA_SR_DRQ = 0")
    case True
    then have "f io (snd (inb io ATA_STATUS d)) = Some d'" using 1(3) by (simp add: split_beta)
    from 1(2) [OF this] obtain n where "status_at io n (snd (inb io ATA_STATUS d)) AND ATA_SR_DRQ \<noteq> 0" ..
    then have "status_at io (Suc n) d AND ATA_SR_DRQ \<noteq> 0" by (simp add: status_at_def)
    then show ?thesis ..
  next
    case False
    then have "status_at io 0 d AND ATA_SR_DRQ \<noteq> 0" by (simp add: status_at_def)
    then show ?thesis ..
  qed
qed assumption

subsection \<open>Addressing\<close>

lemma masks:
  "(0x0F :: 'a::len word) = mask 4" "(0xFF :: 'a word) = mask 8" "(0xE0 :: 'a word) = push_bit 5 (mask 3)"
  "(0xF0 :: 'a word) = push_bit 4 (mask 4)" "(0x0FFFFFFF :: 'a word) = mask 28"
  by (simp_all add: mask_eq_exp_minus_1 push_bit_eq_mult)

lemma head_mode: "(ucast (0xE0 OR (drop_bit 24 (lba :: u32) AND 0x0F)) :: u8) AND 0xF0 = 0xE0"
  unfolding masks by (rule bit_word_eqI) (auto simp: bit_simps)

lemma head_nibble: "(ucast (0xE0 OR (drop_bit 24 (lba :: u32) AND 0x0F)) :: u8) AND 0x0F = ucast (drop_bit 24 lba AND 0x0F)"
  unfolding masks by (rule bit_word_eqI) (auto simp: bit_simps)

lemma lba_bytes:
  "(ucast (ucast (lba AND 0xFF) :: u8) :: u32) OR push_bit 8 (ucast (ucast (drop_bit 8 lba AND 0xFF) :: u8)) OR
     push_bit 16 (ucast (ucast (drop_bit 16 lba AND 0xFF) :: u8)) OR
     push_bit 24 (ucast (ucast (drop_bit 24 lba AND 0x0F) :: u8)) = lba AND 0x0FFFFFFF"
proof (rule bit_word_eqI)
  fix n assume "n < LENGTH(32)"
  consider "n < 8" | "8 \<le> n" "n < 16" | "16 \<le> n" "n < 24" | "24 \<le> n" by linarith
  then show "bit ((ucast (ucast (lba AND 0xFF) :: u8) :: u32) OR push_bit 8 (ucast (ucast (drop_bit 8 lba AND 0xFF) :: u8)) OR
     push_bit 16 (ucast (ucast (drop_bit 16 lba AND 0xFF) :: u8)) OR
     push_bit 24 (ucast (ucast (drop_bit 24 lba AND 0x0F) :: u8))) n = bit (lba AND 0x0FFFFFFF) n"
    unfolding masks by cases (auto simp: bit_simps)
qed

lemma ata_setup_view:
  assumes "ata_drive io view" "phase (view d) = Idle"
  obtains v where "phase v = Idle" "one_sector v" "lba28 v = lba AND 0x0FFFFFFF" "sectors v = sectors (view d)"
    "view (ata_setup io lba ATA_CMD_READ d) = v\<lparr>phase := after_in (words_of (sectors v (lba28 v)))\<rparr>"
    "view (ata_setup io lba ATA_CMD_WRITE d) = v\<lparr>phase := Data_Out []\<rparr>"
proof -
  note D = ata_driveD [OF assms(1)]
  let ?v = "(view d)\<lparr>r_head := ucast (0xE0 OR (drop_bit 24 lba AND 0x0F)), r_count := 1, r_low := ucast (lba AND 0xFF),
    r_mid := ucast (drop_bit 8 lba AND 0xFF), r_high := ucast (drop_bit 16 lba AND 0xFF)\<rparr>"
  have v: "phase ?v = Idle" "one_sector ?v" "lba28 ?v = lba AND 0x0FFFFFFF" "sectors ?v = sectors (view d)"
    using assms(2) head_mode lba_bytes [of lba] by (simp_all add: one_sector_def lba28_def head_nibble)
  let ?d = "outb io ATA_LBA_HIGH (ucast (drop_bit 16 lba AND 0xFF)) (outb io ATA_LBA_MID (ucast (drop_bit 8 lba AND 0xFF))
    (outb io ATA_LBA_LOW (ucast (lba AND 0xFF)) (outb io ATA_SECTOR_CNT 1
      (outb io ATA_DRIVE_HEAD (ucast (0xE0 OR (drop_bit 24 lba AND 0x0F))) d))))"
  have d: "view ?d = ?v" using D(4-8) assms(2) by simp
  have "ata_setup io lba cmd d = outb io ATA_COMMAND cmd ?d" for cmd by (simp only: ata_setup_def Let_def)
  then show thesis using that [OF v] D(9,10) [of ?d] v(1,2) unfolding d by simp
qed

subsection \<open>The data transfers\<close>

lemma bytes_of_words: "even (length bs) \<Longrightarrow> bytes_of (words_of bs) = bs"
proof (induction bs rule: words_of.induct)
  case (1 a b bs)
  have "ucast ((ucast a :: u16) OR push_bit 8 (ucast b)) = a"
    by (rule bit_word_eqI) (auto simp: bit_simps)
  moreover have "ucast (drop_bit 8 ((ucast a :: u16) OR push_bit 8 (ucast b))) = b"
    by (rule bit_word_eqI) (auto simp: bit_simps dest: bit_imp_le_length)
  ultimately show ?case using 1 by simp
qed auto

lemma length_words_of: "length (words_of bs) = length bs div 2"
  by (induction bs rule: words_of.induct) auto

lemma read_words_spec:
  assumes "ata_drive io view"
  shows "phase (view d) = after_in ws \<Longrightarrow> n = length ws \<Longrightarrow>
    \<exists>d'. read_words io n d = (bytes_of ws, d') \<and> view d' = (view d)\<lparr>phase := Idle\<rparr>"
proof (induction ws arbitrary: n d)
  case Nil
  then show ?case by (auto simp: after_in_def intro!: exI [of _ d])
next
  case (Cons w ws)
  let ?d = "snd (inw io ATA_DATA d)"
  have p: "phase (view d) = Data_In (w # ws)" using Cons.prems by (simp add: after_in_def)
  have v: "fst (inw io ATA_DATA d) = w" "view ?d = (view d)\<lparr>phase := after_in ws\<rparr>"
    using ata_driveD(12,13) [OF assms p] by simp_all
  obtain d' where "read_words io (length ws) ?d = (bytes_of ws, d')" "view d' = (view ?d)\<lparr>phase := Idle\<rparr>"
    using Cons.IH [of ?d "length ws"] v(2) by auto
  then show ?case using Cons.prems v by (simp add: split_beta)
qed

lemma words_of_nth:
  "words_of buf = map (word_at buf) [0..<length buf div 2]"
proof (induction buf rule: words_of.induct)
  case (1 a b bs)
  have "map (word_at (a # b # bs)) [Suc 0..<Suc (length bs div 2)] = map (word_at bs) [0..<length bs div 2]"
    by (rule nth_equalityI) (simp_all add: word_at_def del: upt_Suc)
  moreover have "[0..<length (a # b # bs) div 2] = 0 # [Suc 0..<Suc (length bs div 2)]"
    by (simp add: upt_conv_Cons del: upt_Suc)
  moreover have "word_at (a # b # bs) 0 = ucast a OR push_bit 8 (ucast b)" by (simp add: word_at_def)
  ultimately show ?case using 1 by (simp del: upt_Suc)
qed auto

lemma outw_words:
  assumes "ata_drive io view"
  shows "phase (view d) = Data_Out us \<Longrightarrow> ws \<noteq> [] \<Longrightarrow> length us + length ws = 256 \<Longrightarrow>
    view (foldl (\<lambda>d w. outw io ATA_DATA w d) d ws) =
      (view d)\<lparr>phase := Idle, sectors := (sectors (view d))(lba28 (view d) := bytes_of (us @ ws))\<rparr>"
proof (induction ws arbitrary: us d)
  case (Cons w ws)
  let ?d = "outw io ATA_DATA w d"
  have v: "view ?d = receive w (view d) us" using ata_driveD(14) [OF assms Cons.prems(1)] .
  show ?case
  proof (cases "ws = []")
    case True
    then show ?thesis using v Cons.prems(3) by (simp add: receive_def fun_upd_def)
  next
    case False
    then have "view ?d = (view d)\<lparr>phase := Data_Out (us @ [w])\<rparr>" using v Cons.prems(3)
      by (cases ws) (simp_all add: receive_def)
    then show ?thesis using Cons.IH [of ?d "us @ [w]"] False Cons.prems(3) by (simp add: lba28_def)
  qed
qed simp

lemma write_words_spec:
  assumes "ata_drive io view" "phase (view d) = Data_Out []" "length buf = 512"
  shows "view (write_words io buf d) =
    (view d)\<lparr>phase := Idle, sectors := (sectors (view d))(lba28 (view d) := buf)\<rparr>"
proof -
  have w: "words_of buf = map (word_at buf) [0..<256]" using words_of_nth [of buf] assms(3) by simp
  have "write_words io buf d = foldl (\<lambda>d w. outw io ATA_DATA w d) d (words_of buf)"
    unfolding w write_words_def by (simp add: foldl_map)
  moreover have "length (words_of buf) = 256" using assms(3) by (simp add: length_words_of)
  moreover from this have "words_of buf \<noteq> []" by auto
  ultimately show ?thesis
    using outw_words [OF assms(1,2), of "words_of buf"] assms(3) by (simp add: bytes_of_words)
qed

subsection \<open>A drive for the examples\<close>

text \<open>A drive that answers three status reads busy after every command or register write.\<close>

definition ref_drive :: "(drive_view \<times> nat) ports" where
  "ref_drive =
     \<lparr>inb = (\<lambda>p (v, n). if n > 0 then (0x80, (v, n - 1)) else (if phase v = Idle then 0x40 else 0x48, (v, 0))),
      outb = (\<lambda>p x (v, n).
        (if p = ATA_SECTOR_CNT then v\<lparr>r_count := x\<rparr>
         else if p = ATA_LBA_LOW then v\<lparr>r_low := x\<rparr>
         else if p = ATA_LBA_MID then v\<lparr>r_mid := x\<rparr>
         else if p = ATA_LBA_HIGH then v\<lparr>r_high := x\<rparr>
         else if p = ATA_DRIVE_HEAD then v\<lparr>r_head := x\<rparr>
         else if x = 0x20 then v\<lparr>phase := after_in (words_of (sectors v (lba28 v)))\<rparr>
         else if x = 0x30 then v\<lparr>phase := Data_Out []\<rparr> else v, 3)),
      inw = (\<lambda>p (v, n). case phase v of Data_In (w # ws) \<Rightarrow> (w, (v\<lparr>phase := after_in ws\<rparr>, n)) | _ \<Rightarrow> (0, (v, n))),
      outw = (\<lambda>p w (v, n). case phase v of Data_Out ws \<Rightarrow> (receive w v ws, n) | _ \<Rightarrow> (v, n))\<rparr>"

lemma ref_drive_polls: "status_polls ref_drive n (v, n) = (v, 0)"
  by (induction n) (simp_all add: ref_drive_def)

lemma ref_drive_status: "status_at ref_drive n (v, n) = (if phase v = Idle then 0x40 else 0x48)"
  by (simp add: status_at_def ref_drive_polls) (simp add: ref_drive_def)

lemma ref_drive_ok: "ata_drive ref_drive fst"
proof -
  have "phase (fst d) = Idle \<Longrightarrow> status_at ref_drive (snd d) d AND ATA_SR_BSY = 0"
    "phase (fst d) \<noteq> Idle \<Longrightarrow> status_at ref_drive (snd d) d AND ATA_SR_DRQ \<noteq> 0" for d
    using ref_drive_status [of "snd d" "fst d"] by (simp_all add: ATA_SR_BSY_def ATA_SR_DRQ_def)
  then have "phase (fst d) = Idle \<Longrightarrow> \<exists>n. status_at ref_drive n d AND ATA_SR_BSY = 0"
    "phase (fst d) \<noteq> Idle \<Longrightarrow> \<exists>n. status_at ref_drive n d AND ATA_SR_DRQ \<noteq> 0" for d by blast+
  then show ?thesis
    unfolding ata_drive_def by (auto simp: ref_drive_def const_defs split: prod.splits)
qed

definition ref_disk :: "drive_view \<times> nat" where
  "ref_disk = (\<lparr>r_count = 0, r_low = 0, r_mid = 0, r_high = 0, r_head = 0, phase = Idle,
     sectors = \<lambda>b. replicate 512 (ucast b)\<rparr>, 5)"

subsection \<open>Properties\<close>

text \<open>On every drive that follows the PIO protocol, \<open>ata_read_sector\<close> returns: its polling loops end,
  the bytes it stores are those of the sector the file system's disk has at the low 28 bits
  of the address, the sectors stay as they are and the drive is idle again.\<close>

theorem ata_read_sector_refines:
  assumes "ata_drive io view" "phase (view d) = Idle" "disk_ok (sectors (view d))"
  shows "\<exists>d'. ata_read_sector io lba d = Some (read_sector lba (sectors (view d)), d') \<and>
    sectors (view d') = sectors (view d) \<and> phase (view d') = Idle"
proof -
  note D = ata_driveD [OF assms(1)]
  have "phase (view (outb io ATA_DRIVE_HEAD 0xA0 d)) = Idle" using D(8) assms(2) by simp
  then obtain a where a: "ata_reset io d = Some a" "view a = (view d)\<lparr>r_head := 0xA0\<rparr>"
    using ata_wait_idle [OF assms(1)] D(8) assms(2) unfolding ata_reset_def by metis
  obtain b where b: "ata_wait io a = Some b" "view b = view a"
    using ata_wait_idle [OF assms(1), of a] a(2) assms(2) by auto
  have "phase (view b) = Idle" using a(2) b(2) assms(2) by simp
  then obtain v where v: "phase v = Idle" "lba28 v = lba AND 0x0FFFFFFF" "sectors v = sectors (view d)"
    "view (ata_setup io lba ATA_CMD_READ b) = v\<lparr>phase := after_in (words_of (sectors v (lba28 v)))\<rparr>"
    using ata_setup_view [OF assms(1), of b lba] a(2) b(2) by (metis drive_view.select_convs(7) drive_view.surjective drive_view.update_convs(5))
  let ?bs = "read_sector lba (sectors (view d))"
  have ws: "words_of (sectors v (lba28 v)) = words_of ?bs" "length ?bs = 512" "length (words_of ?bs) = 256"
    using v(2,3) assms(3) by (simp_all add: read_sector_def length_words_of)
  then have ne: "words_of ?bs \<noteq> []" by auto
  have ph: "phase (view (ata_setup io lba ATA_CMD_READ b)) = after_in (words_of ?bs)" using v(4) ws by simp
  then have "phase (view (ata_setup io lba ATA_CMD_READ b)) \<noteq> Idle" using ne by (simp add: after_in_def)
  then obtain c where c: "ata_wait_drq io (ata_setup io lba ATA_CMD_READ b) = Some c"
    "view c = view (ata_setup io lba ATA_CMD_READ b)"
    using ata_wait_drq_data [OF assms(1)] by metis
  obtain d' where d': "read_words io 256 c = (bytes_of (words_of ?bs), d')" "view d' = (view c)\<lparr>phase := Idle\<rparr>"
    using read_words_spec [OF assms(1), of c "words_of ?bs" 256] c(2) ph ws(3) by auto
  show ?thesis
    using a(1) b(1) c d' v(3,4) ws(2) by (simp add: ata_read_sector_def bytes_of_words)
qed

theorem ata_read_sector_refines_witness:
  "\<exists>d'. ata_read_sector ref_drive 0x30000007 ref_disk = Some (replicate 512 7, d') \<and> phase (fst d') = Idle"
  using ata_read_sector_refines [OF ref_drive_ok, of ref_disk "0x30000007"]
  by (auto simp: ref_disk_def read_sector_def disk_ok_def)

text \<open>On every such drive \<open>ata_write_sector\<close> returns, and the sectors of the drive are those of the
  file system's disk after the write of the 512 bytes at the low 28 bits of the address.\<close>

theorem ata_write_sector_refines:
  assumes "ata_drive io view" "phase (view d) = Idle" "length buf = 512"
  shows "\<exists>d'. ata_write_sector io lba buf d = Some d' \<and>
    sectors (view d') = write_sector lba buf (sectors (view d)) \<and> phase (view d') = Idle"
proof -
  obtain b where b: "ata_wait io d = Some b" "view b = view d" by (rule ata_wait_idle [OF assms(1,2)])
  obtain v where v: "phase v = Idle" "lba28 v = lba AND 0x0FFFFFFF" "sectors v = sectors (view d)"
    "view (ata_setup io lba ATA_CMD_WRITE b) = v\<lparr>phase := Data_Out []\<rparr>"
    using ata_setup_view [OF assms(1), of b lba] b(2) assms(2) by metis
  obtain c where c: "ata_wait_drq io (ata_setup io lba ATA_CMD_WRITE b) = Some c"
    "view c = view (ata_setup io lba ATA_CMD_WRITE b)"
    using ata_wait_drq_data [OF assms(1), of "ata_setup io lba ATA_CMD_WRITE b"] v(4) by auto
  let ?e = "write_words io buf c"
  have e: "view ?e = (view c)\<lparr>phase := Idle, sectors := (sectors (view c))(lba28 (view c) := buf)\<rparr>"
    using write_words_spec [OF assms(1) _ assms(3), of c] c(2) v(4) by simp
  have f: "view (outb io ATA_COMMAND 0xE7 ?e) = view ?e" using ata_driveD(11) [OF assms(1), of ?e] e by simp
  obtain d' where d': "ata_wait io (outb io ATA_COMMAND 0xE7 ?e) = Some d'" "view d' = view ?e"
    using ata_wait_idle [OF assms(1), of "outb io ATA_COMMAND 0xE7 ?e"] e f by auto
  have "sectors (view d') = write_sector lba buf (sectors (view d))"
    using d'(2) e c(2) v by (simp add: write_sector_def lba28_def)
  then show ?thesis using b(1) c(1) d' e by (simp add: ata_write_sector_def)
qed

theorem ata_write_sector_refines_witness:
  "\<exists>d'. ata_write_sector ref_drive 42 (replicate 512 9) ref_disk = Some d' \<and> sectors (fst d') 42 = replicate 512 9 \<and>
     sectors (fst d') 41 = replicate 512 41"
  using ata_write_sector_refines [OF ref_drive_ok, of ref_disk "replicate 512 9" 42]
  by (auto simp: ref_disk_def write_sector_def)

text \<open>The driver does not look at the error bit: on a drive that answers with a status in which data
  request is never set (an aborted command, an unreadable sector), neither transfer returns.\<close>

theorem ata_transfers_hang_on_error:
  assumes "\<And>n e. status_at io n e AND ATA_SR_DRQ = 0"
  shows "ata_read_sector io lba d = None \<and> ata_write_sector io lba buf d = None"
proof -
  have "ata_wait_drq io e = None" for e using ata_wait_drq_returns [of io e] assms by (cases "ata_wait_drq io e") auto
  then show ?thesis
    by (simp_all add: ata_read_sector_def ata_write_sector_def bind_eq_None_conv)
qed

theorem ata_transfers_hang_on_error_witness:
  "ata_read_sector (ref_drive\<lparr>inb := \<lambda>p d. (0x41, d)\<rparr>) 7 ref_disk = None"
  using ata_transfers_hang_on_error [of "ref_drive\<lparr>inb := \<lambda>p d. (0x41, d)\<rparr>"] by (simp add: status_at_def ATA_SR_DRQ_def)

end
