(* ===== verification/Kernel.thy ===== *)
theory Kernel
  imports Keyboard Ata
begin

text \<open>
  The kernel put together: \<open>kernel_main\<close> of \<open>kernel/kernel.c\<close>, which brings the components up in
  order, and the two C entry points of an interrupt, \<open>isr_handler\<close> and \<open>irq_handler\<close> of
  \<open>kernel/idt.c\<close>. A machine is the kernel with the processor's tables, the shell and the
  keyboard. The addresses the linker gives to the static objects are a record; the drive is
  behind its ports, as in the driver.
\<close>

definition MULTIBOOT_MAGIC :: u32 where [const_defs]: "MULTIBOOT_MAGIC = 0x2BADB002"

record multiboot_info_t =
  mb_flags :: u32
  mem_lower :: u32
  mem_upper :: u32

record machine =
  kern :: kernel
  mcpu :: cpu
  msh :: shell
  mkb :: keyboard

record link_map =
  kernel_end_at :: u32
  page_tables_at :: u32
  gdt_at :: u32
  idt_at :: u32
  tss_at :: u32
  isr_at :: "nat \<Rightarrow> u32"
  irq_at :: "nat \<Rightarrow> u32"

subsection \<open>Boot\<close>

text \<open>
  The initialisation up to the check of the magic number. The output of a component follows
  its own steps; it does not depend on them.
\<close>

definition init_devices :: "link_map \<Rightarrow> machine \<Rightarrow> machine" where
  "init_devices ld m =
     (let m = m\<lparr>kern := (kern m)\<lparr>kcon := (kcon (kern m))\<lparr>ser := serial_init (ser (kcon (kern m)))\<rparr>\<rparr>\<rparr>;
          m = m\<lparr>mcpu := gdt_init (gdt_at ld) (mcpu m)\<rparr>;
          m = m\<lparr>kern := (kern m)\<lparr>kcon := (kcon (kern m))\<lparr>tty := terminal_initialize (tty (kcon (kern m)))\<rparr>\<rparr>\<rparr>
      in m\<lparr>mcpu := idt_init (idt_at ld) (isr_at ld) (irq_at ld) (mcpu m)\<rparr>)"

definition init_memory :: "link_map \<Rightarrow> u32 \<Rightarrow> kernel \<Rightarrow> kernel option" where
  "init_memory ld upper k =
     do { (pm, ms) \<leftarrow> pmm_init (kernel_end_at ld) upper (kpm k);
          k \<leftarrow> kprint ms (k\<lparr>kpm := pm\<rparr>);
          (vm, pm, ms) \<leftarrow> vmm_init (page_tables_at ld) (kvm k) (kpm k);
          k \<leftarrow> kprint ms (k\<lparr>kvm := vm, kpm := pm\<rparr>);
          (vm, pm, h, ms) \<leftarrow> heap_init (kvm k) (kpm k) (kheap_of k);
          kprint ms (set_heap h (k\<lparr>kvm := vm, kpm := pm\<rparr>)) }"

definition init_services :: "'d ports \<Rightarrow> kernel \<Rightarrow> 'd \<Rightarrow> (kernel \<times> 'd) option" where
  "init_services io k d =
     do { (s, ms) \<leftarrow> process_init (ksched k);
          k \<leftarrow> kprint ms (k\<lparr>ksched := s\<rparr>);
          (d, ms) \<leftarrow> ata_init io d;
          k \<leftarrow> kprint ms k;
          let (f, ms) = fs_init (kfs k);
          k \<leftarrow> kprint ms (k\<lparr>kfs := f\<rparr>);
          k \<leftarrow> syscall_init k;
          Some (k, d) }"

definition greeting :: "multiboot_info_t \<Rightarrow> kernel \<Rightarrow> kernel option" where
  "greeting mb_info k =
     do { k \<leftarrow> kprint [(''=== AshOS ==='' @ nl, [])] (setcolor_k (vga_entry_color VGA_COLOR_LIGHT_CYAN VGA_COLOR_BLACK) k);
          kprint [(''Booted successfully via GRUB.'' @ nl @ nl, []),
                  (''Lower memory: %d KB'' @ nl, [KInt (mem_lower mb_info)]),
                  (''Upper memory: %d KB'' @ nl, [KInt (mem_upper mb_info)]),
                  (nl @ ''Hello, kernel world!'' @ nl, [])]
            (setcolor_k (vga_entry_color VGA_COLOR_LIGHT_GREY VGA_COLOR_BLACK) k) }"

text \<open>How \<open>kernel_main\<close> ends: it returns to \<open>boot.s\<close>, which halts, or idles and serves interrupts.\<close>

datatype boot_end = Refused | Idles

definition kernel_main ::
    "link_map \<Rightarrow> 'd ports \<Rightarrow> u32 \<Rightarrow> multiboot_info_t \<Rightarrow> machine \<Rightarrow> 'd \<Rightarrow> (machine \<times> 'd \<times> boot_end) option" where
  "kernel_main ld io mb_magic mb_info m d =
     do { let m = init_devices ld m;
          k \<leftarrow> init_memory ld (mem_upper mb_info) (kern m);
          (k, d) \<leftarrow> init_services io k d;
          let (c, ms) = tss_init (tss_at ld) 0x200000 (mcpu m);
          k \<leftarrow> kprint ms k;
          let m = m\<lparr>mcpu := c, mkb := keyboard_init (mkb m)\<rparr>;
          if mb_magic \<noteq> MULTIBOOT_MAGIC
          then do { k \<leftarrow> kprint [(''ERROR: Not loaded by a multiboot bootloader!'' @ nl, [])]
                      (setcolor_k (vga_entry_color VGA_COLOR_RED VGA_COLOR_BLACK) k);
                    Some (m\<lparr>kern := k\<rparr>, d, Refused) }
          else do { k \<leftarrow> greeting mb_info k;
                    (sh, k) \<leftarrow> shell_init (msh m) k;
                    Some (m\<lparr>kern := k, msh := sh\<rparr>, d, Idles) } }"

subsection \<open>Interrupts\<close>

definition exception_names :: "string list" where
  "exception_names =
     [''Division By Zero'', ''Debug'', ''Non Maskable Interrupt'', ''Breakpoint'', ''Overflow'', ''Bound Range Exceeded'',
      ''Invalid Opcode'', ''Device Not Available'', ''Double Fault'', ''Coprocessor Segment Overrun'', ''Invalid TSS'',
      ''Segment Not Present'', ''Stack-Segment Fault'', ''General Protection Fault'', ''Page Fault'', ''Reserved'',
      ''x87 Floating Point'', ''Alignment Check'', ''Machine Check'', ''SIMD Floating Point'', ''Virtualization'',
      ''Reserved'', ''Reserved'', ''Reserved'', ''Reserved'', ''Reserved'', ''Reserved'', ''Reserved'', ''Reserved'', ''Reserved'',
      ''Security Exception'', ''Reserved'']"

text \<open>A read past the table of names is \<open>None\<close>.\<close>

definition isr_handler :: "registers_t \<Rightarrow> kernel \<Rightarrow> (registers_t \<times> kernel \<times> control) option" where
  "isr_handler regs k =
     (if reg_int_no regs = 128 then syscall_handler regs k
      else if unat (reg_int_no regs) < length exception_names
      then do { k \<leftarrow> kprint [(nl @ ''*** KERNEL EXCEPTION ***'' @ nl, []),
                    (''Exception: %s'' @ nl, [KStr (Some (cstr (exception_names ! unat (reg_int_no regs))))]),
                    (''Error code: %d'' @ nl, [KInt (reg_err_code regs)]),
                    (''System halted.'' @ nl, [])] (setcolor_k 0x04 k);
                Some (regs, k, Halts) }
      else None)"

text \<open>
  An interrupt ends in the way its handler does, or, when the scheduler switches, on the stack
  of another process: what is left of the handler then runs when the interrupted process is
  resumed, as \<open>irq_tail\<close>.
\<close>

datatype irq_end = Leaves control | Switches u32

definition irq_eoi :: "registers_t \<Rightarrow> cpu \<Rightarrow> cpu" where
  "irq_eoi regs c =
     (let c = (if reg_int_no regs \<ge> 40 then pic_outb PIC2_COMMAND PIC_EOI c else c)
      in pic_outb PIC1_COMMAND PIC_EOI c)"

definition irq_tail :: "(u16 \<Rightarrow> u8) \<Rightarrow> registers_t \<Rightarrow> machine \<Rightarrow> (machine \<times> irq_end) option" where
  "irq_tail port regs m =
     do { (m, ctl) \<leftarrow>
            (if reg_int_no regs = 33
             then do { (kb, sh, k, ctl) \<leftarrow> keyboard_handler port (mkb m) (msh m) (kern m);
                       Some (m\<lparr>kern := k, msh := sh, mkb := kb\<rparr>, ctl) }
             else Some (m, Returns));
          if ctl \<noteq> Returns then Some (m, Leaves ctl)
          else Some (m\<lparr>mcpu := irq_eoi regs (mcpu m)\<rparr>, Leaves Returns) }"

definition irq_handler :: "(u16 \<Rightarrow> u8) \<Rightarrow> ctx \<Rightarrow> registers_t \<Rightarrow> machine \<Rightarrow> (machine \<times> irq_end) option" where
  "irq_handler port ctx regs m =
     do { (m, switched) \<leftarrow>
            (if reg_int_no regs = 32
             then do { (s, switched) \<leftarrow> scheduler_tick ctx (ksched (kern m));
                       Some (m\<lparr>kern := (kern m)\<lparr>ksched := s\<rparr>\<rparr>, switched) }
             else Some (m, None));
          case switched of Some sp \<Rightarrow> Some (m, Switches sp) | None \<Rightarrow> irq_tail port regs m }"

subsection \<open>The components come up\<close>

lemma pmm_init_msgs: "pmm_init ke up s = Some (s', ms) \<Longrightarrow> list_all msg_ok ms"
  by (auto simp: pmm_init_def Let_def msg_ok_def bind_eq_Some_conv)

lemma vmm_map_msgs: "vmm_map v p fl s m = Some (s', m', ms) \<Longrightarrow> list_all msg_ok ms"
  by (auto simp: vmm_map_def msg_ok_def bind_eq_Some_conv split: if_splits)

lemma vmm_init_msgs: "vmm_init pt s m = Some (s', m', ms) \<Longrightarrow> list_all msg_ok ms"
  by (auto simp: vmm_init_def msg_ok_def bind_eq_Some_conv dest: vmm_map_msgs)

lemma heap_map_msgs: "heap_map_loop v n i s m = Some (s', m', ms) \<Longrightarrow> list_all msg_ok ms"
proof (induction v n i s m arbitrary: s' m' ms rule: heap_map_loop.induct)
  case (1 v n i s m)
  show ?case
  proof (cases "i < n")
    case False
    then show ?thesis using "1.prems" by (simp add: heap_map_loop.simps [of v n i])
  next
    case True
    then obtain m1 a where a: "pmm_alloc m = Some (m1, a)" using "1.prems" by (auto simp: heap_map_loop.simps [of v n i] bind_eq_Some_conv)
    show ?thesis
    proof (cases "a = 0")
      case True
      then show ?thesis using "1.prems" a \<open>i < n\<close> by (auto simp: heap_map_loop.simps [of v n i] msg_ok_def)
    next
      case False
      then obtain s2 m2 o2 s3 m3 o3 where r: "vmm_map (v + i * 4096) a page_rwu s m1 = Some (s2, m2, o2)"
        "heap_map_loop v n (i + 1) s2 m2 = Some (s3, m3, o3)" "ms = o2 @ o3"
        using "1.prems" a True by (auto simp: heap_map_loop.simps [of v n i] bind_eq_Some_conv)
      then show ?thesis using "1.IH" [OF True a refl False r(1) refl refl r(2)] vmm_map_msgs [OF r(1)] by simp
    qed
  qed
qed

lemma heap_init_msgs: "heap_init s m h = Some (s', m', h', ms) \<Longrightarrow> list_all msg_ok ms"
  by (auto simp: heap_init_def heap_map_pages_def msg_ok_def bind_eq_Some_conv dest: heap_map_msgs)

text \<open>
  What the linker and the boot loader provide: the page tables lie inside the kernel, which ends
  below the page mapped apart, and there is memory for one frame, the heap and its page table.
\<close>

definition memory_ok :: "link_map \<Rightarrow> u32 \<Rightarrow> bool" where
  "memory_ok ld upper \<longleftrightarrow> unat (kernel_end_at ld) \<le> 0x4F0000 \<and> aligned (page_tables_at ld) \<and> page_tables_at ld \<noteq> 0 \<and>
     unat (page_tables_at ld) + 8192 \<le> unat (kernel_end_at ld) \<and> unat upper + 1024 < 4294967296 \<and>
     kernel_pages (kernel_end_at ld) + 258 \<le> memory_pages upper"

lemma Min_from: "a < b \<Longrightarrow> Min {a..<b :: nat} = a"
  by (rule Min_eqI) auto

lemma minus_first: "{a..<b} - {a} = {a + 1..<b :: nat}"
  by auto

text \<open>
  The space of user programs, \<open>0x400000\<close> to \<open>0x4FFFFF\<close> (\<open>user/user.ld\<close>): the directory has its page table, and
  no page table lies in it.
\<close>

definition program_space :: "vmm \<Rightarrow> bool" where
  "program_space s \<longleftrightarrow> pde_present s 1 \<and> (\<forall>d < 1024. pde_present s d \<longrightarrow> vpage (table_frame s d) < 1024)"

lemma paging_ready:
  assumes ok: "memory_ok ld upper" and m: "pmm_inv m" "free_frames m = {kernel_pages (kernel_end_at ld)..<memory_pages upper}"
  obtains s' m' ms where "vmm_init (page_tables_at ld) s m = Some (s', m', ms)" "vmm_inv s' m'" "pmm_inv m'"
    "\<not> pde_present s' 4" "tables_off_heap s'" "257 \<le> card (free_frames m')" "second_frame m' < 4096"
    "ident s' (of_nat (4096 * second_frame m'))" "second_frame m' = kernel_pages (kernel_end_at ld) + 2"
    "card (free_frames m') + kernel_pages (kernel_end_at ld) + 1 = memory_pages upper" "pde_present s' 1"
    "\<And>d. d < 1024 \<Longrightarrow> pde_present s' d \<Longrightarrow> vpage (table_frame s' d) < kernel_pages (kernel_end_at ld)"
proof -
  let ?pt = "page_tables_at ld" and ?a = "kernel_pages (kernel_end_at ld)" and ?b = "memory_pages upper"
  have o: "unat (kernel_end_at ld) \<le> 0x4F0000" "aligned ?pt" "?pt \<noteq> 0" "unat ?pt + 8192 \<le> unat (kernel_end_at ld)" "?a + 258 \<le> ?b"
    using ok by (simp_all add: memory_ok_def)
  have a: "?a \<le> 1264" "unat ?pt + 8192 \<le> 4096 * ?a"
    using o(1,4) div_le_mono [of "unat (kernel_end_at ld) + 4095" "1264 * 4096 + 4095" 4096]
    by (simp_all add: kernel_pages_def)
  have v: "vpage ?pt + 1 < ?a" "vpage ?pt + 1 < 1280" using a by linarith+
  have ne: "free_frames m \<noteq> {}" "vpage ?pt \<notin> free_frames m" "vpage ?pt + 1 \<notin> free_frames m" using m(2) o(5) v(1) by auto
  obtain s' m' ms where i: "vmm_init ?pt s m = Some (s', m', ms)" "vmm_inv s' m'" "pmm_inv m'"
    "free_frames m' = free_frames m - {Min (free_frames m)}"
    "\<And>va. mmu_walk s' va = (if vpage va = 1280 then Some (next_frame m OR (va AND 0xFFF)) else if unat va < 8388608 then Some va else None)"
    "\<And>d. d < 1024 \<Longrightarrow> pde_present s' d = (d < 2)" "table_frame s' 0 = ?pt" "table_frame s' 1 = ?pt + 4096"
    by (rule vmm_init_spec [OF o(2,3) _ _ _ m(1) ne(2,3,1)]) (use o(1,4) v(2) in auto)
  have "Min (free_frames m) = ?a" using m(2) o(5) Min_from [of ?a ?b] by simp
  then have F: "free_frames m' = {?a + 1..<?b}" using i(4) m(2) minus_first by metis
  have second: "second_frame m' = ?a + 2"
  proof -
    have "Min {?a + 1..<?b} = ?a + 1" "Min {?a + 1 + 1..<?b} = ?a + 2"
      using o(5) Min_from [of "?a + 1" ?b] Min_from [of "?a + 2" ?b] by simp_all
    then show ?thesis unfolding second_frame_def F by (simp only: minus_first)
  qed
  let ?x = "of_nat (4096 * (?a + 2)) :: u32"
  have x: "unat ?x = 4096 * (?a + 2)" using a(1) by (intro unat_of_nat_u32) simp
  have "ident s' ?x" using a(1) i(5) [of ?x] x by (simp add: ident_def)
  moreover have low: "vpage (table_frame s' d) < ?a" if "d < 1024" "pde_present s' d" for d
  proof -
    have "table_frame s' d = ?pt \<or> table_frame s' d = ?pt + 4096" using i(6-8) that by (auto simp: less_2_cases_iff)
    moreover have "vpage (?pt + 4096) = vpage ?pt + 1" using o(1,4) by (subst unat_add_u32) simp_all
    ultimately show ?thesis using v(1) by auto
  qed
  moreover have "tables_off_heap s'" unfolding tables_off_heap_def using low a(1) by fastforce
  ultimately show thesis using that [OF i(1-3)] i(6) [of 4] i(6) [of 1] F o(5) second a(1) by simp
qed

lemma kernel_pages_low: "unat ke \<le> 0x3F0000 \<Longrightarrow> kernel_pages ke \<le> 1008"
  using div_le_mono [of "unat ke + 4095" "1008 * 4096 + 4095" 4096] by (simp add: kernel_pages_def)

lemma program_space_heap:
  assumes "a \<le> 1008" "n = a + 2" "pde_present s 1" "\<And>d. d < 1024 \<Longrightarrow> pde_present s d \<Longrightarrow> vpage (table_frame s d) < a"
    and "heap_tables s (of_nat (4096 * n)) s'"
  shows "program_space s'"
proof -
  have "vpage (of_nat (4096 * n)) = n" using assms(1,2) by (subst unat_of_nat_u32) simp_all
  then show ?thesis using assms(1-3,5) assms(4) by (fastforce simp: program_space_def heap_tables_def)
qed

lemma init_memory_ok:
  assumes ok: "memory_ok ld upper" and con: "con_inv (kcon k)"
  obtains h vm pm c where "init_memory ld upper k = Some ((set_heap h k)\<lparr>kvm := vm, kpm := pm, kcon := c\<rparr>)" "con_inv c"
    "vmm_inv vm pm" "pmm_inv pm" "heap_rep h [(0xFFFF4, True)]"
    "card (free_frames pm) + kernel_pages (kernel_end_at ld) + 258 = memory_pages upper"
    "unat (kernel_end_at ld) \<le> 0x3F0000 \<Longrightarrow> program_space vm"
proof -
  let ?a = "kernel_pages (kernel_end_at ld)"
  have "0 < unat (kernel_end_at ld)" "unat (kernel_end_at ld) + 4095 < 4294967296" "unat upper + 1024 < 4294967296" "?a \<le> memory_pages upper"
    using ok by (simp_all add: memory_ok_def)
  then obtain pm1 ms1 where pm: "pmm_init (kernel_end_at ld) upper (kpm k) = Some (pm1, ms1)" "pmm_inv pm1"
    "free_frames pm1 = {?a..<memory_pages upper}" by (rule pmm_init_spec)
  let ?k1 = "k\<lparr>kpm := pm1\<rparr>"
  have "con_inv (kcon ?k1)" using con by simp
  then obtain c1 where c1: "kprint ms1 ?k1 = Some (?k1\<lparr>kcon := c1\<rparr>)" "con_inv c1" by (rule kprint_ok [OF _ pmm_init_msgs [OF pm(1)]])
  obtain vm pm2 ms2 where vm: "vmm_init (page_tables_at ld) (kvm k) pm1 = Some (vm, pm2, ms2)" "vmm_inv vm pm2" "pmm_inv pm2"
    "\<not> pde_present vm 4" "tables_off_heap vm" "257 \<le> card (free_frames pm2)" "second_frame pm2 < 4096"
    "ident vm (of_nat (4096 * second_frame pm2))" "second_frame pm2 = ?a + 2" "card (free_frames pm2) + ?a + 1 = memory_pages upper" "pde_present vm 1"
    "\<And>d. d < 1024 \<Longrightarrow> pde_present vm d \<Longrightarrow> vpage (table_frame vm d) < ?a" by (rule paging_ready [OF ok pm(2,3)]) (rule that)
  let ?k2 = "k\<lparr>kcon := c1, kvm := vm, kpm := pm2\<rparr>"
  have "con_inv (kcon ?k2)" using c1(2) by simp
  then obtain c2 where c2: "kprint ms2 ?k2 = Some (?k2\<lparr>kcon := c2\<rparr>)" "con_inv c2" by (rule kprint_ok [OF _ vmm_init_msgs [OF vm(1)]])
  obtain vm3 pm3 h ms3 where hp: "heap_init vm pm2 (kheap_of k) = Some (vm3, pm3, h, ms3)" "vmm_inv vm3 pm3" "pmm_inv pm3"
    "heap_rep h [(0xFFFF4, True)]" "card (free_frames pm3) + 257 = card (free_frames pm2)" "heap_tables vm (of_nat (4096 * second_frame pm2)) vm3"
    by (rule heap_init_spec [OF vm(2-8)])
  let ?k3 = "set_heap h (k\<lparr>kcon := c2, kvm := vm3, kpm := pm3\<rparr>)"
  have "con_inv (kcon ?k3)" using c2(2) by simp
  then obtain c3 where c3: "kprint ms3 ?k3 = Some (?k3\<lparr>kcon := c3\<rparr>)" "con_inv c3" by (rule kprint_ok [OF _ heap_init_msgs [OF hp(1)]])
  have "init_memory ld upper k = Some ((set_heap h k)\<lparr>kvm := vm3, kpm := pm3, kcon := c3\<rparr>)"
    using pm(1) c1(1) vm(1) c2(1) hp(1) c3(1) by (simp add: init_memory_def set_heap_def)
  moreover have "card (free_frames pm3) + ?a + 258 = memory_pages upper" using hp(5) vm(10) by simp
  moreover have "program_space vm3" if "unat (kernel_end_at ld) \<le> 0x3F0000"
    using kernel_pages_low [OF that] vm(9,11,12) hp(6) by (rule program_space_heap)
  ultimately show thesis using that c3(2) hp(2-4) by blast
qed

text \<open>Memory has the shape of a process: sixteen descriptors with names of 64 bytes.\<close>

definition procs_shaped :: "sched \<Rightarrow> bool" where
  "procs_shaped s \<longleftrightarrow> (\<forall>a. length (fds (procs s a)) = 16 \<and> (\<forall>f \<in> set (fds (procs s a)). length (fd_name f) = 64))"

lemma init_fds_ok:
  assumes "length fs = 16" "\<forall>f \<in> set fs. length (fd_name f) = 64"
  shows "fds_ok (init_fds fs)"
proof -
  let ?g = "map (\<lambda>f. f\<lparr>fd_used := 0\<rparr>) fs"
  have n: "length (fd_name (?g ! i)) = 64" if "i < 16" for i using assms that by simp
  have "\<forall>f \<in> set (init_fds fs). length (fd_name f) = 64"
    using assms n by (auto simp: init_fds_def Let_def dest!: set_update_subset_insert [THEN subsetD])
  moreover have "fd_used (init_fds fs ! i) = 0" if "3 \<le> i" "i < 16" for i using assms(1) that by (simp add: init_fds_def Let_def)
  ultimately show ?thesis using assms(1) by (auto simp: fds_ok_def) (simp add: init_fds_def Let_def)
qed

lemma process_up:
  assumes "heap_rep (kmem s) [(0xFFFF4, True)]" "procs_shaped s"
  obtains s' bs where "process_init s = Some (s', [(''Process: kernel process created (PID 0)'' @ nl, [])])" "owned s' bs [0x100000C]"
    "fds_ok (fds (procs s' 0x100000C))" "current_process s' = 0x100000C" "heap_rep (kmem s') bs" "bs = [(1240, False), (1047312, True)]"
proof -
  obtain h where h: "kmalloc sizeof_process_t (kmem s) = Some (h, 0x100000C, [])" "heap_rep h [(1240, False), (1047312, True)]"
    using kmalloc_spec [OF assms(1), of sizeof_process_t] by (auto simp: up4_def sizeof_process_t_def)
  obtain s' bs where s': "process_init s = Some (s', [(''Process: kernel process created (PID 0)'' @ nl, [])])" "owned s' bs [0x100000C]"
    "current_process s' = 0x100000C" "kmem s' = h"
    using process_init_spec [OF assms(1) h(1)] by auto
  have "bs = [(1240, False), (1047312, True)]" using s'(2,4) h(2) heap_rep_unique by (auto simp: owned_def)
  moreover have "fds (procs s' 0x100000C) = init_fds (fds (procs s 0x100000C))"
    using s'(1) h(1) by (auto simp: process_init_def Let_def)
  then have "fds_ok (fds (procs s' 0x100000C))" using assms(2) init_fds_ok by (simp add: procs_shaped_def)
  ultimately show thesis using that s' h(2) by blast
qed

text \<open>The drive holds a file system with its invariant, or none, in which case it is formatted.\<close>

definition has_fs :: "disk \<Rightarrow> bool" where
  "has_fs d \<longleftrightarrow> magic (superblock_of (take 24 (d 0))) = FS_MAGIC"

definition disk_ready :: "disk \<Rightarrow> bool" where
  "disk_ready d \<longleftrightarrow> (if has_fs d then fs_inv \<lparr>superblock = superblock_of (take 24 (d 0)), disk = d\<rparr> else disk_ok d)"

lemma fs_up:
  assumes "disk_ready (disk f)"
  obtains f' ms where "fs_init f = (f', ms)" "fs_inv f'" "list_all msg_ok ms"
    "files (disk f') = (if has_fs (disk f) then files (disk f) else (\<lambda>_. None))"
proof -
  obtain f' ms where i: "fs_init f = (f', ms)" by (cases "fs_init f")
  then have ok: "list_all msg_ok ms" by (auto simp: fs_init_def Let_def msg_ok_def split: if_splits)
  show thesis
  proof (cases "has_fs (disk f)")
    case True
    then have "f' = f\<lparr>superblock := superblock_of (take 24 (disk f 0))\<rparr>" using fs_init_found [of f] i by (simp add: has_fs_def)
    then show ?thesis using that [OF i _ ok] True assms by (simp add: disk_ready_def fs_inv_def)
  next
    case False
    then have m: "disk_ok (disk f)" "magic (superblock_of (take 24 (disk f 0))) \<noteq> FS_MAGIC" using assms by (simp_all add: disk_ready_def has_fs_def)
    obtain g ns where "fs_init f = (g, ns)" "fs_inv g" "files (disk g) = (\<lambda>_. None)" by (rule fs_init_format [OF m]) (rule that)
    then show ?thesis using that [OF i _ ok] False i by simp
  qed
qed

lemma drive_up:
  assumes "ata_drive io view" "phase (view d) = Idle"
  obtains d' ms where "ata_init io d = Some (d', ms)" "view d' = (view d)\<lparr>r_head := 0xA0\<rparr>" "list_all msg_ok ms"
proof -
  let ?d = "outb io ATA_DRIVE_HEAD 0xA0 d"
  have v: "view ?d = (view d)\<lparr>r_head := 0xA0\<rparr>" by (rule ata_driveD(8) [OF assms])
  have "phase (view ?d) = Idle" using v assms(2) by simp
  then obtain d' where "ata_wait io ?d = Some d'" "view d' = view ?d" by (rule ata_wait_idle [OF assms(1)])
  then show thesis using that v by (simp add: ata_init_def msg_ok_def)
qed

lemma init_services_ok:
  assumes heap: "heap_rep (kheap_of k) [(0xFFFF4, True)]" and shape: "procs_shaped (ksched k)" and con: "con_inv (kcon k)"
    and fs: "disk_ready (disk (kfs k))" and drive: "ata_drive io view" "phase (view d) = Idle"
  obtains k' d' where "init_services io k d = Some (k', d')" "kernel_inv k' [(1240, False), (1047312, True)] [0x100000C]"
    "kvm k' = kvm k" "kpm k' = kpm k" "view d' = (view d)\<lparr>r_head := 0xA0\<rparr>"
    "files (disk (kfs k')) = (if has_fs (disk (kfs k)) then files (disk (kfs k)) else (\<lambda>_. None))"
proof -
  let ?bs = "[(1240, False), (1047312, True)]" and ?p = "[(''Process: kernel process created (PID 0)'' @ nl, [])]"
  obtain s bs where s: "process_init (ksched k) = Some (s, ?p)" "owned s bs [0x100000C]"
    "fds_ok (fds (procs s 0x100000C))" "bs = ?bs" by (rule process_up [OF heap shape]) (rule that)
  let ?k1 = "k\<lparr>ksched := s\<rparr>"
  have ok: "list_all msg_ok ?p" by (simp add: plain_msg)
  have "con_inv (kcon ?k1)" using con by simp
  then obtain c1 where c1: "kprint ?p ?k1 = Some (?k1\<lparr>kcon := c1\<rparr>)" "con_inv c1" by (rule kprint_ok [OF _ ok])
  obtain d' ms2 where d': "ata_init io d = Some (d', ms2)" "view d' = (view d)\<lparr>r_head := 0xA0\<rparr>" "list_all msg_ok ms2" by (rule drive_up [OF drive])
  have "con_inv (kcon (?k1\<lparr>kcon := c1\<rparr>))" using c1(2) by simp
  then obtain c2 where c2: "kprint ms2 (?k1\<lparr>kcon := c1\<rparr>) = Some (?k1\<lparr>kcon := c1, kcon := c2\<rparr>)" "con_inv c2" by (rule kprint_ok [OF _ d'(3)])
  obtain f ms3 where f: "fs_init (kfs k) = (f, ms3)" "fs_inv f" "list_all msg_ok ms3"
    "files (disk f) = (if has_fs (disk (kfs k)) then files (disk (kfs k)) else (\<lambda>_. None))" by (rule fs_up [OF fs])
  let ?k3 = "k\<lparr>ksched := s, kcon := c2, kfs := f\<rparr>"
  have i3: "kernel_inv ?k3 ?bs [0x100000C]" using s(2-4) f(2) c2(2) by (simp add: kernel_inv_def)
  obtain k4 where k4: "kprint ms3 ?k3 = Some k4" "talks ?k3 k4" by (rule kprint_talks [OF kernel_invD(3) [OF i3] f(3)])
  have ok5: "list_all msg_ok [(''Syscall: int 0x80 handler installed'' @ nl, [])]" by (simp add: plain_msg)
  obtain k5 where k5: "syscall_init k4 = Some k5" "talks k4 k5" unfolding syscall_init_def by (rule kprint_talks [OF talks_con [OF k4(2)] ok5])
  have t: "talks ?k3 k5" by (rule talks_trans [OF k4(2) k5(2)])
  have "init_services io k d = Some (k5, d')" using s(1) c1(1) d'(1) c2(1) f(1) k4(1) k5(1) by (simp add: init_services_def)
  then show thesis by (rule that) (use talks_inv [OF t i3] talks_fields [OF t] d'(2) f(4) in auto)
qed

subsection \<open>The machine\<close>

definition machine_inv :: "machine \<Rightarrow> blk list \<Rightarrow> u32 list \<Rightarrow> bool" where
  "machine_inv m bs as \<longleftrightarrow> kernel_inv (kern m) bs as \<and> vmm_inv (kvm (kern m)) (kpm (kern m)) \<and> pmm_inv (kpm (kern m)) \<and> sh_inv (msh m)"

text \<open>The hardware and the static data at power on.\<close>

definition power_on :: "machine \<Rightarrow> bool" where
  "power_on m \<longleftrightarrow> uart_live (ser (kcon (kern m))) \<and> procs_shaped (ksched (kern m)) \<and> disk_ready (disk (kfs (kern m))) \<and>
     length (gdt (mcpu m)) = 6 \<and> length (idt (mcpu m)) = 256 \<and> sh_inv (msh m)"

lemma serial_init_live: "uart_live (serial_init s) = uart_live s"
  by (simp add: uart_live_def serial_init_def serial_outb_def Let_def)

lemma init_devices_eq:
  "kern (init_devices ld m) = (kern m)\<lparr>kcon := \<lparr>tty = terminal_initialize (tty (kcon (kern m))), ser = serial_init (ser (kcon (kern m)))\<rparr>\<rparr>"
  "msh (init_devices ld m) = msh m" "mkb (init_devices ld m) = mkb m"
  "mcpu (init_devices ld m) = idt_init (idt_at ld) (isr_at ld) (irq_at ld) (gdt_init (gdt_at ld) (mcpu m))"
  by (simp_all add: init_devices_def Let_def)

lemma greeting_talks:
  assumes "con_inv (kcon k)"
  obtains k' where "greeting mb k = Some k'" "talks k k'"
proof -
  let ?c1 = "vga_entry_color VGA_COLOR_LIGHT_CYAN VGA_COLOR_BLACK" and ?c2 = "vga_entry_color VGA_COLOR_LIGHT_GREY VGA_COLOR_BLACK"
  let ?a = "[(''=== AshOS ==='' @ nl, [])]"
  let ?b = "[(''Booted successfully via GRUB.'' @ nl @ nl, []), (''Lower memory: %d KB'' @ nl, [KInt (mem_lower mb)]),
    (''Upper memory: %d KB'' @ nl, [KInt (mem_upper mb)]), (nl @ ''Hello, kernel world!'' @ nl, [])]"
  have ok: "list_all msg_ok ?a" "list_all msg_ok ?b" by (simp_all add: msg_ok_def)
  obtain k1 where k1: "kprint ?a (setcolor_k ?c1 k) = Some k1" "talks k k1" by (rule print_step [OF setcolor_talks [OF assms] ok(1)])
  obtain k2 where "kprint ?b (setcolor_k ?c2 k1) = Some k2" "talks k k2" by (rule print_step [OF color_step [OF k1(2)] ok(2)])
  then show thesis using that k1(1) by (simp add: greeting_def)
qed

lemma shell_init_talks:
  assumes "con_inv (kcon k)" "length (sh_buffer sh) = 256"
  obtains sh' k' where "shell_init sh k = Some (sh', k')" "talks k k'" "sh_inv sh'" "line sh' = []"
proof -
  obtain k1 where k1: "putchar_k 10 k = Some k1" "talks k k1" by (rule putchar_talks [OF assms(1)])
  obtain k2 where k2: "shell_prompt k1 = Some k2" "talks k1 k2" by (rule prompt_talks [OF talks_con [OF k1(2)]])
  have "shell_init sh k = Some (sh\<lparr>buffer_pos := 0, sh_buffer := (sh_buffer sh)[0 := 0]\<rparr>, k2)"
    using k1(1) k2(1) by (simp add: shell_init_def Let_def)
  then show thesis using that talks_trans [OF k1(2) k2(2)] emptied [OF assms(2)] by blast
qed

lemma components_up:
  assumes up: "power_on m" and mem: "memory_ok ld (mem_upper mb)" and drive: "ata_drive io view" "phase (view d) = Idle"
  obtains k1 k2 d' cp ms k3 where "init_memory ld (mem_upper mb) (kern (init_devices ld m)) = Some k1" "init_services io k1 d = Some (k2, d')"
    "tss_init (tss_at ld) 0x200000 (mcpu (init_devices ld m)) = (cp, ms)" "kprint ms k2 = Some k3"
    "kernel_inv k3 [(1240, False), (1047312, True)] [0x100000C]" "vmm_inv (kvm k3) (kpm k3)" "pmm_inv (kpm k3)"
    "sectors (view d') = sectors (view d)" "phase (view d') = Idle"
    "files (disk (kfs k3)) = (if has_fs (disk (kfs (kern m))) then files (disk (kfs (kern m))) else (\<lambda>_. None))"
    "card (free_frames (kpm k3)) + kernel_pages (kernel_end_at ld) + 258 = memory_pages (mem_upper mb)"
    "unat (kernel_end_at ld) \<le> 0x3F0000 \<Longrightarrow> program_space (kvm k3)"
proof -
  let ?m = "init_devices ld m"
  have u: "procs_shaped (ksched (kern m))" "disk_ready (disk (kfs (kern m)))" using up by (simp_all add: power_on_def)
  have con: "con_inv (kcon (kern ?m))" using up by (simp add: init_devices_eq con_inv_def serial_init_live terminal_initialize_inv power_on_def)
  obtain h vm pm c where k1: "init_memory ld (mem_upper mb) (kern ?m) = Some ((set_heap h (kern ?m))\<lparr>kvm := vm, kpm := pm, kcon := c\<rparr>)" "con_inv c"
    "vmm_inv vm pm" "pmm_inv pm" "heap_rep h [(0xFFFF4, True)]"
    "card (free_frames pm) + kernel_pages (kernel_end_at ld) + 258 = memory_pages (mem_upper mb)"
    "unat (kernel_end_at ld) \<le> 0x3F0000 \<Longrightarrow> program_space vm" by (rule init_memory_ok [OF mem con]) (rule that)
  let ?k1 = "(set_heap h (kern ?m))\<lparr>kvm := vm, kpm := pm, kcon := c\<rparr>"
  have s1: "heap_rep (kheap_of ?k1) [(0xFFFF4, True)]" "procs_shaped (ksched ?k1)" "con_inv (kcon ?k1)" "disk_ready (disk (kfs ?k1))"
    "kfs ?k1 = kfs (kern m)" "kvm ?k1 = vm" "kpm ?k1 = pm"
    using k1(2,5) u by (simp_all add: init_devices_eq procs_shaped_def set_heap_def)
  obtain k2 d' where k2: "init_services io ?k1 d = Some (k2, d')" "kernel_inv k2 [(1240, False), (1047312, True)] [0x100000C]"
    "kvm k2 = kvm ?k1" "kpm k2 = kpm ?k1" "view d' = (view d)\<lparr>r_head := 0xA0\<rparr>"
    "files (disk (kfs k2)) = (if has_fs (disk (kfs ?k1)) then files (disk (kfs ?k1)) else (\<lambda>_. None))"
    by (rule init_services_ok [OF s1(1-4) drive])
  obtain cp ms where t: "tss_init (tss_at ld) 0x200000 (mcpu ?m) = (cp, ms)" by (cases "tss_init (tss_at ld) 0x200000 (mcpu ?m)")
  then have ok: "list_all msg_ok ms" by (auto simp: tss_init_def Let_def msg_ok_def)
  obtain k3 where k3: "kprint ms k2 = Some k3" "talks k2 k3" by (rule kprint_talks [OF kernel_invD(3) [OF k2(2)] ok])
  note F = talks_fields [OF k3(2)]
  show thesis
    by (rule that [OF k1(1) k2(1) t k3(1) talks_inv [OF k3(2) k2(2)]])
      (use F k2(3-6) s1(5-7) k1(3,4,6,7) drive(2) in simp_all)
qed

lemma boots:
  assumes up: "power_on m" and mem: "memory_ok ld (mem_upper mb)" and drive: "ata_drive io view" "phase (view d) = Idle"
  obtains m' d' where "kernel_main ld io mb_magic mb m d = Some (m', d', if mb_magic = MULTIBOOT_MAGIC then Idles else Refused)"
    "machine_inv m' [(1240, False), (1047312, True)] [0x100000C]"
    "mb_magic = MULTIBOOT_MAGIC \<Longrightarrow> line (msh m') = []" "sectors (view d') = sectors (view d)" "phase (view d') = Idle"
    "files (disk (kfs (kern m'))) = (if has_fs (disk (kfs (kern m))) then files (disk (kfs (kern m))) else (\<lambda>_. None))"
    "mcpu m' = fst (tss_init (tss_at ld) 0x200000 (idt_init (idt_at ld) (isr_at ld) (irq_at ld) (gdt_init (gdt_at ld) (mcpu m))))"
    "mkb m' = mkb m" "card (free_frames (kpm (kern m'))) + kernel_pages (kernel_end_at ld) + 258 = memory_pages (mem_upper mb)"
    "unat (kernel_end_at ld) \<le> 0x3F0000 \<Longrightarrow> program_space (kvm (kern m'))"
proof -
  let ?m = "init_devices ld m"
  have u: "sh_inv (msh m)" "length (sh_buffer (msh m)) = 256" using up by (simp_all add: power_on_def sh_inv_def)
  obtain k1 k2 d' cp ms k3 where k: "init_memory ld (mem_upper mb) (kern ?m) = Some k1" "init_services io k1 d = Some (k2, d')"
    "tss_init (tss_at ld) 0x200000 (mcpu ?m) = (cp, ms)" "kprint ms k2 = Some k3"
    and k3: "kernel_inv k3 [(1240, False), (1047312, True)] [0x100000C]" "vmm_inv (kvm k3) (kpm k3)" "pmm_inv (kpm k3)"
    "sectors (view d') = sectors (view d)" "phase (view d') = Idle"
    "files (disk (kfs k3)) = (if has_fs (disk (kfs (kern m))) then files (disk (kfs (kern m))) else (\<lambda>_. None))"
    "card (free_frames (kpm k3)) + kernel_pages (kernel_end_at ld) + 258 = memory_pages (mem_upper mb)"
    "unat (kernel_end_at ld) \<le> 0x3F0000 \<Longrightarrow> program_space (kvm k3)" by (rule components_up [OF assms]) (rule that)
  have cp: "cp = fst (tss_init (tss_at ld) 0x200000 (idt_init (idt_at ld) (isr_at ld) (irq_at ld) (gdt_init (gdt_at ld) (mcpu m))))"
    using k(3) by (simp add: init_devices_eq)
  note goal = that
  have fin: thesis if r: "kernel_main ld io mb_magic mb m d = Some (m', d', if mb_magic = MULTIBOOT_MAGIC then Idles else Refused)"
    "talks k3 (kern m')" "mcpu m' = cp" "sh_inv (msh m')" "mb_magic = MULTIBOOT_MAGIC \<Longrightarrow> line (msh m') = []" "mkb m' = mkb m" for m'
    by (rule goal [OF r(1)]) (use talks_inv [OF r(2) k3(1)] talks_fields [OF r(2)] r(3-6) k3(2-8) cp in \<open>simp_all add: machine_inv_def\<close>)
  show thesis
  proof (cases "mb_magic = MULTIBOOT_MAGIC")
    case True
    obtain k4 where k4: "greeting mb k3 = Some k4" "talks k3 k4" by (rule greeting_talks [OF kernel_invD(3) [OF k3(1)]])
    obtain sh k5 where k5: "shell_init (msh m) k4 = Some (sh, k5)" "talks k4 k5" "sh_inv sh" "line sh = []"
      by (rule shell_init_talks [OF talks_con [OF k4(2)] u(2)])
    show ?thesis
      by (intro fin [of "?m\<lparr>mcpu := cp, mkb := mkb m, kern := k5, msh := sh\<rparr>"])
        (use True k k4(1) k5 talks_trans [OF k4(2) k5(2)] in \<open>simp_all add: kernel_main_def Let_def init_devices_eq(2,3) keyboard_init_def\<close>)
  next
    case False
    let ?e = "[(''ERROR: Not loaded by a multiboot bootloader!'' @ nl, [])]"
    have "list_all msg_ok ?e" by (simp add: plain_msg)
    then obtain k4 where k4: "kprint ?e (setcolor_k (vga_entry_color VGA_COLOR_RED VGA_COLOR_BLACK) k3) = Some k4" "talks k3 k4"
      by (rule print_step [OF setcolor_talks [OF kernel_invD(3) [OF k3(1)]]])
    show ?thesis
      by (intro fin [of "?m\<lparr>mcpu := cp, mkb := mkb m, kern := k4\<rparr>"])
        (use False k k4 u(1) in \<open>simp_all add: kernel_main_def Let_def init_devices_eq(2,3) keyboard_init_def\<close>)
  qed
qed

subsection \<open>Interrupts on one process\<close>

text \<open>Nothing in the kernel calls \<open>process_create\<close>: with the kernel process alone a tick changes nothing.\<close>

lemma tick_single: "sched_inv s [a] \<Longrightarrow> scheduler_tick ctx s = Some (s, None)"
  by (auto simp: sched_inv_def scheduler_tick_def Let_def skip_dead.simps [of s a])

definition acknowledged :: "registers_t \<Rightarrow> (u16 \<times> u8) list" where
  "acknowledged regs = (if reg_int_no regs \<ge> 40 then [(PIC2_COMMAND, PIC_EOI)] else []) @ [(PIC1_COMMAND, PIC_EOI)]"

lemma irq_eoi_ports: "pic_ports (irq_eoi regs c) = pic_ports c @ acknowledged regs"
  by (simp add: irq_eoi_def pic_outb_def acknowledged_def Let_def)

lemma irq_served:
  assumes inv: "machine_inv m bs [a]"
    and enter: "reg_int_no regs = 33 \<Longrightarrow> port KEYBOARD_DATA_PORT = 28 \<Longrightarrow> safe_line (kern m) bs (line (msh m))"
  obtains m' bs' where "irq_handler port ctx regs m = Some (m', Leaves Returns)" "machine_inv m' bs' [a]"
    "live 0x1000000 bs' = live 0x1000000 bs" "pic_ports (mcpu m') = pic_ports (mcpu m) @ acknowledged regs"
proof -
  have k: "kernel_inv (kern m) bs [a]" "sh_inv (msh m)" using inv by (simp_all add: machine_inv_def)
  have tick: "scheduler_tick ctx (ksched (kern m)) = Some (ksched (kern m), None)" by (rule tick_single [OF kernel_invD(6) [OF k(1)]])
  have t: "irq_handler port ctx regs m = irq_tail port regs m" using tick by (simp add: irq_handler_def)
  show thesis
  proof (cases "reg_int_no regs = 33")
    case True
    obtain kb sh k' bs' where h: "keyboard_handler port (mkb m) (msh m) (kern m) = Some (kb, sh, k', Returns)" "sh_inv sh"
      "kernel_inv k' bs' [a]" "live 0x1000000 bs' = live 0x1000000 bs" "same_pages (kern m) k'" by (rule keyboard_step [OF k enter [OF True]])
    let ?m = "m\<lparr>kern := k', msh := sh, mkb := kb, mcpu := irq_eoi regs (mcpu m)\<rparr>"
    have "irq_handler port ctx regs m = Some (?m, Leaves Returns)" using t h(1) True by (simp add: irq_tail_def)
    then show ?thesis by (rule that [OF _ _ h(4)]) (use inv h(2,3,5) irq_eoi_ports in \<open>simp_all add: machine_inv_def same_pages_def\<close>)
  next
    case False
    let ?m = "m\<lparr>mcpu := irq_eoi regs (mcpu m)\<rparr>"
    have "irq_handler port ctx regs m = Some (?m, Leaves Returns)" using t False by (simp add: irq_tail_def)
    then show ?thesis by (rule that [of ?m bs]) (use inv irq_eoi_ports in \<open>simp_all add: machine_inv_def\<close>)
  qed
qed

subsection \<open>Running a program\<close>

lemma take_stack:
  assumes inv: "kernel_inv k bs as"
  obtains h c p bs' where "kmalloc_k 4096 k = Some ((set_heap h k)\<lparr>kcon := c\<rparr>, p)" "kernel_inv ((set_heap h k)\<lparr>kcon := c\<rparr>) bs' as"
    "if p = 0 then bs' = bs else \<exists>n. 4096 \<le> n \<and> live 0x1000000 bs' = insert (unat p, n) (live 0x1000000 bs) \<and> (\<forall>j. (unat p, j) \<notin> live 0x1000000 bs)"
proof (cases "alloc_spec 4096 0x1000000 bs = None")
  case True
  note D = kernel_invD [OF inv]
  have "kmalloc 4096 (kheap_of k) = Some (kheap_of k, 0, [kmalloc_oom])" using kmalloc_spec [OF D(1), of 4096] True by (simp add: up4_def)
  moreover have "list_all msg_ok [kmalloc_oom]" by (simp add: msg_ok_def kmalloc_oom_def)
  then obtain c where "kprint [kmalloc_oom] k = Some (k\<lparr>kcon := c\<rparr>)" "con_inv c" using kprint_ok [OF D(3)] by blast
  moreover have "set_heap (kheap_of k) k = k" by (simp add: set_heap_def)
  ultimately show ?thesis using that [of c "kheap_of k" 0 bs] inv by (simp add: kmalloc_k_def kernel_inv_def)
next
  case False
  note D = kernel_invD [OF inv]
  have room: "0 < unat (4096 :: u32)" "unat (4096 :: u32) \<le> 0xFFFFFFFC" "alloc_spec (up4 (unat (4096 :: u32))) 0x1000000 bs \<noteq> None"
    using False by (simp_all add: up4_def)
  obtain h p bs' n where a: "kmalloc_k 4096 k = Some (set_heap h k, p)" "p \<noteq> 0" "heap_rep h bs'" "unat (4096 :: u32) \<le> n"
    "live 0x1000000 bs' = insert (unat p, n) (live 0x1000000 bs)" "\<And>j. (unat p, j) \<notin> live 0x1000000 bs"
    by (rule kmalloc_k_room [OF D(1) room]) (rule that)
  have "owned (ksched (set_heap h k)) bs' as" using inv a(3,5) by (fastforce simp: kernel_inv_def owned_def sched_inv_def set_heap_def)
  then have i: "kernel_inv (set_heap h k) bs' as" using inv by (simp add: kernel_inv_def set_heap_def)
  have e: "(set_heap h k)\<lparr>kcon := kcon k\<rparr> = set_heap h k" by (simp add: set_heap_def)
  have "\<exists>n. 4096 \<le> n \<and> live 0x1000000 bs' = insert (unat p, n) (live 0x1000000 bs) \<and> (\<forall>j. (unat p, j) \<notin> live 0x1000000 bs)"
    using a(4-6) by auto
  then show ?thesis using that [of "kcon k" h p bs', unfolded e, OF a(1) i] a(2) by simp
qed

lemma readable_outside:
  assumes "\<And>i. i < n \<Longrightarrow> \<not> in_window (a + of_nat i)" "kvm k' = kvm k"
  shows "readable a n k' = readable a n k"
  using assms by (intro readable_cong) (simp add: load8_def)

lemma run_program:
  assumes inv: "kernel_inv k bs as" "vmm_inv (kvm k) (kpm k)" "pmm_inv (kpm k)"
    and name: "0 \<notin> set name" "name \<noteq> []" and room: "alloc_spec 8192 0x1000000 bs \<noteq> None"
    and fl: "files (disk (kfs k)) name = Some data" "d = take 8192 data" "elf_header_ok d" "elf_tables_ok d" "gs = segments_from d 0"
    and fits: "loadable k gs"
  obtains k' bs' stk where "cmd_run name k = Some (k', Enters (f_entry d) (stk + 4096))" "kernel_inv k' bs' as"
    "vmm_inv (kvm k') (kpm k')" "pmm_inv (kpm k')"
    "\<forall>g \<in> set gs. readable (seg_vaddr g) (seg_msize g) k' = contents d g"
    "stk \<noteq> 0 \<longrightarrow> (\<exists>n \<ge> 4096. live 0x1000000 bs' = insert (unat stk, n) (live 0x1000000 bs))"
proof -
  obtain k1 b1 where e: "elf_load name 0 k = Some (k1, 0, f_entry d)" "\<forall>g \<in> set gs. readable (seg_vaddr g) (seg_msize g) k1 = contents d g"
    "kernel_inv k1 b1 as" "live 0x1000000 b1 = live 0x1000000 bs" "vmm_inv (kvm k1) (kpm k1)" "pmm_inv (kpm k1)"
    using elf_load_spec [OF inv name(1) room fl fits, of 0] by blast
  obtain h c p b2 where s: "kmalloc_k 4096 k1 = Some ((set_heap h k1)\<lparr>kcon := c\<rparr>, p)" "kernel_inv ((set_heap h k1)\<lparr>kcon := c\<rparr>) b2 as"
    "if p = 0 then b2 = b1 else \<exists>n. 4096 \<le> n \<and> live 0x1000000 b2 = insert (unat p, n) (live 0x1000000 b1) \<and> (\<forall>j. (unat p, j) \<notin> live 0x1000000 b1)"
    by (rule take_stack [OF e(3)])
  let ?k2 = "(set_heap h k1)\<lparr>kcon := c\<rparr>" and ?m = "[(''Entering ring 3 at 0x%x'' @ nl, [KInt (f_entry d)])]"
  have "list_all msg_ok ?m" by (simp add: msg_ok_def)
  then obtain k3 where k3: "kprint ?m ?k2 = Some k3" "talks ?k2 k3" by (rule kprint_talks [OF kernel_invD(3) [OF s(2)]])
  have "cmd_run name k = Some (k3, Enters (f_entry d) (p + 4096))"
    using name e(1) s(1) k3(1) by (cases name) (simp_all add: cmd_run_def char_at_def enter_usermode_def)
  moreover have "readable (seg_vaddr g) (seg_msize g) k3 = contents d g" if g: "g \<in> set gs" for g
  proof -
    have "placed (kvm k) g" using fits g by (simp add: loadable_def)
    then have "readable (seg_vaddr g) (seg_msize g) k3 = readable (seg_vaddr g) (seg_msize g) k1"
      using placed_address(3) talks_fields [OF k3(2)] by (intro readable_outside) simp_all
    then show ?thesis using e(2) g by simp
  qed
  moreover have "p \<noteq> 0 \<longrightarrow> (\<exists>n \<ge> 4096. live 0x1000000 b2 = insert (unat p, n) (live 0x1000000 bs))" using s(3) e(4) by auto
  moreover have "vmm_inv (kvm k3) (kpm k3)" "pmm_inv (kpm k3)" using talks_fields [OF k3(2)] e(5,6) by simp_all
  ultimately show thesis using that talks_inv [OF k3(2) s(2)] by blast
qed

subsection \<open>Properties\<close>


text \<open>A machine for the examples.\<close>

definition demo_link :: link_map where
  "demo_link = \<lparr>kernel_end_at = 0x20F000, page_tables_at = 0x203000, gdt_at = 0x205000, idt_at = 0x206000, tss_at = 0x207000,
     isr_at = \<lambda>i. 0x208000 + 16 * of_nat i, irq_at = \<lambda>i. 0x209000 + 16 * of_nat i\<rparr>"

definition demo_info :: multiboot_info_t where
  "demo_info = \<lparr>mb_flags = 0, mem_lower = 639, mem_upper = 129920\<rparr>"

definition demo_machine :: machine where
  "demo_machine = \<lparr>kern = \<lparr>ksched = sched_zero, kfs = fs_blank, kvm = vmm_off, kpm = pmm_boot, kcon = console_boot\<rparr>,
     mcpu = cpu_reset, msh = sh_empty, mkb = \<lparr>shift_held = 0, caps_lock = 0\<rparr>\<rparr>"

lemma demo_ready: "power_on demo_machine" "memory_ok demo_link (mem_upper demo_info)" "\<not> has_fs (disk (kfs (kern demo_machine)))"
proof -
  show n: "\<not> has_fs (disk (kfs (kern demo_machine)))" using fs_blank_ready(2) by (simp add: demo_machine_def has_fs_def)
  then show "power_on demo_machine"
    using fs_blank_ready(1) console_boot_inv sh_empty_inv(1) cpu_reset_lengths
    by (simp add: demo_machine_def power_on_def disk_ready_def con_inv_def procs_shaped_def sched_zero_def no_process_def MAX_FD_def)
  show "memory_ok demo_link (mem_upper demo_info)"
    by (simp add: memory_ok_def demo_link_def demo_info_def kernel_pages_def memory_pages_def)
qed

lemma ref_disk_idle: "phase (fst ref_disk) = Idle"
  by (simp add: ref_disk_def)


definition demo_irq :: "u32 \<Rightarrow> registers_t" where
  "demo_irq n = (user_regs 0 0 0 0)\<lparr>reg_int_no := n\<rparr>"

lemma enter_runs:
  assumes "reg_int_no regs = 33" "port KEYBOARD_DATA_PORT = 28" "shell_execute (msh m) (kern m) = Some (sh, k, Enters e stk)"
  shows "irq_handler port ctx regs m = Some (m\<lparr>kern := k, msh := sh\<rparr>, Leaves (Enters e stk))"
proof -
  have t: "table_in (mkb m) ! 28 = 10" using table_in_cases [of "mkb m"] by (auto simp: table_values)
  have h: "keyboard_handler port (mkb m) (msh m) (kern m) = keyboard_handler (\<lambda>_. of_nat 28) (mkb m) (msh m) (kern m)"
    using assms(2) by (simp add: keyboard_handler_def)
  have "keyboard_handler port (mkb m) (msh m) (kern m) = Some (mkb m, sh, k, Enters e stk)"
    unfolding h using key_press [of 28 "mkb m" "msh m" "kern m"] t assms(3) by (simp add: shell_process_char_def)
  then show ?thesis using assms(1) by (simp add: irq_handler_def irq_tail_def)
qed

lemma run_entered:
  assumes inv: "machine_inv m bs as"
    and key: "reg_int_no regs = 33" "port KEYBOARD_DATA_PORT = 28" "line (msh m) = cstr ''run '' @ name" "name \<noteq> []"
    and room: "alloc_spec 8192 0x1000000 bs \<noteq> None"
    and fl: "files (disk (kfs (kern m))) name = Some data" "d = take 8192 data" "elf_header_ok d" "elf_tables_ok d" "gs = segments_from d 0"
    and fits: "loadable (kern m) gs"
  shows "\<exists>m' bs' stk. irq_handler port ctx regs m = Some (m', Leaves (Enters (f_entry d) (stk + 4096))) \<and>
    machine_inv m' bs' as \<and> (\<forall>g \<in> set gs. readable (seg_vaddr g) (seg_msize g) (kern m') = contents d g) \<and>
    (stk \<noteq> 0 \<longrightarrow> (\<exists>n \<ge> 4096. live 0x1000000 bs' = insert (unat stk, n) (live 0x1000000 bs))) \<and>
    mcpu m' = mcpu m \<and> line (msh m') = line (msh m)"
proof -
  have k: "kernel_inv (kern m) bs as" "sh_inv (msh m)" "vmm_inv (kvm (kern m)) (kpm (kern m))" "pmm_inv (kpm (kern m))"
    using inv by (simp_all add: machine_inv_def)
  have ne: "line (msh m) \<noteq> []" using key(3) by simp
  have nz: "0 \<notin> set name" using k(2) key(3) by (auto simp: sh_inv_def)
  obtain k1 where k1: "talks (kern m) k1"
    "\<And>k2 ctl. run_command (line (msh m)) k1 = Some (k2, ctl) \<Longrightarrow> ctl \<noteq> Returns \<Longrightarrow> shell_execute (msh m) (kern m) = Some (msh m, k2, ctl)"
    by (rule execute_line [OF k(2) ne kernel_invD(3) [OF k(1)]]) (rule that)
  note F = talks_fields [OF k1(1)]
  have "vmm_inv (kvm k1) (kpm k1)" "pmm_inv (kpm k1)" "files (disk (kfs k1)) name = Some data" "loadable k1 gs"
    using F k(3,4) fl(1) fits by (simp_all add: loadable_def)
  note R = run_program [OF talks_inv [OF k1(1) k(1)] this(1,2) nz key(4) room this(3) fl(2-5) this(4)]
  obtain k2 bs' stk where r: "cmd_run name k1 = Some (k2, Enters (f_entry d) (stk + 4096))" "kernel_inv k2 bs' as"
    "vmm_inv (kvm k2) (kpm k2)" "pmm_inv (kpm k2)"
    "\<forall>g \<in> set gs. readable (seg_vaddr g) (seg_msize g) k2 = contents d g"
    "stk \<noteq> 0 \<longrightarrow> (\<exists>n \<ge> 4096. live 0x1000000 bs' = insert (unat stk, n) (live 0x1000000 bs))" by (rule R)
  have "run_command (line (msh m)) k1 = Some (k2, Enters (f_entry d) (stk + 4096))" unfolding key(3) run_command_def using r(1) by simp
  then have "shell_execute (msh m) (kern m) = Some (msh m, k2, Enters (f_entry d) (stk + 4096))" using k1(2) by blast
  then have "irq_handler port ctx regs m = Some (m\<lparr>kern := k2, msh := msh m\<rparr>, Leaves (Enters (f_entry d) (stk + 4096)))"
    by (intro enter_runs key(1,2))
  then show ?thesis
    by (intro exI [of _ "m\<lparr>kern := k2, msh := msh m\<rparr>"] exI [of _ bs'] exI [of _ stk]) (use r(2-6) k(2) in \<open>simp add: machine_inv_def\<close>)
qed



text \<open>An exception of the processor stops the machine: \<open>isr_handler\<close> prints the name and the error code in
  red and halts; nothing but the console changes.\<close>

theorem exception_halts:
  assumes "con_inv (kcon k)" "unat (reg_int_no regs) < 32"
  shows "\<exists>k'. isr_handler regs k = Some (regs, k', Halts) \<and> talks k k' \<and>
    say [(nl @ ''*** KERNEL EXCEPTION ***'' @ nl, []), (''Exception: %s'' @ nl, [KStr (Some (cstr (exception_names ! unat (reg_int_no regs))))]),
      (''Error code: %d'' @ nl, [KInt (reg_err_code regs)]), (''System halted.'' @ nl, [])] (kcon (setcolor_k 0x04 k)) = Some (kcon k')"
proof -
  let ?ms = "[(nl @ ''*** KERNEL EXCEPTION ***'' @ nl, []), (''Exception: %s'' @ nl, [KStr (Some (cstr (exception_names ! unat (reg_int_no regs))))]),
      (''Error code: %d'' @ nl, [KInt (reg_err_code regs)]), (''System halted.'' @ nl, [])]"
  have "list_all msg_ok ?ms" by (simp add: msg_ok_def)
  then obtain k' where k': "kprint ?ms (setcolor_k 0x04 k) = Some k'" "talks k k'" by (rule print_step [OF setcolor_talks [OF assms(1)]])
  have "length exception_names = 32" by (simp add: exception_names_def)
  moreover have "reg_int_no regs \<noteq> 128" using assms(2) by auto
  ultimately have "isr_handler regs k = Some (regs, k', Halts)" using k'(1) assms(2) by (simp add: isr_handler_def)
  then show ?thesis using k'(2) kprint_say [OF k'(1)] by blast
qed

theorem exception_halts_witness:
  "\<exists>k k'. isr_handler (demo_irq 14) k = Some (demo_irq 14, k', Halts) \<and> exception_names ! 14 = ''Page Fault''"
proof -
  obtain k where k: "kernel_inv k [(1240, False), (1047312, True)] [0x100000C]" by (rule kernel_demo)
  have n: "unat (reg_int_no (demo_irq 14)) < 32" by (simp add: demo_irq_def)
  have "exception_names ! 14 = ''Page Fault''" by (simp add: exception_names_def)
  then show ?thesis using exception_halts [OF kernel_invD(3) [OF k] n] by blast
qed

text \<open>C6. A timer interrupt that switches to another process is not acknowledged by the activation that
  took it: \<open>irq_handler\<close> goes on in the other process, which is not dead, and nothing has been
  written to the interrupt controllers; only the tail of the handler, run when the
  interrupted process is resumed, writes to them. A new process starts without it.\<close>

theorem timer_switch_unacknowledged:
  assumes "sched_inv (ksched (kern m)) as" "reg_int_no regs = 32" "b \<in> set as" "b \<noteq> current_process (ksched (kern m))"
    and "\<not> dead (ksched (kern m)) b"
  shows "\<exists>m' sp. irq_handler port ctx regs m = Some (m', Switches sp) \<and> mcpu m' = mcpu m \<and>
    current_process (ksched (kern m')) \<in> set as - {current_process (ksched (kern m))} \<and>
    \<not> dead (ksched (kern m)) (current_process (ksched (kern m'))) \<and> sp = esp (procs (ksched (kern m)) (current_process (ksched (kern m'))))"
proof -
  let ?s = "ksched (kern m)" and ?n = "length as"
  obtain c where c: "c < ?n" "as ! c = current_process ?s" using current_index [OF assms(1)] .
  obtain k s' r where k: "scheduler_tick ctx ?s = Some (s', r)" "0 < k" "k \<le> ?n" "current_process s' = as ! ((c + k) mod ?n)"
    "\<And>i. 0 < i \<Longrightarrow> i < k \<Longrightarrow> dead ?s (as ! ((c + i) mod ?n))" "k < ?n \<Longrightarrow> \<not> dead ?s (as ! ((c + k) mod ?n))"
    "k < ?n \<Longrightarrow> r = Some (esp (procs ?s (current_process s'))) \<and> saved ctx (kmem ?s) (current_process ?s) s' \<and>
       state (procs s' (current_process s')) = PROCESS_RUNNING"
    by (rule scheduler_tick_spec [OF assms(1) c, of ctx]) (rule that)
  obtain j where j: "j < ?n" "as ! j = b" using assms(3) by (auto simp: in_set_conv_nth)
  have "c \<noteq> j" using c(2) j(2) assms(4) by auto
  let ?d = "if c < j then j - c else ?n + j - c"
  have d: "0 < ?d" "?d < ?n" "(c + ?d) mod ?n = j" using c(1) j(1) \<open>c \<noteq> j\<close> by (auto simp: mod_if)
  have lt: "k < ?n" using k(5) [OF d(1)] d j(2) assms(5) by (metis not_le order_le_less_trans)
  have "(c + k) mod ?n \<noteq> c" using k(2) lt c(1) by (auto simp: mod_if)
  moreover have "distinct as" using assms(1) by (simp add: sched_inv_def)
  moreover have "(c + k) mod ?n < ?n" using c(1) by (intro mod_less_divisor) auto
  ultimately have "current_process s' \<noteq> current_process ?s" unfolding k(4) c(2) [symmetric] using c(1) by (simp add: nth_eq_iff_index_eq)
  moreover have "irq_handler port ctx regs m = Some (m\<lparr>kern := (kern m)\<lparr>ksched := s'\<rparr>\<rparr>, Switches (esp (procs ?s (current_process s'))))"
    using assms(2) k(1) k(7) [OF lt] by (simp add: irq_handler_def)
  moreover have "current_process s' \<in> set as" using k(4) c(1) by (intro nth_mem [of "(c + k) mod ?n" as, folded k(4)] mod_less_divisor) auto
  ultimately show ?thesis using k(4) k(6) [OF lt] by (intro exI [of _ "m\<lparr>kern := (kern m)\<lparr>ksched := s'\<rparr>\<rparr>"] exI) simp
qed

theorem timer_switch_unacknowledged_witness:
  "\<exists>m m'. ksched (kern m) = sched_demo \<and> irq_handler (\<lambda>_. 0) ([1, 2, 3, 4, 5, 6, 7, 8], 0x1F0020) (demo_irq 32) m = Some (m', Switches 0x1000F00) \<and>
     mcpu m' = mcpu m"
proof -
  define m where "m = demo_machine\<lparr>kern := (kern demo_machine)\<lparr>ksched := sched_demo\<rparr>\<rparr>"
  let ?as = "[0x1000100, 0x1000200, 0x1000300] :: u32 list"
  have s: "ksched (kern m) = sched_demo" "reg_int_no (demo_irq 32) = 32" by (simp_all add: m_def demo_irq_def)
  have b: "sched_inv (ksched (kern m)) ?as" "0x1000300 \<in> set ?as" "0x1000300 \<noteq> current_process (ksched (kern m))"
    "\<not> dead (ksched (kern m)) 0x1000300"
    using sched_demo_inv unfolding s(1) by simp_all
  obtain m' sp where m': "irq_handler (\<lambda>_. 0) ([1, 2, 3, 4, 5, 6, 7, 8], 0x1F0020) (demo_irq 32) m = Some (m', Switches sp)" "mcpu m' = mcpu m"
    "current_process (ksched (kern m')) \<in> set ?as - {current_process (ksched (kern m))}" "\<not> dead (ksched (kern m)) (current_process (ksched (kern m')))"
    "sp = esp (procs (ksched (kern m)) (current_process (ksched (kern m'))))"
    using timer_switch_unacknowledged [OF b(1) s(2) b(2-4), of "\<lambda>_. 0" "([1, 2, 3, 4, 5, 6, 7, 8], 0x1F0020)"] by blast
  have "current_process (ksched (kern m')) = 0x1000300" using m'(3,4) sched_demo_inv(2,3) unfolding s(1) by auto
  then have "sp = 0x1000F00" using m'(5) unfolding s(1) by (simp add: sched_demo_def)
  then show ?thesis using m'(1,2) s(1) by blast
qed

end
