(* ===== verification/Userlib.thy ===== *)
theory Userlib
  imports Kernel
begin

text \<open>
  The programs under \<open>user/\<close>: the system call wrappers and helpers of \<open>libash.h\<close> and the programs
  \<open>hello.c\<close>, \<open>readfile.c\<close> and \<open>usertest.c\<close>. A program acts on the kernel through interrupt 128 only
  and reads its own memory through the page tables; the addresses of its string literals and of
  its array are parameters. A wrapper is \<open>None\<close> when the interrupt does not return to the
  program, and \<open>sys_exit\<close> when it does, because an endless loop follows it.
\<close>

subsection \<open>System call wrappers\<close>

text \<open>The interrupt with four registers set; the handler reads no other.\<close>

definition int80 :: "u32 \<Rightarrow> u32 \<Rightarrow> u32 \<Rightarrow> u32 \<Rightarrow> kernel \<Rightarrow> (u32 \<times> kernel \<times> control) option" where
  "int80 eax ebx ecx edx k = do { (regs, k, ctl) \<leftarrow> isr_handler (user_regs eax ebx ecx edx) k; Some (reg_eax regs, k, ctl) }"

definition call :: "u32 \<Rightarrow> u32 \<Rightarrow> u32 \<Rightarrow> u32 \<Rightarrow> kernel \<Rightarrow> (u32 \<times> kernel) option" where
  "call eax ebx ecx edx k =
     do { (r, k, ctl) \<leftarrow> int80 eax ebx ecx edx k; if ctl = Returns then Some (r, k) else None }"

definition sys_exit :: "u32 \<Rightarrow> kernel \<Rightarrow> (kernel \<times> control) option" where
  "sys_exit code k =
     do { (r, k, ctl) \<leftarrow> int80 SYS_EXIT code 0 0 k; if ctl = Returns then None else Some (k, ctl) }"

definition sys_write :: "u32 \<Rightarrow> u32 \<Rightarrow> kernel \<Rightarrow> (u32 \<times> kernel) option" where
  "sys_write str len = call SYS_WRITE 1 str len"

definition sys_open :: "u32 \<Rightarrow> kernel \<Rightarrow> (u32 \<times> kernel) option" where
  "sys_open filename = call SYS_OPEN filename 0 0"

definition sys_read_fd :: "u32 \<Rightarrow> u32 \<Rightarrow> u32 \<Rightarrow> kernel \<Rightarrow> (u32 \<times> kernel) option" where
  "sys_read_fd fd buf sz = call SYS_READ fd buf sz"

definition sys_close :: "u32 \<Rightarrow> kernel \<Rightarrow> kernel option" where
  "sys_close fd k = do { (r, k) \<leftarrow> call SYS_CLOSE fd 0 0 k; Some k }"

subsection \<open>Helpers\<close>

text \<open>The loop of \<open>strlen\<close>; without a terminator it does not end, or faults.\<close>

partial_function (option) user_strlen :: "u32 \<Rightarrow> u32 \<Rightarrow> kernel \<Rightarrow> u32 option" where
  "user_strlen str len k =
     do { c \<leftarrow> load8 (str + len) k; if c \<noteq> 0 then user_strlen str (len + 1) k else Some len }"

definition user_print :: "u32 \<Rightarrow> kernel \<Rightarrow> kernel option" where
  "user_print str k =
     do { len \<leftarrow> user_strlen str 0 k; (r, k) \<leftarrow> sys_write str len k; Some k }"

definition user_println :: "u32 \<Rightarrow> u32 \<Rightarrow> kernel \<Rightarrow> kernel option" where
  "user_println newline str k =
     do { k \<leftarrow> user_print str k; (r, k) \<leftarrow> sys_write newline 1 k; Some k }"

subsection \<open>Programs\<close>

definition hello_main :: "u32 \<Rightarrow> u32 \<Rightarrow> u32 \<Rightarrow> kernel \<Rightarrow> (kernel \<times> control) option" where
  "hello_main newline hello_str libash_str k =
     do { k \<leftarrow> user_println newline hello_str k;
          k \<leftarrow> user_println newline libash_str k;
          sys_exit 0 k }"

text \<open>Signed comparisons of the results, as \<open>int\<close> variables.\<close>

record readfile_mem =
  rf_newline :: u32
  rf_name :: u32
  rf_error :: u32
  rf_title :: u32
  rf_buf :: u32

definition readfile_start :: "readfile_mem \<Rightarrow> kernel \<Rightarrow> (kernel \<times> control) option" where
  "readfile_start p k =
     do { (fd, k) \<leftarrow> sys_open (rf_name p) k;
          if sint fd < 0
          then do { k \<leftarrow> user_println (rf_newline p) (rf_error p) k; sys_exit 1 k }
          else do { (n, k) \<leftarrow> sys_read_fd fd (rf_buf p) 255 k;
                    k \<leftarrow> (if sint n > 0
                         then do { k \<leftarrow> store8 (rf_buf p + n) 0 k;
                                   k \<leftarrow> user_print (rf_title p) k;
                                   user_println (rf_newline p) (rf_buf p) k }
                         else Some k);
                    k \<leftarrow> sys_close fd k;
                    sys_exit 0 k } }"

text \<open>\<open>usertest.c\<close> has wrappers of its own; its write goes to descriptor 0.\<close>

definition usertest_write :: "u32 \<Rightarrow> u32 \<Rightarrow> kernel \<Rightarrow> kernel option" where
  "usertest_write str len k = do { (r, k) \<leftarrow> call 1 0 str len k; Some k }"

definition user_program :: "u32 \<Rightarrow> u32 \<Rightarrow> kernel \<Rightarrow> (kernel \<times> control) option" where
  "user_program ring3_str program_str k =
     do { k \<leftarrow> usertest_write ring3_str 19 k;
          k \<leftarrow> usertest_write program_str 26 k;
          (r, k, ctl) \<leftarrow> int80 0 0 0 0 k;
          if ctl = Returns then None else Some (k, ctl) }"

subsection \<open>What a program prints\<close>

text \<open>A terminated string in the memory of the program, outside the kernel's heap.\<close>

definition literal :: "kernel \<Rightarrow> u32 \<Rightarrow> bytes \<Rightarrow> bool" where
  "literal k a s \<longleftrightarrow> holds k a (s @ [0]) \<and> 0 \<notin> set s \<and> length s < 4294967295 \<and> (\<forall>i \<le> length s. \<not> in_window (a + of_nat i))"

lemma literal_cong: "kvm k' = kvm k \<Longrightarrow> literal k a s \<Longrightarrow> literal k' a s"
  by (auto simp: literal_def holds_def load8_def less_Suc_eq_le)

lemma strlen_literal:
  assumes "literal k a s" "n \<le> length s"
  shows "user_strlen a (of_nat n) k = Some (of_nat (length s))"
  using assms(2)
proof (induction "length s - n" arbitrary: n)
  case 0
  then have "n = length s" by simp
  moreover have "load8 (a + of_nat (length s)) k = Some 0" using assms(1) by (auto simp: literal_def holds_def dest: spec [of _ "length s"])
  ultimately show ?case by (simp add: user_strlen.simps [of a "of_nat (length s)"])
next
  case (Suc d)
  then have n: "n < length s" by simp
  then have c: "load8 (a + of_nat n) k = Some (s ! n)" using assms(1) by (auto simp: literal_def holds_def nth_append dest: spec [of _ n])
  have "s ! n \<noteq> 0" using assms(1) n by (auto simp: literal_def in_set_conv_nth)
  moreover have "user_strlen a (of_nat (Suc n)) k = Some (of_nat (length s))" using Suc.hyps(2) n by (intro Suc.hyps(1)) simp_all
  ultimately show ?case using c by (subst user_strlen.simps) (simp add: add.commute)
qed

text \<open>The characters of a write reach the terminal in order.\<close>

lemma write_chars_holds:
  assumes "holds k a s" "con_inv (kcon k)"
  obtains t where "terminal_write s (tty (kcon k)) = Some t" "term_inv t"
    "write_chars a (length s) k = Some (k\<lparr>kcon := (kcon k)\<lparr>tty := t\<rparr>\<rparr>)"
proof -
  have "\<exists>t. terminal_write s (tty (kcon k)) = Some t \<and> term_inv t \<and> write_chars a (length s) k = Some (k\<lparr>kcon := (kcon k)\<lparr>tty := t\<rparr>\<rparr>)"
    using assms
  proof (induction s arbitrary: a k)
    case Nil
    then show ?case by (simp add: con_inv_def)
  next
    case (Cons c s)
    obtain t where t: "terminal_putchar c (tty (kcon k)) = Some t" "term_inv t"
      using terminal_putchar_inv Cons.prems(2) by (auto simp: con_inv_def)
    let ?k = "k\<lparr>kcon := (kcon k)\<lparr>tty := t\<rparr>\<rparr>"
    have c: "load8 a k = Some c" using Cons.prems(1) by (auto simp: holds_def dest: spec [of _ 0])
    have "holds ?k (a + 1) s" unfolding holds_def
    proof (intro allI impI)
      fix i assume "i < length s"
      then show "load8 (a + 1 + of_nat i) ?k = Some (s ! i)" using Cons.prems(1) by (auto simp: holds_def add.assoc dest: spec [of _ "Suc i"])
    qed
    moreover have "con_inv (kcon ?k)" using Cons.prems(2) t(2) by (simp add: con_inv_def)
    ultimately obtain t2 where "terminal_write s (tty (kcon ?k)) = Some t2" "term_inv t2"
      "write_chars (a + 1) (length s) ?k = Some (?k\<lparr>kcon := (kcon ?k)\<lparr>tty := t2\<rparr>\<rparr>)" using Cons.IH by blast
    then show ?case using c t(1) by simp
  qed
  then show thesis using that by blast
qed

lemma sys_write_holds:
  assumes "kernel_inv k bs as" "holds k a s" "length s < 4294967296"
  obtains t where "terminal_write s (tty (kcon k)) = Some t" "sys_write a (of_nat (length s)) k = Some (of_nat (length s), k\<lparr>kcon := (kcon k)\<lparr>tty := t\<rparr>\<rparr>)"
    "kernel_inv (k\<lparr>kcon := (kcon k)\<lparr>tty := t\<rparr>\<rparr>) bs as"
proof -
  note D = kernel_invD(3) [OF assms(1)]
  obtain t where t: "terminal_write s (tty (kcon k)) = Some t" "term_inv t"
    "write_chars a (length s) k = Some (k\<lparr>kcon := (kcon k)\<lparr>tty := t\<rparr>\<rparr>)" by (rule write_chars_holds [OF assms(2) D])
  have "unat (of_nat (length s) :: u32) = length s" using assms(3) by (rule unat_of_nat_u32)
  then have "sys_write a (of_nat (length s)) k = Some (of_nat (length s), k\<lparr>kcon := (kcon k)\<lparr>tty := t\<rparr>\<rparr>)"
    using t(3) by (simp add: sys_write_def call_def int80_def isr_handler_def user_regs_def syscall_handler_def syscall_write_def const_defs Let_def)
  moreover have "kernel_inv (k\<lparr>kcon := (kcon k)\<lparr>tty := t\<rparr>\<rparr>) bs as" using assms(1) t(2) by (simp add: kernel_inv_def con_inv_def)
  ultimately show thesis using that t(1) by blast
qed

lemma print_literal:
  assumes "kernel_inv k bs as" "literal k a s"
  obtains t where "terminal_write s (tty (kcon k)) = Some t" "user_print a k = Some (k\<lparr>kcon := (kcon k)\<lparr>tty := t\<rparr>\<rparr>)"
    "kernel_inv (k\<lparr>kcon := (kcon k)\<lparr>tty := t\<rparr>\<rparr>) bs as"
proof -
  have "holds k a s" using assms(2) by (auto simp: literal_def holds_def nth_append dest: spec)
  moreover have "length s < 4294967296" using assms(2) by (simp add: literal_def)
  ultimately obtain t where t: "terminal_write s (tty (kcon k)) = Some t" "sys_write a (of_nat (length s)) k = Some (of_nat (length s), k\<lparr>kcon := (kcon k)\<lparr>tty := t\<rparr>\<rparr>)"
    "kernel_inv (k\<lparr>kcon := (kcon k)\<lparr>tty := t\<rparr>\<rparr>) bs as" by (rule sys_write_holds [OF assms(1)])
  moreover have "user_strlen a 0 k = Some (of_nat (length s))" using strlen_literal [OF assms(2), of 0] by simp
  ultimately show thesis using that by (simp add: user_print_def)
qed

lemma terminal_write_append: "terminal_write (a @ b) t = do { t \<leftarrow> terminal_write a t; terminal_write b t }"
proof (induction a arbitrary: t)
  case (Cons c a)
  then show ?case by (cases "terminal_putchar c t") auto
qed simp

lemma println_literal:
  assumes inv: "kernel_inv k bs as" and lits: "literal k a s" "literal k newline [10]"
  obtains t where "terminal_write (s @ [10]) (tty (kcon k)) = Some t" "user_println newline a k = Some (k\<lparr>kcon := (kcon k)\<lparr>tty := t\<rparr>\<rparr>)"
    "kernel_inv (k\<lparr>kcon := (kcon k)\<lparr>tty := t\<rparr>\<rparr>) bs as"
proof -
  obtain t1 where t1: "terminal_write s (tty (kcon k)) = Some t1" "user_print a k = Some (k\<lparr>kcon := (kcon k)\<lparr>tty := t1\<rparr>\<rparr>)"
    "kernel_inv (k\<lparr>kcon := (kcon k)\<lparr>tty := t1\<rparr>\<rparr>) bs as" by (rule print_literal [OF inv lits(1)])
  let ?k = "k\<lparr>kcon := (kcon k)\<lparr>tty := t1\<rparr>\<rparr>"
  have "literal ?k newline [10]" using literal_cong [of ?k k] lits(2) by simp
  then have "holds ?k newline [10]" by (auto simp: literal_def holds_def dest: spec [of _ 0])
  then obtain t2 where t2: "terminal_write [10] (tty (kcon ?k)) = Some t2"
    "sys_write newline (of_nat (length [10 :: u8])) ?k = Some (of_nat (length [10 :: u8]), ?k\<lparr>kcon := (kcon ?k)\<lparr>tty := t2\<rparr>\<rparr>)"
    "kernel_inv (?k\<lparr>kcon := (kcon ?k)\<lparr>tty := t2\<rparr>\<rparr>) bs as" using sys_write_holds [OF t1(3), of newline "[10]"] by auto
  then show thesis using that [of t2] t1(1,2) by (simp add: terminal_write_append user_println_def)
qed

lemma exit_halts:
  assumes "kernel_inv k bs as"
  obtains k' where "sys_exit code k = Some (k', Halts)" "kernel_inv k' bs as" "dead (ksched k') (current_process (ksched k'))"
    "say [(''[PID %d exited with code %d]'' @ nl, [KInt (pid (procs (ksched k) (current_process (ksched k)))), KInt code])] (kcon k) = Some (kcon k')"
    "kfs k' = kfs k" "current_process (ksched k') = current_process (ksched k)"
proof -
  let ?r = "user_regs SYS_EXIT code 0 0"
  obtain k' where k': "syscall_exit ?r k = Some (?r, k', Halts)" "kernel_inv k' bs as" "dead (ksched k') (current_process (ksched k'))"
    "current_process (ksched k') = current_process (ksched k)" "kfs k' = kfs k" by (rule syscall_exit_inv [OF assms])
  have "sys_exit code k = Some (k', Halts)"
    using k'(1) by (simp add: sys_exit_def int80_def isr_handler_def syscall_handler_def user_regs_def)
  moreover have "say [(''[PID %d exited with code %d]'' @ nl, [KInt (pid (procs (ksched k) (current_process (ksched k)))), KInt code])] (kcon k) = Some (kcon k')"
    using k'(1) kernel_invD(4) [OF assms] by (auto simp: syscall_exit_def user_regs_def bind_eq_Some_conv kprint_def simp del: say.simps)
  ultimately show thesis using that k'(2-5) by blast
qed

lemma holds_literal: "literal k a s \<Longrightarrow> readable a (length s + 1) k = s @ [0]"
  using holds_readable [of a "s @ [0]" k] by (simp add: literal_def del: readable.simps)

lemma open_missing:
  assumes inv: "kernel_inv k bs as" and name: "literal k a name" "length name \<le> 63" "files (disk (kfs k)) name = None"
    and room: "alloc_spec 512 0x1000000 bs \<noteq> None"
  obtains k' bs' where "sys_open a k = Some (-1, k')" "kernel_inv k' bs' as" "kfs k' = kfs k" "kvm k' = kvm k"
proof -
  let ?r = "user_regs SYS_OPEN a 0 0"
  have nm: "readable (reg_ebx ?r) (length name + 1) k = name @ [0]" "0 \<notin> set name"
    using holds_literal [OF name(1)] name(1) by (simp_all add: user_regs_def literal_def del: readable.simps)
  obtain k' bs' where "syscall_open ?r k = Some (?r\<lparr>reg_eax := -1\<rparr>, k', Returns)" "kernel_inv k' bs' as" "kfs k' = kfs k" "kvm k' = kvm k"
    by (rule syscall_open_missing [OF inv nm name(2,3) room]) (rule that)
  moreover from this(1) have "sys_open a k = Some (-1, k')"
    by (simp add: sys_open_def call_def int80_def isr_handler_def syscall_handler_def user_regs_def const_defs)
  ultimately show thesis using that by blast
qed

lemma write_to_missing:
  assumes inv: "kernel_inv k bs as" and fd: "fd_used (cur_fds k ! 0) \<noteq> 0" "fd_cstr (cur_fds k ! 0) = Some name" "files (disk (kfs k)) name = None"
  obtains k' where "usertest_write str len k = Some k'" "talks k k'" "say [not_found name] (kcon k) = Some (kcon k')"
proof -
  note D = kernel_invD [OF inv]
  have "inode_find name (disk (kfs k)) = -1"
    using D(2) fd_cstr_no_zero [OF fd(2)] fd(3) by (intro inode_find_missing) (simp_all add: fs_inv_def)
  then have w: "fs_write name x len (kfs k) = Some (kfs k, -1, [not_found name])" for x by (simp add: fs_write_def)
  have "list_all msg_ok [not_found name]" by (simp add: msg_ok_not_found)
  then obtain k' where k': "kprint [not_found name] k = Some k'" "talks k k'" by (rule kprint_talks [OF D(3)])
  have "k\<lparr>kfs := kfs k\<rparr> = k" by simp
  then have "fs_write_k name str len k = Some (k', -1)" using w k'(1) by (simp add: fs_write_k_def)
  then have "usertest_write str len k = Some k'"
    using fd D(4) by (simp add: usertest_write_def call_def int80_def isr_handler_def syscall_handler_def user_regs_def syscall_write_def
        const_defs Let_def)
  then show thesis using that k'(2) kprint_say [OF k'(1)] by blast
qed

subsection \<open>A program's buffer\<close>

text \<open>A literal that shares no byte with a buffer survives what is stored there.\<close>

definition clear_of :: "kernel \<Rightarrow> u32 \<Rightarrow> bytes \<Rightarrow> (nat \<Rightarrow> u32) \<Rightarrow> nat \<Rightarrow> bool" where
  "clear_of k a s pa n \<longleftrightarrow> (\<forall>i \<le> length s. \<forall>j < n. mmu_walk (kvm k) (a + of_nat i) \<noteq> Some (pa j))"

lemma literal_kept:
  assumes lit: "literal k a s" "clear_of k a s pa n" and pg: "paging (kvm k)"
    and k': "k' = k\<lparr>kvm := (kvm k)\<lparr>pmem := m\<rparr>\<rparr>" "same_map (kvm k) (kvm k')"
    and frame: "\<And>q. (\<forall>i < n. q \<noteq> pa i) \<Longrightarrow> phys_byte m q = phys_byte (pmem (kvm k)) q"
  shows "literal k' a s"
proof -
  have "load8 (a + of_nat i) k' = load8 (a + of_nat i) k" if "i \<le> length s" for i
  proof -
    have w: "\<not> in_window (a + of_nat i)" using lit(1) that by (simp add: literal_def)
    have e: "mmu_walk (kvm k') (a + of_nat i) = mmu_walk (kvm k) (a + of_nat i)" using k'(2) by (simp add: same_map_def)
    show ?thesis
    proof (cases "mmu_walk (kvm k) (a + of_nat i)")
      case None
      then show ?thesis using w e pg k'(1) by (simp add: load8_def kaddr_def)
    next
      case (Some q)
      then have "\<forall>j < n. q \<noteq> pa j" using lit(2) that by (auto simp: clear_of_def)
      then show ?thesis using frame [of q] Some w e pg k'(1) by (simp add: load8_def kaddr_def phys_byte_def)
    qed
  qed
  then show ?thesis using lit(1) by (simp add: literal_def holds_def less_Suc_eq_le)
qed

text \<open>Terminating the text read into a buffer, as \<open>buf[bytes] = 0\<close> does, makes it a literal.\<close>

lemma terminate_buffer:
  assumes m: "mapped k buf (Suc n) pa" and s: "readable buf (length s) k = s" "0 \<notin> set s" "length s \<le> n" "n < 4294967294"
  obtains k' where "store8 (buf + of_nat (length s)) 0 k = Some k'" "literal k' buf s" "page_effect k buf (Suc n) k'"
proof -
  let ?q = "pa (length s)"
  let ?k = "k\<lparr>kvm := (kvm k)\<lparr>pmem := put_at ?q 0 (pmem (kvm k))\<rparr>\<rparr>"
  have le: "length s < Suc n" using s(3) by simp
  have a: "\<not> in_window (buf + of_nat i)" "mmu_walk (kvm k) (buf + of_nat i) = Some (pa i)" "no_table (kvm k) (pa i)" "paging (kvm k)"
    if "i < Suc n" for i using m that by (auto simp: mapped_def)
  have st: "store8 (buf + of_nat (length s)) 0 k = Some ?k" using a [OF le] by (simp add: store8_def kaddr_def)
  have same: "same_map (kvm k) (kvm ?k)" using walk_put_at [OF a(3) [OF le]] by (simp add: same_map_def)
  have mk: "mapped ?k buf (Suc n) pa" using m mapped_same [OF same] by blast
  have h: "holds k buf s" using s(1) holds_readable by blast
  have "load8 (buf + of_nat i) ?k = Some ((s @ [0]) ! i)" if i: "i < length (s @ [0])" for i
  proof (cases "i = length s")
    case True
    then show ?thesis using load8_mapped [OF mk le] by (simp add: phys_byte_put_at)
  next
    case False
    then have "i < length s" "pa i \<noteq> ?q" using i m s(3) by (auto simp: mapped_def inj_on_def)
    then show ?thesis using load8_mapped [OF mk, of i] load8_mapped [OF m, of i] h s(3) by (simp add: phys_byte_put_at holds_def nth_append)
  qed
  then have "holds ?k buf (s @ [0])" by (simp add: holds_def)
  then have lit: "literal ?k buf s" using s(2,3,4) a(1) by (simp add: literal_def)
  have "pa' (length s) = ?q" if "mapped k buf (Suc n) pa'" for pa'
    using that a(2) [OF le] le by (simp add: mapped_def)
  then have "page_effect k buf (Suc n) ?k" unfolding page_effect_def using same le
    by (intro exI [of _ "put_at ?q 0 (pmem (kvm k))"]) (auto simp: phys_byte_put_at)
  then show thesis using that st lit by blast
qed

lemma open_found:
  assumes inv: "kernel_inv k bs as" and name: "literal k a name" "length name \<le> 63" "files (disk (kfs k)) name = Some data"
    and fd: "find_fd (drop 3 (cur_fds k)) 3 = Some fd" and room: "alloc_spec 512 0x1000000 bs \<noteq> None"
  obtains k' bs' where "sys_open a k = Some (of_nat fd, k')" "kernel_inv k' bs' as" "kfs k' = kfs k" "kvm k' = kvm k"
    "fd < 16" "3 \<le> fd" "fd_used (cur_fds k' ! fd) \<noteq> 0" "fd_cstr (cur_fds k' ! fd) = Some name"
proof -
  let ?r = "user_regs SYS_OPEN a 0 0"
  note D = kernel_invD [OF inv]
  have nm: "readable (reg_ebx ?r) (length name + 1) k = name @ [0]" "0 \<notin> set name"
    using holds_literal [OF name(1)] name(1) by (simp_all add: user_regs_def literal_def del: readable.simps)
  obtain k' bs' h c where k': "syscall_open ?r k = Some (?r\<lparr>reg_eax := of_nat fd\<rparr>, k', Returns)" "kernel_inv k' bs' as" "kfs k' = kfs k"
    "cur_fds k' = (cur_fds k)[fd := opened name (min 512 (length data)) (cur_fds k ! fd)]"
    "k' = set_fd fd (opened name (min 512 (length data)) (cur_fds k ! fd)) ((set_heap h k)\<lparr>kcon := c\<rparr>)"
    by (rule syscall_open_found [OF inv nm name(2,3) fd room])
  have f: "3 \<le> fd" "fd < 16" using fd find_free_fd [OF D(5)] by auto
  have l: "length (cur_fds k) = 16" "length (fd_name (cur_fds k ! fd)) = 64" using D(5) f by (simp_all add: fds_ok_def)
  have "sys_open a k = Some (of_nat fd, k')"
    using k'(1) by (simp add: sys_open_def call_def int80_def isr_handler_def syscall_handler_def user_regs_def const_defs)
  moreover have "kvm k' = kvm k" unfolding k'(5) by simp
  ultimately show thesis using that k'(2-4) f l opened_ok(2,4) [OF l(2) name(2) nm(2), of "min 512 (length data)"] by simp
qed

lemma close_returns:
  assumes "kernel_inv k bs as" "3 \<le> fd" "fd < 16"
  obtains k' where "sys_close (of_nat fd) k = Some k'" "kernel_inv k' bs as" "kcon k' = kcon k" "kfs k' = kfs k"
    "current_process (ksched k') = current_process (ksched k)" "pid (procs (ksched k') (current_process (ksched k))) = pid (procs (ksched k) (current_process (ksched k)))"
proof -
  let ?r = "user_regs SYS_CLOSE (of_nat fd) 0 0"
  note D = kernel_invD [OF assms(1)]
  have u: "unat (of_nat fd :: u32) = fd" using assms(3) by (intro unat_of_nat_u32) simp
  have ge: "(3 :: u32) \<le> of_nat fd" using assms(2) u by (simp add: word_le_nat_alt)
  have "\<exists>r k'. syscall_close ?r k = Some (r, k', Returns) \<and> (k' = k \<or> k' = set_fd fd ((cur_fds k ! fd)\<lparr>fd_used := 0\<rparr>) k)"
    using D(4) assms(3) u ge by (cases "fd_used (cur_fds k ! fd) = 0") (simp_all add: syscall_close_def Let_def user_regs_def MAX_FD_def)
  then obtain r k' where k': "syscall_close ?r k = Some (r, k', Returns)" "k' = k \<or> k' = set_fd fd ((cur_fds k ! fd)\<lparr>fd_used := 0\<rparr>) k"
    by blast
  have "sys_close (of_nat fd) k = Some k'"
    using k'(1) by (simp add: sys_close_def call_def int80_def isr_handler_def syscall_handler_def user_regs_def const_defs)
  moreover have "kernel_inv k' bs as" by (rule syscall_close_inv [OF assms(1) k'(1)])
  ultimately show thesis using that k'(2) by (auto simp: set_fd_def Let_def)
qed


text \<open>Reading through a descriptor into the program's memory.\<close>

lemma read_into_page:
  assumes inv: "kernel_inv k bs as" and fd: "fd < 16" "fd_used (cur_fds k ! fd) \<noteq> 0" "fd_cstr (cur_fds k ! fd) = Some name"
    and data: "files (disk (kfs k)) name = Some data" and buf: "mapped k a (unat sz) pa"
  obtains k' where "sys_read_fd (of_nat fd) a sz k = Some (of_nat (min (unat sz) (length data)), k')" "page_effect k a (unat sz) k'"
    "readable a (min (unat sz) (length data)) k' = take (unat sz) data" "kernel_inv k' bs as"
proof -
  let ?r = "user_regs SYS_READ (of_nat fd) a sz"
  have u: "unat (of_nat fd :: u32) = fd" using fd(1) by (intro unat_of_nat_u32) simp
  have "page_region k (reg_ecx ?r) (unat (reg_edx ?r))" using buf by (auto simp: page_region_def user_regs_def)
  then obtain k' where k': "syscall_read ?r k = Some (?r\<lparr>reg_eax := of_nat (min (unat sz) (length data))\<rparr>, k', Returns)"
    "page_effect k a (unat sz) k'" "readable a (min (unat sz) (length data)) k' = take (unat sz) data"
    using pages.syscall_read_found [OF inv, of ?r name data] fd data u by (auto simp: user_regs_def simp del: readable.simps)
  moreover have "sys_read_fd (of_nat fd) a sz k = Some (of_nat (min (unat sz) (length data)), k')"
    using k'(1) by (simp add: sys_read_fd_def call_def int80_def isr_handler_def syscall_handler_def user_regs_def const_defs)
  moreover have "kernel_inv k' bs as" using read_buffer_inv(1) [OF inv disjI1, OF k'(2)] .
  ultimately show thesis using that by blast
qed

lemma page_effect_literal:
  assumes "page_effect k buf n k'" "mapped k buf n pa" "literal k a s" "clear_of k a s pa n"
  shows "literal k' a s" "clear_of k' a s pa n"
proof -
  obtain m where m: "k' = k\<lparr>kvm := (kvm k)\<lparr>pmem := m\<rparr>\<rparr>" "same_map (kvm k) (kvm k')"
    "\<And>q. (\<forall>i < n. q \<noteq> pa i) \<Longrightarrow> phys_byte m q = phys_byte (pmem (kvm k)) q" using assms(1,2) by (auto simp: page_effect_def)
  have "paging (kvm k)" using assms(2) by (simp add: mapped_def)
  then show "literal k' a s" using literal_kept [OF assms(3,4) _ m] by blast
  show "clear_of k' a s pa n" using assms(4) m(2) by (simp add: clear_of_def same_map_def)
qed

lemma page_effect_mapped: "page_effect k a n k' \<Longrightarrow> mapped k' b m pa = mapped k b m pa"
  using mapped_same by (auto simp: page_effect_def)

lemma clear_of_less: "clear_of k a s pa n \<Longrightarrow> m \<le> n \<Longrightarrow> clear_of k a s pa m"
  by (auto simp: clear_of_def)

text \<open>The middle of \<open>readfile.c\<close>: the file's text arrives in the array, terminated, and the literals are still there.\<close>

lemma readfile_text:
  assumes inv: "kernel_inv k bs as" and fd: "fd < 16" "fd_used (cur_fds k ! fd) \<noteq> 0" "fd_cstr (cur_fds k ! fd) = Some name"
    and data: "files (disk (kfs k)) name = Some data" "0 \<notin> set (take 255 data)" and buf: "mapped k a 256 pa"
    and lits: "literal k b s" "clear_of k b s pa 256" "literal k c t" "clear_of k c t pa 256"
  obtains k1 k2 where "sys_read_fd (of_nat fd) a 255 k = Some (of_nat (min 255 (length data)), k1)"
    "store8 (a + of_nat (min 255 (length data))) 0 k1 = Some k2" "literal k2 a (take 255 data)" "literal k2 b s" "literal k2 c t"
    "kernel_inv k2 bs as" "kfs k2 = kfs k" "kcon k2 = kcon k" "ksched k2 = ksched k"
proof -
  have m1: "mapped k a (unat (255 :: u32)) pa" using mapped_take [OF buf] by simp
  obtain k1 where k1: "sys_read_fd (of_nat fd) a 255 k = Some (of_nat (min 255 (length data)), k1)" "page_effect k a 255 k1"
    "readable a (min 255 (length data)) k1 = take 255 data" "kernel_inv k1 bs as"
    using read_into_page [OF inv fd data(1) m1] by auto
  have m2: "mapped k1 a (Suc 255) pa" using buf page_effect_mapped [OF k1(2)] by simp
  have rd: "readable a (length (take 255 data)) k1 = take 255 data" using k1(3) by (simp add: min.commute)
  have len: "length (take 255 data) \<le> 255" "(255 :: nat) < 4294967294" by simp_all
  obtain k2 where k2: "store8 (a + of_nat (length (take 255 data))) 0 k1 = Some k2" "literal k2 a (take 255 data)" "page_effect k1 a (Suc 255) k2"
    by (rule terminate_buffer [OF m2 rd data(2) len])
  have l1: "literal k1 b s" "literal k1 c t" "clear_of k1 b s pa 256" "clear_of k1 c t pa 256"
    using page_effect_literal(1) [OF k1(2) _ lits(1) clear_of_less [OF lits(2)]] page_effect_literal(1) [OF k1(2) _ lits(3) clear_of_less [OF lits(4)]]
      m1 k1(2) lits(2,4) by (auto simp: clear_of_def page_effect_def same_map_def)
  have l2: "literal k2 b s" "literal k2 c t"
    using page_effect_literal(1) [OF k2(3) m2 l1(1)] page_effect_literal(1) [OF k2(3) m2 l1(2)] l1(3,4) by simp_all
  have "kernel_inv k2 bs as" using read_buffer_inv(1) [OF k1(4) disjI1, OF k2(3)] .
  moreover have "kfs k2 = kfs k" "kcon k2 = kcon k" "ksched k2 = ksched k" using k1(2) k2(3) by (auto simp: page_effect_def)
  ultimately show thesis using that k1(1) k2(1,2) l2 by (simp add: min.commute)
qed


subsection \<open>Examples\<close>

text \<open>A kernel for the examples, with strings in an identity-mapped page.\<close>

lemma demo_page:
  assumes "i < 4096"
  shows "unat (0x300000 + of_nat i :: u32) = 0x300000 + i" "\<not> in_window (0x300000 + of_nat i)"
    "mmu_walk vmm_boot (0x300000 + of_nat i) = Some (0x300000 + of_nat i)" "no_table vmm_boot (0x300000 + of_nat i)"
proof -
  let ?a = "0x300000 + of_nat i :: u32"
  show u: "unat ?a = 0x300000 + i" using assms by (subst unat_add_u32) (simp_all add: unat_of_nat_u32)
  have v: "vpage ?a = 768" unfolding u using assms by simp
  show "\<not> in_window ?a" using in_window_page [of ?a] v by auto
  show "mmu_walk vmm_boot ?a = Some ?a" using vmm_boot_state(5) [of ?a] u v assms by simp
  have "vpage (frame_of ?a) = 768" using v by (simp add: unat_frame)
  then have "frame_of ?a \<noteq> 0x203000" "frame_of ?a \<noteq> 0x204000" by auto
  then show "no_table vmm_boot ?a" unfolding no_table_def using vmm_boot_state(6,7,8) by (auto simp: less_2_cases_iff)
qed

lemma demo_mapped:
  assumes "kvm k = vmm_boot"
  shows "mapped k 0x300000 4096 (\<lambda>i. 0x300000 + of_nat i)"
proof -
  have "paging vmm_boot" using vmm_boot_state(2) by (simp add: vmm_inv_def)
  moreover have "inj_on (\<lambda>i. 0x300000 + of_nat i :: u32) {..<4096}"
  proof (rule inj_onI)
    fix x y assume h: "x \<in> {..<4096}" "y \<in> {..<4096}" "0x300000 + of_nat x = (0x300000 + of_nat y :: u32)"
    from h(3) have "unat (0x300000 + of_nat x :: u32) = unat (0x300000 + of_nat y :: u32)" by (rule arg_cong)
    moreover have "x < 4096" "y < 4096" using h(1,2) by simp_all
    ultimately have "0x300000 + x = 0x300000 + y" by (simp only: demo_page(1))
    then show "x = y" by simp
  qed
  ultimately show ?thesis unfolding mapped_def assms using demo_page(2-4) by (intro conjI allI impI) blast+
qed

lemma demo_memory:
  assumes "kernel_inv k bs as" "kvm k = vmm_boot" "length cs \<le> 4096"
  obtains k' where "kernel_inv k' bs as" "holds k' 0x300000 cs" "kfs k' = kfs k" "ksched k' = ksched k"
    "mapped k' 0x300000 4096 (\<lambda>i. 0x300000 + of_nat i)"
proof -
  note m = demo_mapped [OF assms(2)]
  obtain m where k': "readable 0x300000 (length cs) (k\<lparr>kvm := (kvm k)\<lparr>pmem := m\<rparr>\<rparr>) = cs" "same_map (kvm k) ((kvm k)\<lparr>pmem := m\<rparr>)"
    by (rule readable_store_mapped [OF mapped_take [OF m assms(3)]])
  then have "holds (k\<lparr>kvm := (kvm k)\<lparr>pmem := m\<rparr>\<rparr>) 0x300000 cs" by (simp only: holds_readable)
  moreover have "mapped (k\<lparr>kvm := (kvm k)\<lparr>pmem := m\<rparr>\<rparr>) 0x300000 4096 (\<lambda>i. 0x300000 + of_nat i)"
    using demo_mapped [OF assms(2)] mapped_same k'(2) by fastforce
  ultimately show thesis using that [of "k\<lparr>kvm := (kvm k)\<lparr>pmem := m\<rparr>\<rparr>"] assms(1) by (simp add: kernel_inv_def)
qed

lemma literal_in:
  assumes "holds k 0x300000 (u @ s @ 0 # v)" "0 \<notin> set s" "length u + length s < 4096"
  shows "literal k (0x300000 + of_nat (length u)) s"
proof -
  let ?a = "0x300000 :: u32"
  have "load8 (?a + of_nat (length u) + of_nat i) k = Some ((s @ [0]) ! i)" if "i < length (s @ [0])" for i
    using assms(1) [unfolded holds_def, rule_format, of "length u + i"] that by (cases "i = length s") (simp_all add: nth_append add.assoc)
  moreover have "\<not> in_window (?a + of_nat (length u) + of_nat i)" if "i \<le> length s" for i
    using demo_page(2) [of "length u + i"] assms(3) that by (simp add: add.assoc)
  ultimately show ?thesis using assms(2,3) by (simp add: literal_def holds_def)
qed

lemma mapped_sub:
  assumes "mapped k a n pa" "j + m \<le> n"
  shows "mapped k (a + of_nat j) m (\<lambda>i. pa (j + i))"
proof -
  have "inj_on pa {..<n}" using assms(1) by (simp add: mapped_def)
  then have "inj_on (\<lambda>i. pa (j + i)) {..<m}" using assms(2) by (intro inj_onI) (auto dest!: inj_onD)
  moreover have "\<not> in_window (a + of_nat j + of_nat i) \<and> mmu_walk (kvm k) (a + of_nat j + of_nat i) = Some (pa (j + i)) \<and> no_table (kvm k) (pa (j + i))"
    if "i < m" for i
    using assms that unfolding mapped_def by (auto simp: add.assoc dest: spec [of _ "j + i"])
  ultimately show ?thesis using assms(1) by (simp add: mapped_def)
qed

lemma demo_clear:
  assumes m: "mapped k 0x300000 4096 (\<lambda>i. 0x300000 + of_nat i)" and u: "u + length s < 256"
  shows "clear_of k (0x300000 + of_nat u) s (\<lambda>i. 0x300000 + of_nat (256 + i)) 256"
proof -
  have "mmu_walk (kvm k) (0x300000 + of_nat u + of_nat i) \<noteq> Some (0x300000 + of_nat (256 + j))" if i: "i \<le> length s" "j < 256" for i j
  proof
    assume "mmu_walk (kvm k) (0x300000 + of_nat u + of_nat i) = Some (0x300000 + of_nat (256 + j))"
    moreover have b: "u + i < 4096" "256 + j < 4096" using u i by simp_all
    moreover have "mmu_walk (kvm k) (0x300000 + of_nat (u + i)) = Some (0x300000 + of_nat (u + i))"
      using m b(1) unfolding mapped_def by blast
    ultimately have "(0x300000 + of_nat (u + i) :: u32) = 0x300000 + of_nat (256 + j)" by (simp add: add.assoc)
    then have "unat (0x300000 + of_nat (u + i) :: u32) = unat (0x300000 + of_nat (256 + j) :: u32)" by (rule arg_cong)
    then show False unfolding demo_page(1) [OF b(1)] demo_page(1) [OF b(2)] using u i by simp
  qed
  then show ?thesis by (simp add: clear_of_def)
qed

text \<open>A file system with one file of at most a block.\<close>

lemma fs_one_file:
  assumes name: "0 \<notin> set name" "length name \<le> 63" and data: "0 < length data" "length data \<le> 512"
  obtains f where "fs_inv f" "files (disk f) name = Some data"
proof -
  have none: "files (disk fs_boot) name = None" by (simp add: fs_boot_state(3))
  have z: "(0 :: nat) < 32" by simp
  obtain f i where f: "fs_inv f" "superblock f = superblock fs_boot" "table_step i (new_inode name) (disk fs_boot) (disk f)"
    by (rule fs_create_new [OF fs_boot_state(1) name none z fs_boot_state(4) [OF z]])
  have i: "i < 32" "inode_read i (disk f) = new_inode name" using f(3) by (simp_all add: table_step_def)
  have us: "used_at (disk f) j = (j = i)" if "j < 32" for j
    using table_step_used [OF f(3) that] fs_boot_state(4) [OF that] new_inode_inv(4) [OF name] by simp
  have nm: "named name (disk f) i" using table_step_named [OF f(3), of name i] new_inode_inv [OF name] by simp
  have free: "\<not> taken (disk f) j" for j using us i new_inode_inv(5) [OF name] by (auto simp: taken_def)
  have n: "(length data + 511) div 512 = 1" by (rule div_nat_eqI) (use data in \<open>simp_all add: Suc_le_eq\<close>)
  have u: "unat (of_nat (length data) :: u32) = length data" using data(2) by (simp add: unat_of_nat_u32)
  obtain g where "fs_inv g" "files (disk g) = (files (disk f))(name \<mapsto> take (length data) (padded (chunk_at data (length data) 0)))"
    by (rule fs_write_named [OF f(1) nm, of "of_nat (length data)" data 0])
      (use data(2) n free f(2) fs_boot_state(2) in \<open>simp_all add: u formatted_sb_def\<close>)
  then show thesis using that data by (simp add: padded_def chunk_at_def)
qed

subsection \<open>Properties\<close>

text \<open>C8. \<open>hello.c\<close> does what it says: with its literals in its memory the program prints its two lines, each
  followed by a line break, on the terminal, announces the exit code 0 and halts as a dead
  process; the kernel's invariant is kept.\<close>

theorem hello_prints:
  assumes "kernel_inv k bs as" "literal k newline [10]" "literal k a (cstr ''Hello from ELF!'')" "literal k b (cstr ''Using libash!'')"
  shows "\<exists>k' t. hello_main newline a b k = Some (k', Halts) \<and>
    terminal_write (cstr ''Hello from ELF!'' @ [10] @ cstr ''Using libash!'' @ [10]) (tty (kcon k)) = Some t \<and>
    say [(''[PID %d exited with code %d]'' @ nl, [KInt (pid (procs (ksched k) (current_process (ksched k)))), KInt 0])]
      ((kcon k)\<lparr>tty := t\<rparr>) = Some (kcon k') \<and>
    kernel_inv k' bs as \<and> dead (ksched k') (current_process (ksched k))"
proof -
  obtain t1 where t1: "terminal_write (cstr ''Hello from ELF!'' @ [10]) (tty (kcon k)) = Some t1"
    "user_println newline a k = Some (k\<lparr>kcon := (kcon k)\<lparr>tty := t1\<rparr>\<rparr>)" "kernel_inv (k\<lparr>kcon := (kcon k)\<lparr>tty := t1\<rparr>\<rparr>) bs as"
    by (rule println_literal [OF assms(1,3,2)])
  let ?k1 = "k\<lparr>kcon := (kcon k)\<lparr>tty := t1\<rparr>\<rparr>"
  have "literal ?k1 newline [10]" "literal ?k1 b (cstr ''Using libash!'')" using literal_cong [of ?k1 k] assms(2,4) by simp_all
  then obtain t2 where t2: "terminal_write (cstr ''Using libash!'' @ [10]) (tty (kcon ?k1)) = Some t2"
    "user_println newline b ?k1 = Some (?k1\<lparr>kcon := (kcon ?k1)\<lparr>tty := t2\<rparr>\<rparr>)" "kernel_inv (?k1\<lparr>kcon := (kcon ?k1)\<lparr>tty := t2\<rparr>\<rparr>) bs as"
    using println_literal [OF t1(3)] by blast
  let ?k2 = "?k1\<lparr>kcon := (kcon ?k1)\<lparr>tty := t2\<rparr>\<rparr>"
  obtain k' where k': "sys_exit 0 ?k2 = Some (k', Halts)" "kernel_inv k' bs as" "dead (ksched k') (current_process (ksched k'))"
    "say [(''[PID %d exited with code %d]'' @ nl, [KInt (pid (procs (ksched ?k2) (current_process (ksched ?k2)))), KInt 0])] (kcon ?k2) = Some (kcon k')"
    "current_process (ksched k') = current_process (ksched ?k2)" by (rule exit_halts [OF t2(3)]) (rule that)
  have "terminal_write ((cstr ''Hello from ELF!'' @ [10]) @ (cstr ''Using libash!'' @ [10])) (tty (kcon k)) = Some t2"
    unfolding terminal_write_append [of "cstr ''Hello from ELF!'' @ [10]"] using t1(1) t2(1) by simp
  moreover have "hello_main newline a b k = Some (k', Halts)" using t1(2) t2(2) k'(1) by (simp add: hello_main_def)
  ultimately show ?thesis using k'(2-5) by (intro exI [of _ k'] exI [of _ t2]) (simp del: say.simps)
qed

theorem hello_prints_witness:
  "\<exists>k k'. hello_main 0x30001E 0x300000 0x300010 k = Some (k', Halts) \<and> dead (ksched k') 0x100000C"
proof -
  let ?h = "cstr ''Hello from ELF!''" and ?u = "cstr ''Using libash!''"
  have "0 < length [1 :: u8]" "length [1 :: u8] \<le> 512" by simp_all
  then obtain k0 where k0: "kernel_inv k0 [(1240, False), (1047312, True)] [0x100000C]" "current_process (ksched k0) = 0x100000C"
    "kvm k0 = vmm_boot" by (rule kernel_demo_file) (rule that)
  have l: "length ?h = 15" "length ?u = 13" "0 \<notin> set ?h" "0 \<notin> set ?u" by (simp_all add: cstr_def)
  have "length (?h @ 0 # ?u @ 0 # [10, 0]) \<le> 4096" by (simp add: l)
  then obtain k where k: "kernel_inv k [(1240, False), (1047312, True)] [0x100000C]" "holds k 0x300000 (?h @ 0 # ?u @ 0 # [10, 0])"
    "ksched k = ksched k0" by (rule demo_memory [OF k0(1,3)]) (rule that)
  have "literal k 0x300000 ?h" using literal_in [of k "[]" ?h "?u @ [0, 10, 0]"] k(2) l by simp
  moreover have "literal k 0x300010 ?u" using literal_in [of k "?h @ [0]" ?u "[10, 0]"] k(2) l by simp
  moreover have "literal k 0x30001E [10]" using literal_in [of k "?h @ 0 # ?u @ [0]" "[10]" "[]"] k(2) l by simp
  ultimately obtain k' where "hello_main 0x30001E 0x300000 0x300010 k = Some (k', Halts)" "dead (ksched k') (current_process (ksched k))"
    using hello_prints [OF k(1), of "0x30001E" "0x300000" "0x300010"] by blast
  then show ?thesis using k(3) k0(2) by (intro exI [of _ k] exI [of _ k']) simp
qed

text \<open>\<open>readfile.c\<close> handles a missing file: when \<open>notes.txt\<close> does not exist the program prints its error
  message and exits with code 1; no file changes and the kernel's invariant is kept.\<close>

theorem readfile_missing:
  assumes "kernel_inv k bs as" "alloc_spec 512 0x1000000 bs \<noteq> None" "files (disk (kfs k)) (cstr ''notes.txt'') = None"
    and "literal k (rf_newline p) [10]" "literal k (rf_name p) (cstr ''notes.txt'')"
    and "literal k (rf_error p) (cstr ''Error: could not open notes.txt'')"
  shows "\<exists>k' k1 t bs'. readfile_start p k = Some (k', Halts) \<and>
    terminal_write (cstr ''Error: could not open notes.txt'' @ [10]) (tty (kcon k1)) = Some t \<and> sys_open (rf_name p) k = Some (-1, k1) \<and>
    say [(''[PID %d exited with code %d]'' @ nl, [KInt (pid (procs (ksched k1) (current_process (ksched k1)))), KInt 1])]
      ((kcon k1)\<lparr>tty := t\<rparr>) = Some (kcon k') \<and> kernel_inv k' bs' as \<and> kfs k' = kfs k"
proof -
  have "length (cstr ''notes.txt'') \<le> 63" by (simp add: cstr_def)
  then obtain k1 b1 where k1: "sys_open (rf_name p) k = Some (-1, k1)" "kernel_inv k1 b1 as" "kfs k1 = kfs k" "kvm k1 = kvm k"
    by (rule open_missing [OF assms(1,5) _ assms(3,2)])
  have "literal k1 (rf_error p) (cstr ''Error: could not open notes.txt'')" "literal k1 (rf_newline p) [10]"
    using literal_cong [OF k1(4)] assms(4,6) by simp_all
  then obtain t where t: "terminal_write (cstr ''Error: could not open notes.txt'' @ [10]) (tty (kcon k1)) = Some t"
    "user_println (rf_newline p) (rf_error p) k1 = Some (k1\<lparr>kcon := (kcon k1)\<lparr>tty := t\<rparr>\<rparr>)" "kernel_inv (k1\<lparr>kcon := (kcon k1)\<lparr>tty := t\<rparr>\<rparr>) b1 as"
    by (rule println_literal [OF k1(2)])
  let ?k2 = "k1\<lparr>kcon := (kcon k1)\<lparr>tty := t\<rparr>\<rparr>"
  obtain k' where k': "sys_exit 1 ?k2 = Some (k', Halts)" "kernel_inv k' b1 as"
    "say [(''[PID %d exited with code %d]'' @ nl, [KInt (pid (procs (ksched ?k2) (current_process (ksched ?k2)))), KInt 1])] (kcon ?k2) = Some (kcon k')"
    "kfs k' = kfs ?k2" by (rule exit_halts [OF t(3)]) (rule that)
  have "readfile_start p k = Some (k', Halts)" using k1(1) t(2) k'(1) by (simp add: readfile_start_def)
  then show ?thesis using t(1) k1(1,3) k'(2-4) by (intro exI [of _ k'] exI [of _ k1] exI [of _ t] exI [of _ b1]) (simp del: say.simps)
qed

theorem readfile_missing_witness:
  "\<exists>p k k1 k'. sys_open (rf_name p) k = Some (-1, k1) \<and> readfile_start p k = Some (k', Halts)"
proof -
  let ?n = "cstr ''notes.txt''" and ?e = "cstr ''Error: could not open notes.txt''"
  let ?p = "\<lparr>rf_newline = 0x30002A, rf_name = 0x300000, rf_error = 0x30000A, rf_title = 0, rf_buf = 0\<rparr>"
  have "0 < length [1 :: u8]" "length [1 :: u8] \<le> 512" by simp_all
  then obtain k0 where k0: "kernel_inv k0 [(1240, False), (1047312, True)] [0x100000C]" "kvm k0 = vmm_boot" by (rule kernel_demo_file) (rule that)
  obtain f ms where f: "fs_init fs_blank = (f, ms)" "fs_inv f" "files (disk f) = (\<lambda>_. None)" by (rule fs_init_format [OF fs_blank_ready]) (rule that)
  have k1: "kernel_inv (k0\<lparr>kfs := f\<rparr>) [(1240, False), (1047312, True)] [0x100000C]" "kvm (k0\<lparr>kfs := f\<rparr>) = vmm_boot"
    using k0 f(2) by (simp_all add: kernel_inv_def)
  have l: "length ?n = 9" "length ?e = 31" "0 \<notin> set ?n" "0 \<notin> set ?e" by (simp_all add: cstr_def)
  have "length (?n @ 0 # ?e @ 0 # [10, 0]) \<le> 4096" by (simp add: l)
  then obtain k where k: "kernel_inv k [(1240, False), (1047312, True)] [0x100000C]" "holds k 0x300000 (?n @ 0 # ?e @ 0 # [10, 0])"
    "kfs k = kfs (k0\<lparr>kfs := f\<rparr>)" by (rule demo_memory [OF k1]) (rule that)
  have "literal k (rf_name ?p) ?n" using literal_in [of k "[]" ?n "?e @ [0, 10, 0]"] k(2) l by simp
  moreover have "literal k (rf_error ?p) ?e" using literal_in [of k "?n @ [0]" ?e "[10, 0]"] k(2) l by simp
  moreover have "literal k (rf_newline ?p) [10]" using literal_in [of k "?n @ 0 # ?e @ [0]" "[10]" "[]"] k(2) l by simp
  moreover have "alloc_spec 512 0x1000000 [(1240, False), (1047312, True)] \<noteq> None" by simp
  moreover have "files (disk (kfs k)) ?n = None" using k(3) f(3) by simp
  ultimately show ?thesis using readfile_missing [OF k(1)] by blast
qed



text \<open>\<open>usertest.c\<close> writes to descriptor 0, not to the terminal: when no file has the name stored in that
  descriptor, its two texts are not printed at all; the file system reports the missing file
  twice and the program exits.\<close>

theorem usertest_prints_nothing:
  assumes "kernel_inv k bs as" "fd_used (cur_fds k ! 0) \<noteq> 0" "fd_cstr (cur_fds k ! 0) = Some name" "files (disk (kfs k)) name = None"
  shows "\<exists>k'. user_program a b k = Some (k', Halts) \<and>
    say [not_found name, not_found name,
      (''[PID %d exited with code %d]'' @ nl, [KInt (pid (procs (ksched k) (current_process (ksched k)))), KInt 0])] (kcon k) = Some (kcon k') \<and>
    kfs k' = kfs k"
proof -
  obtain k1 where k1: "usertest_write a 19 k = Some k1" "talks k k1" "say [not_found name] (kcon k) = Some (kcon k1)"
    by (rule write_to_missing [OF assms])
  have f1: "ksched k1 = ksched k" "kfs k1 = kfs k" "kernel_inv k1 bs as" using talks_fields [OF k1(2)] talks_inv [OF k1(2) assms(1)] by simp_all
  obtain k2 where k2: "usertest_write b 26 k1 = Some k2" "talks k1 k2" "say [not_found name] (kcon k1) = Some (kcon k2)"
    by (rule write_to_missing [OF f1(3)]) (use assms(2-4) f1(1,2) in simp_all)
  have f2: "ksched k2 = ksched k" "kfs k2 = kfs k" "kernel_inv k2 bs as" using talks_fields [OF k2(2)] talks_inv [OF k2(2) f1(3)] f1 by simp_all
  obtain k' where k': "sys_exit 0 k2 = Some (k', Halts)" "kfs k' = kfs k2"
    "say [(''[PID %d exited with code %d]'' @ nl, [KInt (pid (procs (ksched k2) (current_process (ksched k2)))), KInt 0])] (kcon k2) = Some (kcon k')"
    by (rule exit_halts [OF f2(3)]) (rule that)
  have "user_program a b k = Some (k', Halts)"
    using k1(1) k2(1) k'(1) by (auto simp: user_program_def sys_exit_def SYS_EXIT_def)
  moreover have "say ([not_found name] @ [not_found name] @
      [(''[PID %d exited with code %d]'' @ nl, [KInt (pid (procs (ksched k) (current_process (ksched k)))), KInt 0])]) (kcon k) = Some (kcon k')"
    unfolding say_append using k1(3) k2(3) k'(3) f2(1) by (simp del: say.simps)
  ultimately show ?thesis using k'(2) f2(2) by (intro exI [of _ k']) (simp del: say.simps)
qed

theorem usertest_prints_nothing_witness:
  "\<exists>k k'. user_program 0x400100 0x400200 k = Some (k', Halts) \<and> kfs k' = kfs k"
proof -
  obtain k0 where k0: "kernel_inv k0 [(1240, False), (1047312, True)] [0x100000C]" by (rule kernel_demo)
  obtain f ms where f: "fs_init fs_blank = (f, ms)" "fs_inv f" "files (disk f) = (\<lambda>_. None)" by (rule fs_init_format [OF fs_blank_ready]) (rule that)
  have k1: "kernel_inv (k0\<lparr>kfs := f\<rparr>) [(1240, False), (1047312, True)] [0x100000C]" using k0 f(2) by (simp add: kernel_inv_def)
  let ?z = "\<lparr>fd_used = 1, fd_name = replicate 64 0, fd_position = 0, fd_size = 0\<rparr>"
  let ?k = "set_fd 0 ?z (k0\<lparr>kfs := f\<rparr>)"
  have len: "length (cur_fds (k0\<lparr>kfs := f\<rparr>)) = 16" using kernel_invD(5) [OF k1] by (simp add: fds_ok_def)
  have "fds_ok ((cur_fds (k0\<lparr>kfs := f\<rparr>))[0 := ?z])" using kernel_invD(5) [OF k1] by (intro fds_ok_update) simp_all
  then have k: "kernel_inv ?k [(1240, False), (1047312, True)] [0x100000C]" by (rule kernel_inv_set_fd [OF k1])
  have z: "cur_fds ?k ! 0 = ?z" using len by simp
  have u: "fd_used (cur_fds ?k ! 0) \<noteq> 0" "fd_cstr (cur_fds ?k ! 0) = Some []" unfolding z by (simp_all add: fd_cstr_def)
  have n: "files (disk (kfs ?k)) [] = None" using f(3) by simp
  show ?thesis using usertest_prints_nothing [OF k u n, of "0x400100" "0x400200"] by blast
qed

end
