(* ===== verification/System.thy ===== *)
theory System
  imports Kernel
begin

text \<open>
  The machine in operation: after boot it moves by interrupts of the controllers, by system calls
  and by starting programs. The steps are those of \<open>Kernel\<close>'s handlers, with the conditions under
  which the code is safe; the invariant of the whole machine holds after any sequence of them.
\<close>

subsection \<open>Invariants of transition systems\<close>

locale invariant_system =
  fixes move :: "'s \<Rightarrow> 's \<Rightarrow> bool"
    and holds_in :: "'s \<Rightarrow> bool"
  assumes kept_by_move: "move s s' \<Longrightarrow> holds_in s \<Longrightarrow> holds_in s'"
begin

lemma reachable_holds: "move\<^sup>*\<^sup>* s s' \<Longrightarrow> holds_in s \<Longrightarrow> holds_in s'"
  by (induction rule: rtranclp_induct) (auto intro: kept_by_move)

end

subsection \<open>System calls and the page tables\<close>

text \<open>
  The calls the kernel is safe for: a write with a length whose blocks can be counted, an open
  with room for the scratch buffer, a read into a buffer in mapped memory without page tables or
  in a block of the heap, and every other call.
\<close>

definition call_ok :: "registers_t \<Rightarrow> kernel \<Rightarrow> bool" where
  "call_ok regs k \<longleftrightarrow> (reg_eax regs = SYS_WRITE \<longrightarrow> unat (reg_edx regs) \<le> 0xFFFFFE00) \<and>
     (reg_eax regs = SYS_OPEN \<longrightarrow> (\<exists>bs. heap_rep (kheap_of k) bs \<and> alloc_spec 512 0x1000000 bs \<noteq> None)) \<and>
     (reg_eax regs = SYS_READ \<longrightarrow> buffer_at k (reg_ecx regs) (unat (reg_edx regs)))"

lemma write_chars_pages: "write_chars str n k = Some k' \<Longrightarrow> same_pages k k'"
proof (induction str n k rule: write_chars.induct)
  case (2 str n k)
  then obtain c t where "load8 str k = Some c" "terminal_putchar c (tty (kcon k)) = Some t"
    "write_chars (str + 1) n (k\<lparr>kcon := (kcon k)\<lparr>tty := t\<rparr>\<rparr>) = Some k'" by (auto simp: bind_eq_Some_conv)
  then show ?case using 2(1) by (simp add: same_pages_def)
qed (simp add: same_pages_def)

lemma kprint_pages: "kprint ms k = Some k' \<Longrightarrow> same_pages k k'"
  by (auto simp: kprint_def same_pages_def bind_eq_Some_conv)

lemma set_fd_pages: "same_pages k (set_fd i f k)"
  by (simp add: same_pages_def)

lemma open_pages:
  assumes inv: "kernel_inv k bs as" and room: "alloc_spec 512 0x1000000 bs \<noteq> None" and o: "syscall_open regs k = Some (r, k', c)"
  shows "same_pages k k'"
proof -
  note D = kernel_invD [OF inv]
  obtain name where nm: "copy_name (reg_ebx regs) 63 k = Some name" using o by (auto simp: syscall_open_def bind_eq_Some_conv)
  show ?thesis
  proof (cases "find_fd (drop 3 (cur_fds k)) 3")
    case None
    then show ?thesis using o nm D(4) by (auto simp: syscall_open_def same_pages_def)
  next
    case (Some fd)
    have "0 \<notin> set name" using copy_name_props [OF nm] by simp
    then obtain k1 tmp k2 k3 b3 where p: "kmalloc_k 512 k = Some (k1, tmp)"
      "fs_read_k name tmp 512 k1 = Some (k2, case files (disk (kfs k)) name of None \<Rightarrow> -1 | Some d \<Rightarrow> int (min 512 (length d)))"
      "kfree_k tmp k2 = Some k3" "scratch_kept k bs b3 k3" by (rule open_probe [OF inv _ room]) (rule that)
    have "k' = k3 \<or> (\<exists>f. k' = set_fd fd f k3)"
      using o nm D(4) Some p(1-3) by (auto simp: syscall_open_def Let_def bind_eq_Some_conv split: if_splits)
    then show ?thesis using scratch_pages [OF p(4)] set_fd_pages same_pages_trans by blast
  qed
qed

lemma write_pages: "syscall_write regs k = Some (r, k', c) \<Longrightarrow> same_pages k k'"
  by (auto simp: syscall_write_def Let_def bind_eq_Some_conv fs_write_k_def same_pages_def
      dest!: write_chars_pages kprint_pages split: if_splits)

lemma close_pages: "syscall_close regs k = Some (r, k', c) \<Longrightarrow> same_pages k k'"
  by (auto simp: syscall_close_def Let_def bind_eq_Some_conv same_pages_def split: if_splits)

lemma exit_pages: "syscall_exit regs k = Some (r, k', c) \<Longrightarrow> same_pages k k'"
  by (auto simp: syscall_exit_def bind_eq_Some_conv same_pages_def dest!: kprint_pages)

lemma unknown_pages:
  "reg_eax regs \<notin> {SYS_EXIT, SYS_WRITE, SYS_READ, SYS_OPEN, SYS_CLOSE} \<Longrightarrow> syscall_handler regs k = Some (r, k', c) \<Longrightarrow> same_pages k k'"
  by (auto simp: syscall_handler_def bind_eq_Some_conv same_pages_def dest!: kprint_pages split: if_splits)

lemma call_pages:
  assumes inv: "kernel_inv k bs as" and call: "reg_eax regs \<noteq> SYS_READ" "call_ok regs k" and h: "syscall_handler regs k = Some (r, k', c)"
  shows "same_pages k k'"
proof -
  have room: "alloc_spec 512 0x1000000 bs \<noteq> None" if "reg_eax regs = SYS_OPEN"
    using call(2) that heap_rep_unique [OF kernel_invD(1) [OF inv]] by (auto simp: call_ok_def)
  consider "reg_eax regs = SYS_EXIT" | "reg_eax regs = SYS_WRITE" | "reg_eax regs = SYS_OPEN" | "reg_eax regs = SYS_CLOSE"
    | "reg_eax regs \<notin> {SYS_EXIT, SYS_WRITE, SYS_READ, SYS_OPEN, SYS_CLOSE}" using call(1) by blast
  then show ?thesis
  proof cases
    case 1 then show ?thesis using h exit_pages by (simp add: handler_cases(1))
  next
    case 2 then show ?thesis using h write_pages by (simp add: handler_cases(2))
  next
    case 3 then show ?thesis using h open_pages [OF inv room] by (simp add: handler_cases(4))
  next
    case 4 then show ?thesis using h close_pages by (simp add: handler_cases(5))
  next
    case 5 then show ?thesis using h unknown_pages by blast
  qed
qed

text \<open>A read into a buffer keeps the invariant and the translation of every address.\<close>

lemma effect_pages:
  assumes "vmm_inv (kvm k) (kpm k)" "page_effect k a n k' \<or> block_region k a n \<and> block_effect k a n k'"
  shows "vmm_inv (kvm k') (kpm k')" "kpm k' = kpm k"
proof -
  have "vmm_inv (kvm k') (kpm k') \<and> kpm k' = kpm k"
    using assms(2)
  proof
    assume "page_effect k a n k'"
    then obtain m where m: "k' = k\<lparr>kvm := (kvm k)\<lparr>pmem := m\<rparr>\<rparr>" "same_map (kvm k) (kvm k')" by (auto simp: page_effect_def)
    then show ?thesis using vmm_inv_cong [OF assms(1), of "kvm k'"] by (auto simp: same_map_def)
  next
    assume "block_region k a n \<and> block_effect k a n k'"
    then show ?thesis using assms(1) by (auto simp: block_effect_def)
  qed
  then show "vmm_inv (kvm k') (kpm k')" "kpm k' = kpm k" by blast+
qed

lemma read_sound:
  assumes inv: "kernel_inv k bs as" "vmm_inv (kvm k) (kpm k)" and buf: "buffer_at k (reg_ecx regs) (unat (reg_edx regs))"
    and h: "syscall_read regs k = Some (r, k', c)"
  shows "kernel_inv k' bs as \<and> vmm_inv (kvm k') (kpm k') \<and> kpm k' = kpm k"
proof (cases "unat (reg_ebx regs) < 16 \<and> fd_used (cur_fds k ! unat (reg_ebx regs)) \<noteq> 0")
  case False
  then show ?thesis using h inv kernel_invD(4) [OF inv(1)] by (auto simp: syscall_read_def Let_def MAX_FD_def split: if_splits)
next
  case True
  note D = kernel_invD [OF inv(1)]
  note u = conjunct1 [OF True] conjunct2 [OF True]
  let ?a = "reg_ecx regs" and ?n = "unat (reg_edx regs)"
  obtain name where nm: "fd_cstr (cur_fds k ! unat (reg_ebx regs)) = Some name"
    using h True D(4) by (auto simp: syscall_read_def Let_def MAX_FD_def bind_eq_Some_conv)
  show ?thesis
  proof (cases "files (disk (kfs k)) name")
    case None
    obtain c where "fs_read_k name ?a (reg_edx regs) k = Some (k\<lparr>kcon := c\<rparr>, -1)" "con_inv c"
      by (rule fs_read_k_missing [OF D(2,3) fd_cstr_no_zero [OF nm] None])
    moreover from this(1) have "k' = k\<lparr>kcon := c\<rparr>" using h True D(4) nm by (simp add: syscall_read_def Let_def MAX_FD_def)
    ultimately show ?thesis using inv by (simp add: kernel_inv_def)
  next
    case (Some data)
    have "\<exists>k2. syscall_read regs k = Some (regs\<lparr>reg_eax := of_nat (min ?n (length data))\<rparr>, k2, Returns) \<and>
        (page_effect k ?a ?n k2 \<or> block_region k ?a ?n \<and> block_effect k ?a ?n k2)"
    proof (cases "page_region k ?a ?n")
      case True
      then show ?thesis using pages.syscall_read_found [OF inv(1) u nm Some] by blast
    next
      case False
      then have "block_region k ?a ?n" using buf by (simp add: buffer_at_def)
      then show ?thesis using blocks.syscall_read_found [OF inv(1) u nm Some] by blast
    qed
    then have "page_effect k ?a ?n k' \<or> block_region k ?a ?n \<and> block_effect k ?a ?n k'" using h by auto
    then show ?thesis using read_buffer_inv(1) [OF inv(1)] effect_pages [OF inv(2)] by blast
  qed
qed

subsection \<open>Steps\<close>

definition may_enter :: "machine \<Rightarrow> bool" where
  "may_enter m \<longleftrightarrow> (\<exists>bs. heap_rep (kheap_of (kern m)) bs \<and> safe_line (kern m) bs (line (msh m)))"

text \<open>The line starts a program: the file is an executable that fits into memory.\<close>

definition may_run :: "machine \<Rightarrow> bool" where
  "may_run m \<longleftrightarrow> (\<exists>bs name data. heap_rep (kheap_of (kern m)) bs \<and> alloc_spec 8192 0x1000000 bs \<noteq> None \<and>
     line (msh m) = cstr ''run '' @ name \<and> name \<noteq> [] \<and> files (disk (kfs (kern m))) name = Some data \<and>
     elf_header_ok (take 8192 data) \<and> elf_tables_ok (take 8192 data) \<and> loadable (kern m) (segments_from (take 8192 data) 0))"

inductive step :: "machine \<Rightarrow> machine \<Rightarrow> bool" where
  interrupt: "step m m'" if "irq_handler port ctx regs m = Some (m', Leaves Returns)" "reg_int_no regs \<in> {32..<48}"
    "reg_int_no regs = 33 \<longrightarrow> port KEYBOARD_DATA_PORT = 28 \<longrightarrow> may_enter m"
| program: "step m m'" if "irq_handler port ctx regs m = Some (m', Leaves (Enters entry stk))" "reg_int_no regs = 33"
    "port KEYBOARD_DATA_PORT = 28" "may_run m"
| system_call: "step m (m\<lparr>kern := k'\<rparr>)" if "isr_handler regs (kern m) = Some (regs', k', Returns)" "reg_int_no regs = 128" "call_ok regs (kern m)"

lemma call_step:
  assumes m: "machine_inv m bs as" and call: "isr_handler regs (kern m) = Some (regs', k', c)" "reg_int_no regs = 128" "call_ok regs (kern m)"
  shows "\<exists>bs'. machine_inv (m\<lparr>kern := k'\<rparr>) bs' as"
proof -
  have k: "kernel_inv (kern m) bs as" "vmm_inv (kvm (kern m)) (kpm (kern m))" "pmm_inv (kpm (kern m))" "sh_inv (msh m)"
    using m by (simp_all add: machine_inv_def)
  have h: "syscall_handler regs (kern m) = Some (regs', k', c)" using call(1,2) by (simp add: isr_handler_def)
  show ?thesis
  proof (cases "reg_eax regs = SYS_READ")
    case True
    then have "syscall_read regs (kern m) = Some (regs', k', c)" "buffer_at (kern m) (reg_ecx regs) (unat (reg_edx regs))"
      using h call(3) by (simp_all add: handler_cases(3) call_ok_def)
    then have "kernel_inv k' bs as \<and> vmm_inv (kvm k') (kpm k') \<and> kpm k' = kpm (kern m)" by (intro read_sound [OF k(1,2)])
    then show ?thesis using k(3,4) by (intro exI [of _ bs]) (auto simp: machine_inv_def)
  next
    case False
    have "same_pages (kern m) k'" by (rule call_pages [OF k(1) False call(3) h])
    moreover obtain bs' where "kernel_inv k' bs' as" using syscall_inv [OF k(1) False _ h] call(3) by (auto simp: call_ok_def)
    ultimately show ?thesis using k by (auto simp: machine_inv_def same_pages_def)
  qed
qed

lemma run_moves:
  assumes m: "machine_inv m bs as" "may_run m" and irq: "irq_handler port ctx regs m = Some (m', e)" "reg_int_no regs = 33" "port KEYBOARD_DATA_PORT = 28"
  shows "\<exists>bs'. machine_inv m' bs' as"
proof -
  have "heap_rep (kheap_of (kern m)) bs" using m(1) kernel_invD(1) by (auto simp: machine_inv_def)
  then obtain name data where r: "alloc_spec 8192 0x1000000 bs \<noteq> None" "line (msh m) = cstr ''run '' @ name" "name \<noteq> []"
    "files (disk (kfs (kern m))) name = Some data" "elf_header_ok (take 8192 data)" "elf_tables_ok (take 8192 data)"
    "loadable (kern m) (segments_from (take 8192 data) 0)"
    using m(2) heap_rep_unique unfolding may_run_def by metis
  show ?thesis
    using run_entered [where port = port and ctx = ctx, OF m(1) irq(2,3) r(2,3,1,4) refl r(5,6) refl r(7)] irq(1) by auto
qed

inductive_cases stepE: "step m m'"

lemma irq_moves:
  assumes m: "machine_inv m bs [a]" and irq: "irq_handler port ctx regs m = Some (m', Leaves Returns)"
    "reg_int_no regs = 33 \<longrightarrow> port KEYBOARD_DATA_PORT = 28 \<longrightarrow> may_enter m"
  shows "\<exists>bs'. machine_inv m' bs' [a]"
proof -
  have rep: "heap_rep (kheap_of (kern m)) bs" using m kernel_invD(1) by (auto simp: machine_inv_def)
  have safe: "safe_line (kern m) bs (line (msh m))" if "reg_int_no regs = 33" "port KEYBOARD_DATA_PORT = 28"
    using irq(2) that heap_rep_unique [OF rep] by (auto simp: may_enter_def)
  obtain m2 bs' where "irq_handler port ctx regs m = Some (m2, Leaves Returns)" "machine_inv m2 bs' [a]"
    by (rule irq_served [where regs = regs and port = port and ctx = ctx, OF m]) (use safe in blast, rule that)
  then show ?thesis using irq(1) by auto
qed

lemma step_sound: "step m m' \<Longrightarrow> machine_inv m bs [a] \<Longrightarrow> \<exists>bs'. machine_inv m' bs' [a]"
  by (elim stepE) (auto intro: irq_moves run_moves call_step)

interpretation machine: invariant_system step "\<lambda>m. \<exists>bs. machine_inv m bs [a]" for a
  by unfold_locales (use step_sound in blast)

subsection \<open>Properties\<close>


lemma demo_boots:
  obtains m1 d1 where "kernel_main demo_link ref_drive MULTIBOOT_MAGIC demo_info demo_machine ref_disk = Some (m1, d1, Idles)"
    "machine_inv m1 [(1240, False), (1047312, True)] [0x100000C]"
proof -
  obtain m1 d1 where "kernel_main demo_link ref_drive MULTIBOOT_MAGIC demo_info demo_machine ref_disk =
      Some (m1, d1, if MULTIBOOT_MAGIC = MULTIBOOT_MAGIC then Idles else Refused)"
    "machine_inv m1 [(1240, False), (1047312, True)] [0x100000C]"
    by (rule boots [OF demo_ready(1,2) ref_drive_ok ref_disk_idle, of MULTIBOOT_MAGIC]) (rule that)
  then show thesis using that by simp
qed




end
