(* ===== verification/Mkdisk.thy ===== *)
theory Mkdisk
  imports Fs
begin

text \<open>
  The host tool that puts a file on a disk image, \<open>tools/mkdisk.c\<close>, on the same on-disk format. The
  image is a store of sectors; what \<open>fopen\<close> finds (the image, the source file) is an
  argument, \<open>None\<close> when the file cannot be opened. The result is the image left behind and
  the exit status; an index outside \<open>used_blocks\<close> is \<open>None\<close>. The text it prints is left out.
\<close>

definition SECTOR_SIZE :: u32 where [const_defs]: "SECTOR_SIZE = 512"

text \<open>The file offset \<open>lba * SECTOR_SIZE\<close> is computed in 32 bits.\<close>

definition read_img :: "u32 \<Rightarrow> disk \<Rightarrow> bytes" where
  "read_img lba img = img (lba * SECTOR_SIZE div SECTOR_SIZE)"

definition write_img :: "u32 \<Rightarrow> bytes \<Rightarrow> disk \<Rightarrow> disk" where
  "write_img lba buf img = img(lba * SECTOR_SIZE div SECTOR_SIZE := buf)"

definition img_inode :: "nat \<Rightarrow> disk \<Rightarrow> inode_t" where
  "img_inode i img =
     inode_of (take sizeof_inode_t (drop (i mod INODES_PER_SECTOR * sizeof_inode_t)
       (read_img (INODE_START_SECTOR + of_nat (i div INODES_PER_SECTOR)) img)))"

definition img_inode_put :: "nat \<Rightarrow> inode_t \<Rightarrow> disk \<Rightarrow> disk" where
  "img_inode_put i inode img =
     (let sector = INODE_START_SECTOR + of_nat (i div INODES_PER_SECTOR)
      in write_img sector (copy_to (i mod INODES_PER_SECTOR * sizeof_inode_t) (inode_bytes inode)
           sizeof_inode_t (read_img sector img)) img)"

function find_inode :: "disk \<Rightarrow> nat \<Rightarrow> int" where
  "find_inode img i =
     (if i < MAX_FILES then if inode_used (img_inode i img) = 0 then int i else find_inode img (i + 1)
      else -1)"
  by pat_completeness auto
termination
  by (relation "measure (\<lambda>(img, i). MAX_FILES - i)") auto

function mark_used :: "nat \<Rightarrow> disk \<Rightarrow> bytes \<Rightarrow> bytes option" where
  "mark_used i img used =
     (if i < MAX_FILES
      then let tmp = img_inode i img
           in do { used \<leftarrow> (if inode_used tmp \<noteq> 0 then mark_blocks (inode_blocks tmp) used else Some used);
                   mark_used (i + 1) img used }
      else Some used)"
  by pat_completeness auto
termination
  by (relation "measure (\<lambda>(i, img, used). MAX_FILES - i)") auto

function copy_loop :: "bytes \<Rightarrow> u32 \<Rightarrow> u32 \<Rightarrow> u32 \<Rightarrow> u32 \<Rightarrow> inode_t \<Rightarrow> bytes \<Rightarrow> superblock_t \<Rightarrow> disk \<Rightarrow>
    (disk \<times> inode_t \<times> superblock_t \<times> bool) option" where
  "copy_loop file_data file_size blocks_needed i written inode used_blocks sb img =
     (if i < blocks_needed
      then do { r \<leftarrow> block_scan used_blocks (total_blocks sb) 0;
                case r of None \<Rightarrow> Some (img, inode, sb, False)
                | Some b \<Rightarrow>
                    let block = DATA_START_SECTOR + b;
                        used_blocks = used_blocks[unat b := 1];
                        sb = sb\<lparr>free_blocks := free_blocks sb - 1\<rparr>;
                        inode = inode\<lparr>inode_blocks := (inode_blocks inode)[unat i := block]\<rparr>;
                        to_write = (if file_size - written > SECTOR_SIZE then SECTOR_SIZE else file_size - written);
                        buf = copy_to 0 (drop (unat written) file_data) (unat to_write) (replicate 512 0)
                    in copy_loop file_data file_size blocks_needed (i + 1) (written + to_write) inode used_blocks sb
                         (write_img block buf img) }
      else Some (img, inode, sb, True))"
  by pat_completeness auto
termination
  by (relation "measure (\<lambda>(file_data, file_size, n, i, written, inode, used, sb, img). unat n - unat i)")
    (auto simp: word_less_nat_alt)

declare find_inode.simps [simp del] mark_used.simps [simp del] copy_loop.simps [simp del]

text \<open>\<open>strncpy (name, dst_name, 63)\<close> into a zeroed array: the rest of the 63 bytes is zero.\<close>

definition strncpy_name :: "bytes \<Rightarrow> bytes" where
  "strncpy_name dst_name = take 63 (dst_name @ replicate 63 0) @ [0]"

definition mkdisk :: "nat \<Rightarrow> disk option \<Rightarrow> bytes option \<Rightarrow> bytes \<Rightarrow> (disk option \<times> int) option" where
  "mkdisk argc disk_f src_f dst_name =
     (if argc \<noteq> 4 then Some (disk_f, 1)
      else case disk_f of None \<Rightarrow> Some (None, 1)
      | Some img \<Rightarrow>
          let sb = superblock_of (take 24 (read_img SUPERBLOCK_SECTOR img))
          in if magic sb \<noteq> FS_MAGIC then Some (Some img, 1)
             else case src_f of None \<Rightarrow> Some (Some img, 1)
             | Some file_data \<Rightarrow>
                 let file_size = of_nat (length file_data) :: u32;
                     blocks_needed = (file_size + SECTOR_SIZE - 1) div SECTOR_SIZE;
                     inode_index = find_inode img 0
                 in if of_nat MAX_FILE_BLOCKS < blocks_needed then Some (Some img, 1)
                    else if inode_index < 0 then Some (Some img, 1)
                    else do {
                      used_blocks \<leftarrow> mark_used 0 img (replicate 1024 0);
                      let inode = (inode_of (replicate 200 0))\<lparr>inode_name := strncpy_name dst_name,
                                    inode_size := file_size, inode_used := 1\<rparr>;
                      (img, inode, sb, ok) \<leftarrow>
                        copy_loop file_data file_size blocks_needed 0 0 inode used_blocks sb img;
                      if \<not> ok then Some (Some img, 1)
                      else let img = img_inode_put (nat inode_index) inode img;
                               img = write_img SUPERBLOCK_SECTOR
                                 (copy_to 0 (superblock_bytes sb) 24 (replicate 512 0)) img
                           in Some (Some img, 0) })"

subsection \<open>The image and the kernel's view of it\<close>

lemma img_sector: "unat lba < 8388608 \<Longrightarrow> lba * SECTOR_SIZE div SECTOR_SIZE = lba"
  by (simp add: word_eq_unat unat_div unat_mult_u32 SECTOR_SIZE_def)

lemma inode_sector_img:
  assumes "i < 32"
  shows "INODE_START_SECTOR + of_nat (i div INODES_PER_SECTOR) = slot_sector i" "unat (slot_sector i) < 8388608"
  using assms unat_slot_sector [OF assms]
  by (simp_all add: slot_sector_def INODE_START_SECTOR_def INODES_PER_SECTOR_def sizeof_inode_t_def)

lemma img_inode_read: "i < 32 \<Longrightarrow> img_inode i img = inode_read i img"
  using inode_sector_img [of i] img_sector [of "slot_sector i"]
  by (simp add: img_inode_def read_img_def inode_read_slot slot_def INODES_PER_SECTOR_def sizeof_inode_t_def)

lemma img_inode_write: "i < 32 \<Longrightarrow> img_inode_put i x img = inode_write i x img"
  using inode_sector_img [of i] img_sector [of "slot_sector i"]
  by (simp add: img_inode_put_def read_img_def write_img_def inode_write_sector INODES_PER_SECTOR_def
      sizeof_inode_t_def Let_def)

lemma find_inode_alloc: "find_inode img i = inode_alloc_loop img i"
proof (induction img i rule: find_inode.induct)
  case (1 img i)
  then show ?case
    by (subst find_inode.simps, subst inode_alloc_loop.simps) (auto simp: img_inode_read MAX_FILES_def)
qed

lemma mark_used_inodes: "mark_used i img used = mark_inodes i img used"
proof (induction i img used rule: mark_used.induct)
  case (1 i img used)
  then show ?case
    by (subst mark_used.simps, subst mark_inodes.simps)
      (auto simp: img_inode_read MAX_FILES_def Let_def split: Option.bind_split)
qed


subsection \<open>Copying the file\<close>

lemma padded_chunks_full:
  "512 * n \<le> sz \<Longrightarrow> sz \<le> length data \<Longrightarrow>
     concat (map (\<lambda>j. padded (chunk_at data sz j)) [0..<n]) = take (512 * n) data"
proof (induction n)
  case (Suc n)
  then have "chunk_at data sz n = take 512 (drop (512 * n) data)" by (simp add: chunk_at_def drop_take)
  then have "padded (chunk_at data sz n) = take 512 (drop (512 * n) data)" using Suc.prems by (simp add: padded_def)
  then show ?case using Suc by (simp add: take_add [symmetric] add.commute)
qed simp

lemma padded_chunks:
  assumes "sz \<le> length data"
  shows "take sz (concat (map (\<lambda>j. padded (chunk_at data sz j)) [0..<(sz + 511) div 512])) = take sz data"
proof (cases "sz mod 512 = 0")
  case True
  then have "(sz + 511) div 512 = sz div 512" "512 * (sz div 512) = sz" by auto
  then show ?thesis using padded_chunks_full [of "sz div 512" sz data] assms by simp
next
  case False
  define n where "n = sz div 512"
  obtain r where r: "sz = 512 * n + r" "r < 512" "0 < r"
    using False that [of "sz mod 512"] by (simp add: n_def)
  then have n: "(sz + 511) div 512 = Suc n" "512 * n \<le> sz" "sz \<le> 512 * n + 512"
    by (auto intro!: div_nat_eqI)
  have "chunk_at data sz n = drop (512 * n) (take sz data)" using n(3) by (simp add: chunk_at_def)
  then show ?thesis
    using padded_chunks_full [of n sz data] n assms by (simp add: padded_def) (simp add: take_add [symmetric] drop_take)
qed

text \<open>Block \<open>k\<close> of the data area is sector \<open>33 + k\<close>.\<close>

definition data_sector :: "nat \<Rightarrow> u32" where "data_sector k = of_nat (33 + k)"

lemma unat_data_sector: "k < 1024 \<Longrightarrow> unat (data_sector k) = 33 + k"
  unfolding data_sector_def by (intro unat_of_nat_u32) simp

lemma data_sector_eq: "k < 1024 \<Longrightarrow> j < 1024 \<Longrightarrow> data_sector k = data_sector j \<longleftrightarrow> k = j"
  using unat_data_sector by (metis add_left_cancel)

lemma data_sector_image: "\<forall>k \<in> set ks. k < 1024 \<Longrightarrow> b \<in> data_sector ` set ks \<Longrightarrow> \<exists>k \<in> set ks. unat b = 33 + k"
  using unat_data_sector by fastforce

lemma block_scan_free:
  assumes "unat tot \<le> length used" "\<exists>k < unat tot. used ! k = 0"
  obtains k where "block_scan used tot 0 = Some (Some (of_nat k))" "k < unat tot" "used ! k = 0"
  using block_scan_spec [OF assms(1), of 0] assms(2) that by auto

lemma copy_step:
  fixes sz :: u32
  assumes i: "i < needed" "512 * unat i < unat sz" "unat written = 512 * unat i"
    and data: "unat sz \<le> length data" and k: "block_scan used (total_blocks sb) 0 = Some (Some (of_nat k))" "k < 1024"
  shows "copy_loop data sz needed i written x used sb img =
    copy_loop data sz needed (i + 1) (of_nat (min (512 * (unat i + 1)) (unat sz)))
      (x\<lparr>inode_blocks := (inode_blocks x)[unat i := data_sector k]\<rparr>) (used[k := 1])
      (sb\<lparr>free_blocks := free_blocks sb - 1\<rparr>)
      (img(data_sector k := padded (chunk_at data (unat sz) (unat i))))"
proof -
  define c where "c = (if sz - written > SECTOR_SIZE then SECTOR_SIZE else sz - written)"
  have "unat (sz - written) = unat sz - 512 * unat i" using i(2,3) by (simp add: unat_sub_u32)
  then have c: "unat c = min 512 (unat sz - 512 * unat i)"
    by (auto simp: c_def SECTOR_SIZE_def word_less_nat_alt)
  have sum: "unat written + unat c = min (512 * (unat i + 1)) (unat sz)" using c i(2,3) by auto
  have "unat written + unat c < 4294967296" unfolding sum using unat_u32_less [of sz] by linarith
  then have "unat (written + c) = min (512 * (unat i + 1)) (unat sz)" using sum by (simp add: unat_add_u32)
  then have wc: "written + c = of_nat (min (512 * (unat i + 1)) (unat sz))"
    by (metis unat_of_nat_u32 unat_u32_less word_eq_unat)
  have buf: "copy_to 0 (drop (unat written) data) (unat c) (replicate 512 0) = padded (chunk_at data (unat sz) (unat i))"
    using c i data by (simp add: copy_to_def padded_def chunk_at_def drop_take min.commute)
  have b: "DATA_START_SECTOR + of_nat k = data_sector k" "unat (of_nat k :: u32) = k"
    using k(2) by (simp_all add: DATA_START_SECTOR_def data_sector_def unat_of_nat_u32)
  have ws: "write_img (data_sector k) buf img = img(data_sector k := buf)" for buf
    using img_sector [of "data_sector k"] unat_data_sector [OF k(2)] k(2) by (simp add: write_img_def)
  show ?thesis
    unfolding copy_loop.simps [of data sz needed i] k(1) Let_def c_def [symmetric]
    using i(1) by (simp only: b ws wc buf bind.bind_lunit option.case if_True)
qed

text \<open>The chunks of the data from number \<open>i\<close> on are in the blocks \<open>ks\<close>, and nothing else of the image changed.\<close>

definition stored :: "bytes \<Rightarrow> nat \<Rightarrow> nat \<Rightarrow> nat list \<Rightarrow> disk \<Rightarrow> disk \<Rightarrow> bool" where
  "stored data sz i ks img img' \<longleftrightarrow>
     (\<forall>j < length ks. img' (data_sector (ks ! j)) = padded (chunk_at data sz (i + j))) \<and>
     (\<forall>b. b \<notin> data_sector ` set ks \<longrightarrow> img' b = img b)"

lemma stored_Cons:
  assumes "stored data sz (i + 1) ks (img(data_sector k := padded (chunk_at data sz i))) img'" "k \<notin> set ks" "\<forall>j \<in> set (k # ks). j < 1024"
  shows "stored data sz i (k # ks) img img'"
proof -
  have "data_sector k \<notin> data_sector ` set ks" using assms(2,3) data_sector_eq by auto
  then have "img' (data_sector k) = padded (chunk_at data sz i)" using assms(1) by (simp add: stored_def)
  then have "img' (data_sector ((k # ks) ! j)) = padded (chunk_at data sz (i + j))" if "j < length (k # ks)" for j
    using that assms(1) by (cases j) (simp_all add: stored_def)
  then show ?thesis using assms(1) by (simp add: stored_def)
qed

definition unmarked :: "bytes \<Rightarrow> nat \<Rightarrow> nat set" where "unmarked used n = {k. k < n \<and> used ! k = 0}"

lemma unmarked_mark: "k < length used \<Longrightarrow> unmarked (used[k := 1]) n = unmarked used n - {k}"
  by (auto simp: unmarked_def nth_list_update split: if_splits)

lemma finite_unmarked [simp]: "finite (unmarked used n)"
  by (simp add: unmarked_def)

lemma copy_loop_spec:
  fixes sz needed i written :: u32
  assumes N: "unat needed = N" "N = (unat sz + 511) div 512" "N \<le> length (inode_blocks x)"
    and i: "unat i \<le> N" "unat written = min (512 * unat i) (unat sz)" and data: "unat sz \<le> length data"
    and used: "length used = 1024" "unat (total_blocks sb) \<le> 1024"
    and free: "N - unat i \<le> card (unmarked used (unat (total_blocks sb)))"
  shows "\<exists>ks img'. copy_loop data sz needed i written x used sb img =
      Some (img', x\<lparr>inode_blocks := take (unat i) (inode_blocks x) @ map data_sector ks @ drop N (inode_blocks x)\<rparr>,
            sb\<lparr>free_blocks := free_blocks sb - of_nat (N - unat i)\<rparr>, True) \<and>
    length ks = N - unat i \<and> distinct ks \<and> set ks \<subseteq> unmarked used (unat (total_blocks sb)) \<and>
    stored data (unat sz) (unat i) ks img img'"
  using i N(3) used free
proof (induction "N - unat i" arbitrary: i written x used sb img)
  case 0
  then have "\<not> i < needed" "unat i = N" using N(1) by (simp_all add: word_less_nat_alt)
  then show ?case by (intro exI [of _ "[]"] exI [of _ img]) (simp add: copy_loop.simps [of _ _ needed i] stored_def)
next
  case (Suc n)
  let ?n = "unat (total_blocks sb)"
  have iN: "unat i < N" "i < needed" using Suc.hyps(2) N(1) by (simp_all add: word_less_nat_alt)
  then have i1: "unat (i + 1) = unat i + 1" by simp
  have sz: "512 * unat i < unat sz" using iN(1) N(2) by linarith
  have w: "unat written = 512 * unat i" using Suc.prems(2) sz by simp
  have "unmarked used ?n \<noteq> {}" using Suc.prems(6) iN(1) by (metis card.empty diff_is_0_eq le_zero_eq not_less)
  then obtain k where k: "block_scan used (total_blocks sb) 0 = Some (Some (of_nat k))" "k < ?n" "used ! k = 0"
    using block_scan_free [of "total_blocks sb" used] Suc.prems(4,5) by (auto simp: unmarked_def)
  have k': "k < 1024" "k \<in> unmarked used ?n" using k(2,3) Suc.prems(5) by (simp_all add: unmarked_def)
  let ?x = "x\<lparr>inode_blocks := (inode_blocks x)[unat i := data_sector k]\<rparr>"
  let ?sb = "sb\<lparr>free_blocks := free_blocks sb - 1\<rparr>"
  let ?img = "img(data_sector k := padded (chunk_at data (unat sz) (unat i)))"
  have U: "unmarked (used[k := 1]) ?n = unmarked used ?n - {k}" using unmarked_mark Suc.prems(4) k'(1) by simp
  have w': "unat (of_nat (min (512 * (unat i + 1)) (unat sz)) :: u32) = min (512 * unat (i + 1)) (unat sz)"
    unfolding i1 using unat_u32_less [of sz] by (intro unat_of_nat_u32) linarith
  have p: "n = N - unat (i + 1)" "unat (i + 1) \<le> N" "N \<le> length (inode_blocks ?x)" "length (used[k := 1]) = 1024"
    "unat (total_blocks ?sb) \<le> 1024" "N - unat (i + 1) \<le> card (unmarked (used[k := 1]) (unat (total_blocks ?sb)))"
    using Suc.hyps(2) Suc.prems i1 iN U k'(2) by simp_all
  obtain ks img' where r: "copy_loop data sz needed (i + 1) (of_nat (min (512 * (unat i + 1)) (unat sz))) ?x (used[k := 1]) ?sb ?img =
      Some (img', ?x\<lparr>inode_blocks := take (unat (i + 1)) (inode_blocks ?x) @ map data_sector ks @ drop N (inode_blocks ?x)\<rparr>,
            ?sb\<lparr>free_blocks := free_blocks ?sb - of_nat (N - unat (i + 1))\<rparr>, True)"
    "length ks = N - unat (i + 1)" "distinct ks" "set ks \<subseteq> unmarked (used[k := 1]) (unat (total_blocks ?sb))"
    "stored data (unat sz) (unat (i + 1)) ks ?img img'"
    using Suc.hyps(1) [where img = ?img, OF p(1,2) w' p(3-6)] by (elim exE conjE) (rule that)
  have ks: "k \<notin> set ks" "set (k # ks) \<subseteq> unmarked used ?n" using r(4) U k'(2) by auto
  then have "\<forall>j \<in> set (k # ks). j < 1024" using Suc.prems(5) by (auto simp: unmarked_def)
  then have st: "stored data (unat sz) (unat i) (k # ks) img img'" using stored_Cons r(5) ks(1) unfolding i1 by blast
  have bl: "take (unat (i + 1)) (inode_blocks ?x) @ map data_sector ks @ drop N (inode_blocks ?x) =
      take (unat i) (inode_blocks x) @ map data_sector (k # ks) @ drop N (inode_blocks x)"
    using iN Suc.prems(3) i1 by (simp add: take_Suc_conv_app_nth)
  have split: "N - unat i = Suc (N - unat (i + 1))" using iN i1 by simp
  have "copy_loop data sz needed i written x used sb img =
      Some (img', x\<lparr>inode_blocks := take (unat i) (inode_blocks x) @ map data_sector (k # ks) @ drop N (inode_blocks x)\<rparr>,
            sb\<lparr>free_blocks := free_blocks sb - of_nat (N - unat i)\<rparr>, True)"
    unfolding copy_step [OF iN(2) sz w data k(1) k'(1)] r(1) bl split by (simp add: algebra_simps)
  then show ?case using st ks r(2,3) split by (intro exI [of _ "k # ks"] exI [of _ img']) simp
qed

definition mounted :: "disk \<Rightarrow> fs" where
  "mounted img = \<lparr>superblock = superblock_of (take 24 (img 0)), disk = img\<rparr>"

definition copied_inode :: "bytes \<Rightarrow> bytes \<Rightarrow> nat list \<Rightarrow> inode_t" where
  "copied_inode name src ks = (new_inode name)\<lparr>inode_size := of_nat (length src),
     inode_blocks := map data_sector ks @ replicate (32 - length ks) 0\<rparr>"

lemma copied_inode_inv:
  assumes "0 \<notin> set name" "length name \<le> 63" "length src \<le> 512 * length ks" "length ks \<le> 32" "\<forall>k \<in> set ks. k < 1024"
  shows "inode_inv (copied_inode name src ks)" "name_str (copied_inode name src ks) = name"
    "lead_blocks (copied_inode name src ks) = map data_sector ks"
    "set (inode_blocks (copied_inode name src ks)) \<subseteq> insert 0 (data_sector ` set ks)"
    "inode_used (copied_inode name src ks) = 1" "inode_size (copied_inode name src ks) = of_nat (length src)"
proof -
  let ?x = "copied_inode name src ks"
  have b: "block_ok (data_sector k) \<and> data_sector k \<noteq> 0" if "k \<in> set ks" for k
    using unat_data_sector [of k] that assms(5) by (auto simp: block_ok_def word_eq_unat)
  show lead: "lead_blocks ?x = map data_sector ks"
  proof -
    have "takeWhile (\<lambda>b. b \<noteq> 0) (map data_sector ks @ replicate n 0) = map data_sector ks" for n
      using b by (subst takeWhile_append2) auto
    then show ?thesis by (simp add: lead_blocks_def copied_inode_def)
  qed
  have z: "0 \<in> set (inode_name ?x)" by (simp add: copied_inode_def new_inode_def)
  show "name_str ?x = name"
    using name_str_array [OF z] assms(1) by (simp add: copied_inode_def new_inode_def takeWhile_append)
  show sub: "set (inode_blocks ?x) \<subseteq> insert 0 (data_sector ` set ks)" by (auto simp: copied_inode_def)
  show "inode_used ?x = 1" "inode_size ?x = of_nat (length src)" by (simp_all add: copied_inode_def new_inode_def)
  have "unat (inode_size ?x) = length src" using assms(3,4) by (simp add: copied_inode_def unat_of_nat_u32)
  moreover have "inode_ok ?x" using assms(2,4) by (simp add: copied_inode_def new_inode_def inode_ok_def)
  moreover have "\<forall>c \<in> set (inode_blocks ?x). block_ok c" using sub b by (auto simp: block_ok_def)
  ultimately show "inode_inv ?x" using z lead assms(3) by (simp add: inode_inv_def)
qed

lemma strncpy_new: "length name \<le> 63 \<Longrightarrow> strncpy_name name = inode_name (new_inode name)"
  by (simp add: strncpy_name_def new_inode_def replicate_append_same flip: replicate_Suc)

text \<open>The state of a copy: the chunks of the file are in blocks that no file of the image had.\<close>

definition copied :: "bytes \<Rightarrow> nat list \<Rightarrow> disk \<Rightarrow> disk \<Rightarrow> bool" where
  "copied src ks img m \<longleftrightarrow> length ks = (length src + 511) div 512 \<and> distinct ks \<and> (\<forall>k \<in> set ks. k < 1024 \<and> \<not> taken img k) \<and>
     stored src (length src) 0 ks img m"

lemma marked_blocks:
  assumes "fs_inv (mounted img)"
  obtains u where "mark_inodes 0 img (replicate 1024 0) = Some u" "length u = 1024"
    "unmarked u (unat (total_blocks (superblock (mounted img)))) = {k. k < unat (total_blocks (superblock (mounted img))) \<and> \<not> taken img k}"
proof -
  have T: "table_inv img" "unat (total_blocks (superblock (mounted img))) \<le> 1024" using assms by (simp_all add: fs_inv_def mounted_def)
  obtain u where u: "mark_inodes 0 img (replicate 1024 0) = Some u" "length u = 1024" "\<And>k. k < 1024 \<Longrightarrow> (u ! k \<noteq> 0) = taken img k"
    using mark_inodes_spec [of img "replicate 1024 0" 0] T(1) by (auto simp: table_inv_def inode_inv_def taken_def)
  have "u ! k = 0 \<longleftrightarrow> \<not> taken img k" if "k < unat (total_blocks (superblock (mounted img)))" for k using u(3) [of k] that T(2) by auto
  then show thesis by (intro that [OF u(1,2)]) (auto simp: unmarked_def)
qed

lemma mkdisk_copy:
  assumes inv: "fs_inv (mounted img)" and sb: "magic (superblock (mounted img)) = FS_MAGIC"
    and name: "length name \<le> 63" and src: "length src \<le> 16384"
    and room: "i < 32" "\<not> used_at img i"
      "(length src + 511) div 512 \<le> card {k. k < unat (total_blocks (superblock (mounted img))) \<and> \<not> taken img k}"
  obtains ks m i0 sb' where "copied src ks img m" "i0 < 32" "\<not> used_at img i0"
    "sb' = (superblock (mounted img))\<lparr>free_blocks := free_blocks (superblock (mounted img)) - of_nat (length ks)\<rparr>"
    "mkdisk 4 (Some img) (Some src) name = Some (Some (with_super sb' (inode_write i0 (copied_inode name src ks) m)), 0)"
proof -
  let ?sb = "superblock (mounted img)" and ?sz = "of_nat (length src) :: u32" and ?N = "(length src + 511) div 512"
  have usz: "unat ?sz = length src" using src by (simp add: unat_of_nat_u32)
  have N: "?N \<le> 32" "unat (total_blocks ?sb) \<le> 1024" using src inv by (linarith, simp add: fs_inv_def mounted_def)
  obtain i0 where i0: "find_inode img 0 = int i0" "i0 < 32" "\<not> used_at img i0"
    using room(1,2) inode_alloc_cases [of img] unfolding find_inode_alloc inode_alloc_def by metis
  obtain u where u: "mark_inodes 0 img (replicate 1024 0) = Some u" "length u = 1024"
    "unmarked u (unat (total_blocks ?sb)) = {k. k < unat (total_blocks ?sb) \<and> \<not> taken img k}" by (rule marked_blocks [OF inv])
  let ?x = "(inode_of (replicate 200 0))\<lparr>inode_name := strncpy_name name, inode_size := ?sz, inode_used := 1\<rparr>"
  have bn: "unat ((?sz + SECTOR_SIZE - 1) div SECTOR_SIZE) = ?N" "\<not> of_nat MAX_FILE_BLOCKS < (?sz + SECTOR_SIZE - 1) div SECTOR_SIZE"
    using fs_write_blocks_needed [of ?sz] usz src by (simp_all add: FS_BLOCK_SIZE_def SECTOR_SIZE_def)
  have z: "?N = (unat ?sz + 511) div 512" "?N \<le> length (inode_blocks ?x)" "unat (0 :: u32) \<le> ?N"
    "unat (0 :: u32) = min (512 * unat (0 :: u32)) (unat ?sz)" "unat ?sz \<le> length src"
    "?N - unat (0 :: u32) \<le> card (unmarked u (unat (total_blocks ?sb)))"
    using usz N(1) room(3) u(3) by (simp_all add: zero_inode)
  obtain ks m where ks: "copy_loop src ?sz ((?sz + SECTOR_SIZE - 1) div SECTOR_SIZE) 0 0 ?x u ?sb img =
      Some (m, ?x\<lparr>inode_blocks := take (unat (0 :: u32)) (inode_blocks ?x) @ map data_sector ks @ drop ?N (inode_blocks ?x)\<rparr>,
            ?sb\<lparr>free_blocks := free_blocks ?sb - of_nat (?N - unat (0 :: u32))\<rparr>, True)"
    "length ks = ?N - unat (0 :: u32)" "distinct ks" "set ks \<subseteq> unmarked u (unat (total_blocks ?sb))"
    "stored src (unat ?sz) (unat (0 :: u32)) ks img m"
    using copy_loop_spec [where img = img and i = 0 and written = 0 and sz = ?sz and data = src,
        OF bn(1) z(1-5) u(2) N(2) z(6)] by (elim exE conjE) (rule that)
  have x': "?x\<lparr>inode_blocks := map data_sector ks @ replicate (32 - length ks) 0\<rparr> = copied_inode name src ks"
    using strncpy_new [OF name] by (simp add: copied_inode_def zero_inode new_inode_def)
  show thesis
  proof (rule that [of ks m i0])
    show "copied src ks img m" using ks(2-5) usz u(3) N(2) by (auto simp: copied_def)
    show "mkdisk 4 (Some img) (Some src) name = Some (Some (with_super (?sb\<lparr>free_blocks := free_blocks ?sb - of_nat (length ks)\<rparr>)
        (inode_write i0 (copied_inode name src ks) m)), 0)"
      using sb bn(2) i0(1,2) u(1) ks(1,2) x'
      by (simp add: mkdisk_def mark_used_inodes Let_def read_img_def write_img_def SUPERBLOCK_SECTOR_def mounted_def
          img_inode_write copy_to_def zero_inode)
  qed (use i0 in simp_all)
qed

lemma copied_image:
  assumes c: "copied src ks img m" and T: "table_inv img"
  shows "disk_ok m" "\<And>b. unat b < 33 \<Longrightarrow> m b = img b"
    "\<And>j b. j < 32 \<Longrightarrow> used_at img j \<Longrightarrow> b \<in> set (inode_blocks (inode_read j img)) \<Longrightarrow> b \<notin> data_sector ` set ks"
proof -
  have k: "\<forall>k \<in> set ks. k < 1024" "\<forall>k \<in> set ks. \<not> taken img k"
    and m: "\<And>j. j < length ks \<Longrightarrow> m (data_sector (ks ! j)) = padded (chunk_at src (length src) j)"
      "\<And>b. b \<notin> data_sector ` set ks \<Longrightarrow> m b = img b"
    using c by (auto simp: copied_def stored_def)
  show "m b = img b" if "unat b < 33" for b using that m(2) [of b] data_sector_image [OF k(1), of b] by auto
  show "b \<notin> data_sector ` set ks" if "j < 32" "used_at img j" "b \<in> set (inode_blocks (inode_read j img))" for j b
    using that data_sector_image [OF k(1), of b] k(2) by (auto simp: taken_def)
  have "length (m b) = 512" for b
  proof (cases "b \<in> data_sector ` set ks")
    case True
    then obtain j where "j < length ks" "b = data_sector (ks ! j)" by (auto simp: in_set_conv_nth)
    then show ?thesis using m(1) by (simp add: padded_def chunk_at_def)
  qed (use m(2) T in \<open>simp add: table_inv_def disk_ok_def\<close>)
  then show "disk_ok m" by (simp add: disk_ok_def)
qed

lemma copied_content:
  assumes c: "copied src ks img m" and i: "i < 32" and src: "length src \<le> 16384"
    and x: "lead_blocks x = map data_sector ks" "inode_size x = of_nat (length src)"
  shows "content (with_super sb (inode_write i y m)) x = src"
proof -
  let ?d = "with_super sb (inode_write i y m)"
  have k: "\<forall>k \<in> set ks. k < 1024" "length ks = (length src + 511) div 512" using c by (auto simp: copied_def)
  have "map ?d (lead_blocks x) = map (\<lambda>j. padded (chunk_at src (length src) j)) [0..<length ks]"
  proof (rule nth_equalityI)
    fix j assume "j < length (map ?d (lead_blocks x))"
    then have j: "j < length ks" using x(1) by simp
    then have "unat (data_sector (ks ! j)) = 33 + ks ! j" using k(1) by (intro unat_data_sector) simp
    then have "?d (data_sector (ks ! j)) = m (data_sector (ks ! j))"
      using inode_write_other [OF i, of "data_sector (ks ! j)" y m] by auto
    then show "map ?d (lead_blocks x) ! j = map (\<lambda>j. padded (chunk_at src (length src) j)) [0..<length ks] ! j"
      using x(1) j c by (simp add: copied_def stored_def del: fun_upd_apply)
  qed (use x(1) in simp)
  then show ?thesis using padded_chunks [of "length src" src] x(2) src k(2) by (simp only: content_def) (simp add: unat_of_nat_u32)
qed

lemma copied_table:
  assumes c: "copied src ks img m" and T: "table_inv img" and i: "i < 32" "\<not> used_at img i" and x: "inode_inv x" "inode_used x \<noteq> 0"
    "set (inode_blocks x) \<subseteq> insert 0 (data_sector ` set ks)" "files img (name_str x) = None"
  shows "table_inv (with_super sb (inode_write i x m))"
    "files (with_super sb (inode_write i x m)) = (files img)(name_str x \<mapsto> content (with_super sb (inode_write i x m)) x)"
proof -
  note C = copied_image [OF c T]
  have m: "slot m j = slot img j" if "j < 32" for j
    using C(2) [of "slot_sector j"] unat_slot_sector [OF that] that by (simp add: slot_def)
  have kept: "m b = img b" if "j < 32" "used_at img j" "b \<in> set (inode_blocks (inode_read j img))" for j b
    using C(3) [OF that] c by (simp add: copied_def stored_def)
  have own: "name_str (inode_read j img) \<noteq> name_str x \<and> set (inode_blocks (inode_read j img)) \<inter> set (inode_blocks x) \<subseteq> {0}"
    if j: "j < 32" "used_at img j" for j
  proof -
    have "\<not> named (name_str x) img j" using x(4) files_None_iff [OF T] by blast
    then show ?thesis using j C(3) [OF j] x(3) by (fastforce simp: named_def)
  qed
  note P = table_put [OF T i(1) C(1) m kept x(1,2) _ own, where sb = sb]
  show "table_inv (with_super sb (inode_write i x m))"
    "files (with_super sb (inode_write i x m)) = (files img)(name_str x \<mapsto> content (with_super sb (inode_write i x m)) x)"
    by (rule P; use i(2) in simp)+
qed

lemma mkdisk_spec:
  assumes inv: "fs_inv (mounted img)" and sb: "magic (superblock (mounted img)) = FS_MAGIC"
    and name: "0 \<notin> set name" "length name \<le> 63" "files img name = None" and src: "length src \<le> 16384"
    and room: "i < 32" "\<not> used_at img i"
      "(length src + 511) div 512 \<le> card {k. k < unat (total_blocks (superblock (mounted img))) \<and> \<not> taken img k}"
  obtains img' where "mkdisk 4 (Some img) (Some src) name = Some (Some img', 0)" "fs_inv (mounted img')"
    "files img' = (files img)(name \<mapsto> src)" "magic (superblock (mounted img')) = FS_MAGIC"
proof -
  obtain ks m i0 sb' where c: "copied src ks img m" and i0: "i0 < 32" "\<not> used_at img i0"
    and sb': "sb' = (superblock (mounted img))\<lparr>free_blocks := free_blocks (superblock (mounted img)) - of_nat (length ks)\<rparr>"
    and mk: "mkdisk 4 (Some img) (Some src) name = Some (Some (with_super sb' (inode_write i0 (copied_inode name src ks) m)), 0)"
    by (rule mkdisk_copy [OF inv sb name(2) src room])
  let ?x = "copied_inode name src ks"
  let ?img = "with_super sb' (inode_write i0 ?x m)"
  have T: "table_inv img" using inv by (simp add: fs_inv_def mounted_def)
  have len: "length src \<le> 512 * length ks" "length ks \<le> 32" "\<forall>k \<in> set ks. k < 1024" using c src by (auto simp: copied_def)
  note x = copied_inode_inv [OF name(1,2) len]
  have st: "table_inv ?img" "files ?img = (files img)(name_str ?x \<mapsto> content ?img ?x)"
    by (rule copied_table [OF c T i0 x(1) _ x(4)]; simp add: x(2,5) name(3))+
  have "files ?img = (files img)(name \<mapsto> src)" using st(2) copied_content [OF c i0(1) src x(3,6)] x(2) by simp
  moreover have "superblock (mounted ?img) = sb'" using superblock_of_bytes [of sb' "[]"] by (simp add: mounted_def)
  then have "fs_inv (mounted ?img)" "magic (superblock (mounted ?img)) = FS_MAGIC"
    using st(1) inv sb sb' by (simp_all add: fs_inv_def mounted_def)
  ultimately show thesis using mk that by blast
qed

subsection \<open>Properties\<close>

lemma fs_init_mounted:
  "magic (superblock (mounted img)) = FS_MAGIC \<Longrightarrow> fst (fs_init \<lparr>superblock = sb, disk = img\<rparr>) = mounted img"
  using fs_init_found [of "\<lparr>superblock = sb, disk = img\<rparr>"] by (simp add: mounted_def)



end
