(* ===== verification/Session.thy ===== *)
theory Session
  imports System Mkdisk
begin

text \<open>
  Whole sessions on the machine: a disk image made by the host tool, the boot, and text typed at the
  keyboard, one interrupt for every scan code. The components meet here only through the code:
  the image, the keyboard's port and the interrupt handler.
\<close>

subsection \<open>Typing\<close>

text \<open>One keyboard interrupt for each scan code; every handler returns to what it interrupted.\<close>

fun key_interrupts :: "ctx \<Rightarrow> registers_t \<Rightarrow> u8 list \<Rightarrow> machine \<Rightarrow> machine option" where
  "key_interrupts ctx regs [] m = Some m"
| "key_interrupts ctx regs (sc # scs) m =
     do { (m, e) \<leftarrow> irq_handler (\<lambda>_. sc) ctx regs m;
          if e = Leaves Returns then key_interrupts ctx regs scs m else None }"

definition typed :: "bytes \<Rightarrow> u8 list" where "typed cs = concat (map strokes cs)"

lemma key_interrupts_append:
  "key_interrupts ctx regs (xs @ ys) m = do { m \<leftarrow> key_interrupts ctx regs xs m; key_interrupts ctx regs ys m }"
  by (induction xs arbitrary: m) (auto split: bind_splits)

lemma stroke_not_enter:
  assumes "i < 58" "i \<noteq> 28"
  shows "28 \<notin> set (stroke (of_nat i))"
proof -
  have "\<forall>i \<in> set [0..<58]. i = 28 \<or> of_nat i \<noteq> (28 :: u8) \<and> of_nat i OR 0x80 \<noteq> (28 :: u8)" by code_simp
  then have "of_nat i \<noteq> (28 :: u8) \<and> of_nat i OR 0x80 \<noteq> (28 :: u8)" using assms by auto
  then show ?thesis by (auto simp: stroke_def)
qed

lemma typed_no_enter: "\<forall>c \<in> set cs. printable c \<Longrightarrow> 28 \<notin> set (typed cs)"
proof -
  have "28 \<notin> set (strokes c)" if p: "printable c" for c
  proof -
    have ne: "c \<noteq> 10" using p by (auto simp: printable_def)
    have "scancode_table ! 28 = 10" "scancode_table_shifted ! 28 = 10" by (simp_all add: table_values)
    then have k: "28 \<notin> set (stroke (of_nat i))" if "key_of t c 0 = Some i" "t = scancode_table \<or> t = scancode_table_shifted" for t i
      using that key_of_Some [OF that(1)] ne by (intro stroke_not_enter) auto
    show ?thesis using k by (auto simp: strokes_def const_defs split: option.splits)
  qed
  moreover assume "\<forall>c \<in> set cs. printable c"
  ultimately show ?thesis by (auto simp: typed_def)
qed

lemma key_irq:
  assumes "reg_int_no regs = 33" "keyboard_handler (\<lambda>_. sc) (mkb m) (msh m) (kern m) = Some (kb, sh, k, Returns)"
  shows "irq_handler (\<lambda>_. sc) ctx regs m = Some (m\<lparr>kern := k, msh := sh, mkb := kb, mcpu := irq_eoi regs (mcpu m)\<rparr>, Leaves Returns)"
  using assms by (simp add: irq_handler_def irq_tail_def)

text \<open>Without Enter the interrupts do what the keyboard driver does with the codes, and each is acknowledged.\<close>

lemma codes_arrive:
  assumes "machine_inv m bs [a]" "28 \<notin> set scs" "reg_int_no regs = 33" "type_codes scs (mkb m) (msh m) (kern m) = Some (kb, sh, k)"
  shows "\<exists>c. key_interrupts ctx regs scs m = Some (m\<lparr>kern := k, msh := sh, mkb := kb, mcpu := c\<rparr>) \<and>
    pic_ports c = pic_ports (mcpu m) @ concat (replicate (length scs) (acknowledged regs))"
  using assms
proof (induction scs arbitrary: m bs)
  case Nil
  then show ?case by (intro exI [of _ "mcpu m"]) auto
next
  case (Cons sc scs)
  have inv: "kernel_inv (kern m) bs [a]" "sh_inv (msh m)" using Cons.prems(1) by (simp_all add: machine_inv_def)
  obtain kb1 sh1 k1 bs1 where h: "keyboard_handler (\<lambda>_. sc) (mkb m) (msh m) (kern m) = Some (kb1, sh1, k1, Returns)" "sh_inv sh1"
    "kernel_inv k1 bs1 [a]" "same_pages (kern m) k1"
    by (rule keyboard_step [OF inv, where port = "\<lambda>_. sc"]) (use Cons.prems(2) in simp, rule that)
  let ?m = "m\<lparr>kern := k1, msh := sh1, mkb := kb1, mcpu := irq_eoi regs (mcpu m)\<rparr>"
  have "machine_inv ?m bs1 [a]" using Cons.prems(1) h(2-4) by (simp add: machine_inv_def same_pages_def)
  moreover have "type_codes scs (mkb ?m) (msh ?m) (kern ?m) = Some (kb, sh, k)" using Cons.prems(4) h(1) by simp
  ultimately show ?case
    using Cons.IH [of ?m bs1] Cons.prems(2,3) key_irq [OF Cons.prems(3) h(1), of ctx] irq_eoi_ports by auto
qed

lemma text_arrives:
  assumes inv: "machine_inv m bs [a]" and key: "reg_int_no regs = 33" "shift_held (mkb m) = 0" "caps_lock (mkb m) = 0"
    and cs: "\<forall>c \<in> set cs. printable c" "length (line (msh m) @ cs) \<le> 255"
  obtains m' where "key_interrupts ctx regs (typed cs) m = Some m'" "machine_inv m' bs [a]" "line (msh m') = line (msh m) @ cs"
    "talks (kern m) (kern m')" "mkb m' = mkb m"
    "pic_ports (mcpu m') = pic_ports (mcpu m) @ concat (replicate (length (typed cs)) (acknowledged regs))"
proof -
  have k: "kernel_inv (kern m) bs [a]" "sh_inv (msh m)" using inv by (simp_all add: machine_inv_def)
  obtain sh k' where t: "type_codes (typed cs) (mkb m) (msh m) (kern m) = Some (mkb m, sh, k')" "sh_inv sh"
    "line sh = foldl edit (line (msh m)) cs" "talks (kern m) k'"
    using type_text [OF k(2) kernel_invD(3) [OF k(1)] key(2,3) cs(1)] unfolding typed_def by blast
  have "8 \<notin> set cs" using cs(1) by (auto simp: printable_def)
  then have l: "line sh = line (msh m) @ cs" using t(3) foldl_edit [of "line (msh m)" cs] cs(2) by simp
  obtain c where c: "key_interrupts ctx regs (typed cs) m = Some (m\<lparr>kern := k', msh := sh, mkb := mkb m, mcpu := c\<rparr>)"
    "pic_ports c = pic_ports (mcpu m) @ concat (replicate (length (typed cs)) (acknowledged regs))"
    using codes_arrive [OF inv typed_no_enter [OF cs(1)] key(1) t(1), of ctx] by blast
  show thesis
    by (rule that [OF c(1)])
      (use inv t(2,4) l c(2) talks_inv [OF t(4) k(1)] talks_fields [OF t(4)] in \<open>simp_all add: machine_inv_def\<close>)
qed

text \<open>What is typed are steps of the machine.\<close>

lemma keys_step:
  assumes "key_interrupts ctx regs scs m = Some m'" "28 \<notin> set scs" "reg_int_no regs = 33"
  shows "step\<^sup>*\<^sup>* m m'"
  using assms
proof (induction scs arbitrary: m)
  case (Cons sc scs)
  then obtain m1 where 1: "irq_handler (\<lambda>_. sc) ctx regs m = Some (m1, Leaves Returns)" "key_interrupts ctx regs scs m1 = Some m'"
    by (auto simp: bind_eq_Some_conv split: if_splits)
  have "step m m1" by (rule step.interrupt [OF 1(1)]) (use Cons.prems(2,3) in \<open>simp_all add: word_le_nat_alt word_less_nat_alt\<close>)
  then show ?case using Cons.IH [OF 1(2)] Cons.prems(2,3) by (simp add: converse_rtranclp_into_rtranclp)
qed simp

lemma enter_step:
  assumes "key_interrupts ctx regs [28] m = Some m'" "reg_int_no regs = 33" "machine_inv m bs as" "safe_line (kern m) bs (line (msh m))"
  shows "step m m'"
proof -
  have "irq_handler (\<lambda>_. 28) ctx regs m = Some (m', Leaves Returns)" using assms(1) by (auto simp: bind_eq_Some_conv split: if_splits)
  moreover have "may_enter m" using assms(3,4) kernel_invD(1) by (auto simp: machine_inv_def may_enter_def)
  ultimately show ?thesis using assms(2) by (intro step.interrupt [of "\<lambda>_. 28" ctx regs]) (simp_all add: word_le_nat_alt word_less_nat_alt)
qed

text \<open>A line is typed and entered: the shell executes it, and every interrupt returns.\<close>

lemma line_entered:
  assumes inv: "machine_inv m bs [a]" "line (msh m) = []" and key: "reg_int_no regs = 33" "shift_held (mkb m) = 0" "caps_lock (mkb m) = 0"
    and cs: "\<forall>c \<in> set cs. printable c" "length cs \<le> 255" "safe_line (kern m) bs cs"
  obtains m1 m' bs' where "key_interrupts ctx regs (typed cs) m = Some m1" "kernel_inv (kern m1) bs [a]" "sh_inv (msh m1)" "line (msh m1) = cs"
    "kfs (kern m1) = kfs (kern m)" "key_interrupts ctx regs [28] m1 = Some m'" "shell_execute (msh m1) (kern m1) = Some (msh m', kern m', Returns)"
    "machine_inv m' bs' [a]" "line (msh m') = []" "mkb m' = mkb m" "step\<^sup>*\<^sup>* m m'"
proof -
  have "length (line (msh m) @ cs) \<le> 255" using inv(2) cs(2) by simp
  then obtain m1 where m1: "key_interrupts ctx regs (typed cs) m = Some m1" "machine_inv m1 bs [a]" "line (msh m1) = line (msh m) @ cs"
    "talks (kern m) (kern m1)" "mkb m1 = mkb m" by (rule text_arrives [OF inv(1) key cs(1)])
  have k: "kernel_inv (kern m1) bs [a]" "sh_inv (msh m1)" "line (msh m1) = cs" "kfs (kern m1) = kfs (kern m)"
    using m1(2,3) inv(2) talks_fields [OF m1(4)] by (simp_all add: machine_inv_def)
  have safe: "safe_line (kern m1) bs (line (msh m1))" using cs(3) k(3,4) by (simp add: safe_line_def)
  then obtain sh k' bs' where e: "shell_execute (msh m1) (kern m1) = Some (sh, k', Returns)" "sh_inv sh" "line sh = []"
    "kernel_inv k' bs' [a]" "kvm k' = kvm (kern m1)" "kpm k' = kpm (kern m1)" using execute_safe [OF k(1,2)] by blast
  have t: "table_in (mkb m1) ! 28 = 10" using table_in_cases [of "mkb m1"] by (auto simp: table_values)
  have "keyboard_handler (\<lambda>_. 28) (mkb m1) (msh m1) (kern m1) = Some (mkb m1, sh, k', Returns)"
    using key_press [of 28 "mkb m1" "msh m1" "kern m1"] t e(1) by (simp add: shell_process_char_def)
  note i = key_irq [OF key(1) this, of ctx]
  let ?m = "m1\<lparr>kern := k', msh := sh, mkb := mkb m1, mcpu := irq_eoi regs (mcpu m1)\<rparr>"
  have "key_interrupts ctx regs [28] m1 = Some ?m" using i by simp
  then have "step\<^sup>*\<^sup>* m ?m"
    using keys_step [OF m1(1) typed_no_enter [OF cs(1)] key(1)] enter_step [OF _ key(1) m1(2) safe] rtranclp.rtrancl_into_rtrancl by metis
  then show thesis by (intro that [OF m1(1) k, of ?m bs']) (use i e m1(2,5) in \<open>simp_all add: machine_inv_def\<close>)
qed

lemma machine_inv_blocks: "machine_inv m bs' as \<Longrightarrow> kernel_inv (kern m) bs as \<Longrightarrow> machine_inv m bs as"
  using heap_rep_unique kernel_invD(1) by (fastforce simp: machine_inv_def)

subsection \<open>Files from the keyboard\<close>

lemma taken_create:
  assumes "table_step k (new_inode name) d d'" "0 \<notin> set name" "length name \<le> 63" "\<not> taken d j"
  shows "\<not> taken d' j"
proof
  assume "taken d' j"
  then obtain i b where i: "i < 32" "used_at d' i" "b \<in> set (inode_blocks (inode_read i d'))" "unat b = 33 + j" by (auto simp: taken_def)
  have "b \<noteq> 0" using i(4) by auto
  then have "i \<noteq> k" using i(3) assms(1) new_inode_inv(5) [OF assms(2,3)] by (auto simp: table_step_def)
  then have "used_at d i" "inode_read i d' = inode_read i d" using i(1,2) assms(1) table_step_used [OF assms(1)] by (simp_all add: table_step_def)
  then have "taken d j" unfolding taken_def using i by (intro exI [of _ i]) auto
  with assms(4) show False ..
qed

lemma execute_touch:
  assumes inv: "kernel_inv k bs as" and sh: "sh_inv sh" "line sh = cstr ''touch '' @ name"
    and name: "name \<noteq> []" "length name \<le> 63" "files (disk (kfs k)) name = None" and free: "i < 32" "\<not> used_at (disk (kfs k)) i"
  obtains sh' k1 where "shell_execute sh k = Some (sh', k1, Returns)" "kernel_inv k1 bs as" "superblock (kfs k1) = superblock (kfs k)"
    "files (disk (kfs k1)) = (files (disk (kfs k)))(name \<mapsto> [])" "\<And>j. \<not> taken (disk (kfs k)) j \<Longrightarrow> \<not> taken (disk (kfs k1)) j"
proof -
  have ne: "line sh \<noteq> []" using sh(2) by simp
  have nz: "0 \<notin> set name" using sh by (auto simp: sh_inv_def)
  obtain ka where ka: "talks k ka" "\<And>k2. run_command (line sh) ka = Some (k2, Returns) \<Longrightarrow> con_inv (kcon k2) \<Longrightarrow>
       \<exists>sh' k3. shell_execute sh k = Some (sh', k3, Returns) \<and> sh_inv sh' \<and> line sh' = [] \<and> talks k2 k3"
    by (rule execute_line [OF sh(1) ne kernel_invD(3) [OF inv]]) (rule that)
  have e: "kfs ka = kfs k" using talks_fields [OF ka(1)] by simp
  obtain f s where f: "fs_create name (kfs k) = (f, 0, created name)" "fs_inv f" "superblock f = superblock (kfs k)"
    "files (disk f) = (files (disk (kfs k)))(name \<mapsto> [])" "table_step s (new_inode name) (disk (kfs k)) (disk f)"
    by (rule fs_create_new [OF kernel_invD(2) [OF inv] nz name(2,3) free])
  have ok: "list_all msg_ok (created name)" using fs_create_keeps(3) [OF kernel_invD(2) [OF inv] nz name(2) f(1)] .
  have ki: "kernel_inv (ka\<lparr>kfs := f\<rparr>) bs as" using talks_inv [OF ka(1) inv] f(2) by (simp add: kernel_inv_def)
  obtain kb where kb: "kprint (created name) (ka\<lparr>kfs := f\<rparr>) = Some kb" "talks (ka\<lparr>kfs := f\<rparr>) kb"
    by (rule kprint_talks [OF kernel_invD(3) [OF ki] ok])
  have "char_at name \<noteq> 0" using nz name(1) by (cases name) (auto simp: char_at_def)
  then have "cmd_touch name ka = Some kb" using f(1) e kb(1) by (simp add: cmd_touch_def)
  then have "run_command (line sh) ka = Some (kb, Returns)" unfolding sh(2) run_command_def by (simp add: returning_def)
  then obtain sh' k1 where k1: "shell_execute sh k = Some (sh', k1, Returns)" "talks kb k1"
    using ka(2) talks_con [OF kb(2)] by blast
  have "kfs k1 = f" using talks_fields [OF k1(2)] talks_fields [OF kb(2)] by simp
  then show thesis
    using that [OF k1(1) talks_inv [OF k1(2) talks_inv [OF kb(2) ki]]] f(3,4) taken_create [OF f(5) nz name(2)] by simp
qed

subsection \<open>A program from the host to ring 3\<close>

text \<open>
  A segment where \<open>user/user.ld\<close> puts it: in the megabyte from \<open>0x400000\<close>, with pages, counted
  from the size alone as the loader does, that reach to its end.
\<close>

definition linked :: "segment \<Rightarrow> bool" where
  "linked g \<longleftrightarrow> 1024 \<le> vpage (seg_vaddr g) \<and> vpage (seg_vaddr g) + pages_of g \<le> 1280 \<and>
     unat (seg_vaddr g) mod 4096 + seg_msize g \<le> 4096 * pages_of g"

lemma linked_placed:
  assumes "program_space s" "linked g"
  shows "placed s g"
proof -
  have P: "1024 \<le> p \<and> p < 1280" if "p \<in> vpages g" for p using that assms(2) by (auto simp: vpages_def linked_def)
  have "pde_present s (unat (dir_index va))" if "vpage va \<in> vpages g" for va
  proof -
    have "unat (dir_index va) = vpage va div 1024" by (simp add: unat_dir_index flip: div_mult2_eq)
    also have "\<dots> = 1" using P [OF that] by linarith
    finally show ?thesis using assms(1) by (simp add: program_space_def)
  qed
  moreover have "vpage (table_frame s d) \<notin> vpages g" if "d < 1024" "pde_present s d" for d
    using that assms(1) P unfolding program_space_def by fastforce
  moreover have "\<forall>p \<in> vpages g. p < 4096 \<or> 4352 \<le> p" using P by fastforce
  ultimately show ?thesis using assms(2) by (simp add: placed_def linked_def)
qed

definition insert_disk :: "disk \<Rightarrow> machine \<Rightarrow> machine" where
  "insert_disk img m = m\<lparr>kern := (kern m)\<lparr>kfs := (kfs (kern m))\<lparr>disk := img\<rparr>\<rparr>\<rparr>"

lemma insert_disk_power_on:
  assumes "power_on m" "fs_inv (mounted img)" "magic (superblock (mounted img)) = FS_MAGIC"
  shows "power_on (insert_disk img m)" "has_fs (disk (kfs (kern (insert_disk img m))))" "disk (kfs (kern (insert_disk img m))) = img"
    "mkb (insert_disk img m) = mkb m"
  using assms by (simp_all add: insert_disk_def power_on_def disk_ready_def has_fs_def mounted_def)

subsection \<open>Properties\<close>


text \<open>C4. A file made, written and shown from the keyboard: on a machine whose invariant holds, with an empty prompt, a
  free inode and a free block, typing and entering \<open>touch name\<close>, then \<open>write name text\<close>, then
  \<open>cat name\<close> for printable text creates the file with exactly that text and, at the last Enter, prints a
  line break and the text before the next prompt. Every interrupt returns, the other files stay and
  the invariant holds at the end.\<close>

theorem typed_touch_write_cat:
  assumes m: "machine_inv m bs [a]" "line (msh m) = []" "shift_held (mkb m) = 0" "caps_lock (mkb m) = 0" and key: "reg_int_no regs = 33"
    and name: "\<forall>c \<in> set name. printable c \<and> c \<noteq> 32" "name \<noteq> []" "length name \<le> 63" "files (disk (kfs (kern m))) name = None"
    and body: "\<forall>c \<in> set body. printable c" "body \<noteq> []" "length name + length body \<le> 248"
    and disk: "i < 32" "\<not> used_at (disk (kfs (kern m))) i" "j < unat (total_blocks (superblock (kfs (kern m))))"
      "\<not> taken (disk (kfs (kern m))) j" "free_blocks (superblock (kfs (kern m))) \<noteq> 0"
    and room: "alloc_spec 512 0x1000000 bs \<noteq> None"
  shows "\<exists>m1 m2 m3 m4 bs' c k. key_interrupts ctx regs (typed (cstr ''touch '' @ name) @ [28]) m = Some m1 \<and>
    key_interrupts ctx regs (typed (cstr ''write '' @ name @ 32 # body) @ [28]) m1 = Some m2 \<and>
    files (disk (kfs (kern m2))) = (files (disk (kfs (kern m))))(name \<mapsto> body) \<and>
    key_interrupts ctx regs (typed (cstr ''cat '' @ name)) m2 = Some m3 \<and> key_interrupts ctx regs [28] m3 = Some m4 \<and>
    say [(nl, []), (nl @ ''%s'' @ nl, [KStr (Some body)])] (kcon (kern m3)) = Some c \<and>
    putchar_k 10 ((kern m4)\<lparr>kcon := c\<rparr>) = Some k \<and> shell_prompt k = Some (kern m4) \<and>
    line (msh m4) = [] \<and> kfs (kern m4) = kfs (kern m2) \<and> machine_inv m4 bs' [a] \<and> step\<^sup>*\<^sup>* m m4"
proof -
  let ?touch = "cstr ''touch '' @ name" and ?wline = "cstr ''write '' @ name @ 32 # body" and ?cat = "cstr ''cat '' @ name"
  have sp: "32 \<notin> set name" "0 \<notin> set body" using name(1) body(1) by (auto simp: printable_def)
  have p: "\<forall>c \<in> set ?touch. printable c" "\<forall>c \<in> set ?wline. printable c" "\<forall>c \<in> set ?cat. printable c"
    "length ?touch \<le> 255" "length ?wline \<le> 255" "length ?cat \<le> 255"
    using name(1,3) body(1,3) by (auto simp: printable_def)
  have fw: "first_word (name @ 32 # body) = name" using sp(1) by (subst takeWhile_append2) auto
  have s: "safe_line k b ?touch" "safe_line k b ?wline" for k b
    using name(3) fw by (simp_all add: safe_line_def)
  obtain m0 m1 b1 where 1: "key_interrupts ctx regs (typed ?touch) m = Some m0" "kernel_inv (kern m0) bs [a]" "sh_inv (msh m0)" "line (msh m0) = ?touch"
    "kfs (kern m0) = kfs (kern m)" "key_interrupts ctx regs [28] m0 = Some m1" "shell_execute (msh m0) (kern m0) = Some (msh m1, kern m1, Returns)"
    "machine_inv m1 b1 [a]" "line (msh m1) = []" "mkb m1 = mkb m" "step\<^sup>*\<^sup>* m m1" by (rule line_entered [OF m(1,2) key m(3,4) p(1,4) s(1)])
  obtain sh k where t: "shell_execute (msh m0) (kern m0) = Some (sh, k, Returns)" "kernel_inv k bs [a]" "superblock (kfs k) = superblock (kfs (kern m0))"
    "files (disk (kfs k)) = (files (disk (kfs (kern m0))))(name \<mapsto> [])" "\<And>j. \<not> taken (disk (kfs (kern m0))) j \<Longrightarrow> \<not> taken (disk (kfs k)) j"
    by (rule execute_touch [OF 1(2-4) name(2,3) _ disk(1), unfolded 1(5), OF name(4) disk(2)]) (rule that [unfolded 1(5)])
  have k: "k = kern m1" using t(1) 1(7) by simp
  have f1: "machine_inv m1 bs [a]" "shift_held (mkb m1) = 0" "caps_lock (mkb m1) = 0" "files (disk (kfs (kern m1))) name \<noteq> None"
    "j < unat (total_blocks (superblock (kfs (kern m1))))" "\<not> taken (disk (kfs (kern m1))) j" "free_blocks (superblock (kfs (kern m1))) \<noteq> 0"
    using machine_inv_blocks [OF 1(8)] t(2-5) 1(5,10) m(3,4) disk(3-5) unfolding k by simp_all
  obtain m01 m2 b2 where 2: "key_interrupts ctx regs (typed ?wline) m1 = Some m01" "kernel_inv (kern m01) bs [a]" "sh_inv (msh m01)" "line (msh m01) = ?wline"
    "kfs (kern m01) = kfs (kern m1)" "key_interrupts ctx regs [28] m01 = Some m2" "shell_execute (msh m01) (kern m01) = Some (msh m2, kern m2, Returns)"
    "machine_inv m2 b2 [a]" "line (msh m2) = []" "mkb m2 = mkb m1" "step\<^sup>*\<^sup>* m1 m2" by (rule line_entered [OF f1(1) 1(9) key f1(2,3) p(2,5) s(2)])
  have w: "kernel_inv (kern m2) bs [a]" "files (disk (kfs (kern m2))) = (files (disk (kfs (kern m1))))(name \<mapsto> body)"
    using execute_write [OF 2(2-4) sp(1) name(3) body(2), unfolded 2(5), OF f1(4-7)] 2(7) by auto
  have f2: "machine_inv m2 bs [a]" "shift_held (mkb m2) = 0" "caps_lock (mkb m2) = 0" "files (disk (kfs (kern m2))) name = Some body" "length body < 512"
    "safe_line (kern m2) bs ?cat"
    using machine_inv_blocks [OF 2(8) w(1)] w(2) 2(10) f1(2,3) body(3) room by (simp_all add: safe_line_def)
  obtain m3 m4 b3 where 3: "key_interrupts ctx regs (typed ?cat) m2 = Some m3" "kernel_inv (kern m3) bs [a]" "sh_inv (msh m3)" "line (msh m3) = ?cat"
    "kfs (kern m3) = kfs (kern m2)" "key_interrupts ctx regs [28] m3 = Some m4" "shell_execute (msh m3) (kern m3) = Some (msh m4, kern m4, Returns)"
    "machine_inv m4 b3 [a]" "line (msh m4) = []" "step\<^sup>*\<^sup>* m2 m4" by (rule line_entered [OF f2(1) 2(9) key f2(2,3) p(3,6) f2(6)])
  obtain sh' k2 b' c k3 where c: "shell_execute (msh m3) (kern m3) = Some (sh', k2, Returns)" "kfs k2 = kfs (kern m3)"
    "say [(nl, []), (nl @ ''%s'' @ nl, [KStr (Some body)])] (kcon (kern m3)) = Some c"
    "putchar_k 10 (k2\<lparr>kcon := c\<rparr>) = Some k3" "shell_prompt k3 = Some k2"
    by (rule execute_cat [OF 3(2-4) name(2) room _ body(2) sp(2) f2(5)]) (simp only: 3(5) f2(4), rule that)
  have k2: "k2 = kern m4" using c(1) 3(7) by simp
  have "key_interrupts ctx regs (typed ?touch @ [28]) m = Some m1" "key_interrupts ctx regs (typed ?wline @ [28]) m1 = Some m2"
    using 1(1,6) 2(1,6) by (simp_all add: key_interrupts_append del: key_interrupts.simps)
  moreover have "files (disk (kfs (kern m2))) = (files (disk (kfs (kern m))))(name \<mapsto> body)" using w(2) t(4) 1(5) unfolding k by simp
  moreover have "step\<^sup>*\<^sup>* m m4" using 1(11) 2(11) 3(10) by (meson rtranclp_trans)
  ultimately show ?thesis using 3(1,6,8,9) c(2-5) unfolding k2 3(5) by blast
qed

theorem typed_touch_write_cat_witness:
  "\<exists>m m1 m2. key_interrupts ([], 0) (demo_irq 33) (typed (cstr ''touch hello'') @ [28]) m = Some m1 \<and>
     key_interrupts ([], 0) (demo_irq 33) (typed (cstr ''write hello hi'') @ [28]) m1 = Some m2 \<and>
     files (disk (kfs (kern m2))) = [hello \<mapsto> [104, 105]]"
proof -
  obtain m1 where m1: "machine_inv m1 [(1240, False), (1047312, True)] [0x100000C]" "MULTIBOOT_MAGIC = MULTIBOOT_MAGIC \<Longrightarrow> line (msh m1) = []"
    "mkb m1 = mkb demo_machine" by (rule boots [OF demo_ready(1,2) ref_drive_ok ref_disk_idle, of MULTIBOOT_MAGIC]) (rule that)
  define m where "m = m1\<lparr>kern := (kern m1)\<lparr>kfs := fs_boot\<rparr>\<rparr>"
  have m: "machine_inv m [(1240, False), (1047312, True)] [0x100000C]" "line (msh m) = []" "shift_held (mkb m) = 0" "caps_lock (mkb m) = 0"
    "reg_int_no (demo_irq 33) = 33" "kfs (kern m) = fs_boot"
    using m1 fs_boot_state(1) by (simp_all add: m_def machine_inv_def kernel_inv_def demo_machine_def demo_irq_def)
  have n: "\<forall>c \<in> set hello. printable c \<and> c \<noteq> 32" "hello \<noteq> []" "length hello \<le> 63" "files (disk (kfs (kern m))) hello = None"
    "\<forall>c \<in> set [104, 105 :: u8]. printable c" "[104, 105 :: u8] \<noteq> []" "length hello + length [104, 105 :: u8] \<le> 248"
    by (simp_all add: m(6) fs_boot_state(3) printable_def)
  have "\<not> taken (disk fs_boot) 0" using fs_boot_state(4) by (auto simp: taken_def)
  then have d: "0 < (32 :: nat)" "\<not> used_at (disk (kfs (kern m))) 0" "0 < unat (total_blocks (superblock (kfs (kern m))))"
    "\<not> taken (disk (kfs (kern m))) 0" "free_blocks (superblock (kfs (kern m))) \<noteq> 0"
    using fs_boot_state(2) fs_boot_state(4) [of 0] unfolding m(6) by (simp_all add: formatted_sb_def)
  have room: "alloc_spec 512 0x1000000 [(1240, False), (1047312, True)] \<noteq> None" by simp
  have w: "cstr ''touch hello'' = cstr ''touch '' @ hello" "cstr ''write hello hi'' = cstr ''write '' @ hello @ 32 # [104, 105]"
    by (simp_all add: cstr_def)
  show ?thesis
    using typed_touch_write_cat [OF m(1-5) n d room, of "([], 0)"] unfolding w m(6) fs_boot_state(3) by blast
qed


end
