(* ===== verification/Fsdrive.thy ===== *)
theory Fsdrive
  imports Fs Ata
begin

text \<open>
  \<open>kernel/fs.c\<close> over \<open>drivers/ata.c\<close>: every operation of the file system with the sector
  transfers it makes, in their order, on a device that may fail to return. The theory \<open>Fs\<close>
  computes on the sectors directly; here the two are related. Each operation, run through
  the driver on any drive that follows the protocol, gives the result of \<open>Fs\<close> and leaves the
  drive with the sectors of \<open>Fs\<close>.
\<close>

subsection \<open>Devices\<close>

text \<open>What \<open>fs.c\<close> uses of the driver: the transfer of a sector in either direction.\<close>

record 'd device =
  dread :: "u32 \<Rightarrow> 'd \<Rightarrow> (bytes \<times> 'd) option"
  dwrite :: "u32 \<Rightarrow> bytes \<Rightarrow> 'd \<Rightarrow> 'd option"

definition ata_device :: "'d ports \<Rightarrow> 'd device" where
  "ata_device io = \<lparr>dread = ata_read_sector io, dwrite = ata_write_sector io\<rparr>"

definition plain_device :: "disk device" where
  "plain_device = \<lparr>dread = (\<lambda>lba d. Some (read_sector lba d, d)), dwrite = (\<lambda>lba buf d. Some (write_sector lba buf d))\<rparr>"

subsection \<open>The operations\<close>

record 'd dfs =
  dsuper :: superblock_t
  ddrive :: 'd

definition dev_inode_read :: "'d device \<Rightarrow> nat \<Rightarrow> 'd \<Rightarrow> (inode_t \<times> 'd) option" where
  "dev_inode_read dev index d =
     do { (buf, d) \<leftarrow> dread dev (inode_sector index) d;
          Some (inode_of (take sizeof_inode_t (drop (index mod INODES_PER_SECTOR * sizeof_inode_t) buf)), d) }"

definition dev_inode_write :: "'d device \<Rightarrow> nat \<Rightarrow> inode_t \<Rightarrow> 'd \<Rightarrow> 'd option" where
  "dev_inode_write dev index inode d =
     do { (buf, d) \<leftarrow> dread dev (inode_sector index) d;
          dwrite dev (inode_sector index)
            (copy_to (index mod INODES_PER_SECTOR * sizeof_inode_t) (inode_bytes inode) sizeof_inode_t buf) d }"

function dev_inode_find_loop :: "'d device \<Rightarrow> bytes \<Rightarrow> nat \<Rightarrow> 'd \<Rightarrow> (int \<times> 'd) option" where
  "dev_inode_find_loop dev name i d =
     (if i < MAX_FILES
      then do { (inode, d) \<leftarrow> dev_inode_read dev i d;
                if inode_used inode \<noteq> 0 \<and> fs_strcmp (name_str inode) name = 0 then Some (int i, d)
                else dev_inode_find_loop dev name (i + 1) d }
      else Some (-1, d))"
  by pat_completeness auto
termination by (relation "measure (\<lambda>(dev, name, i, d). MAX_FILES - i)") auto

definition dev_inode_find :: "'d device \<Rightarrow> bytes \<Rightarrow> 'd \<Rightarrow> (int \<times> 'd) option" where
  "dev_inode_find dev name d = dev_inode_find_loop dev name 0 d"

function dev_inode_alloc_loop :: "'d device \<Rightarrow> nat \<Rightarrow> 'd \<Rightarrow> (int \<times> 'd) option" where
  "dev_inode_alloc_loop dev i d =
     (if i < MAX_FILES
      then do { (inode, d) \<leftarrow> dev_inode_read dev i d;
                if inode_used inode = 0 then Some (int i, d) else dev_inode_alloc_loop dev (i + 1) d }
      else Some (-1, d))"
  by pat_completeness auto
termination by (relation "measure (\<lambda>(dev, i, d). MAX_FILES - i)") auto

definition dev_inode_alloc :: "'d device \<Rightarrow> 'd \<Rightarrow> (int \<times> 'd) option" where
  "dev_inode_alloc dev d = dev_inode_alloc_loop dev 0 d"

function dev_mark_inodes :: "'d device \<Rightarrow> nat \<Rightarrow> bytes \<Rightarrow> 'd \<Rightarrow> (bytes \<times> 'd) option" where
  "dev_mark_inodes dev i used d =
     (if i < MAX_FILES
      then do { (inode, d) \<leftarrow> dev_inode_read dev i d;
                used \<leftarrow> (if inode_used inode \<noteq> 0 then mark_blocks (inode_blocks inode) used else Some used);
                dev_mark_inodes dev (i + 1) used d }
      else Some (used, d))"
  by pat_completeness auto
termination by (relation "measure (\<lambda>(dev, i, used, d). MAX_FILES - i)") auto

definition dev_block_alloc :: "'d device \<Rightarrow> 'd dfs \<Rightarrow> ('d dfs \<times> u32) option" where
  "dev_block_alloc dev s =
     (let sb = dsuper s
      in if free_blocks sb = 0 then Some (s, 0)
         else do { (used, d) \<leftarrow> dev_mark_inodes dev 0 (replicate 1024 0) (ddrive s);
                   r \<leftarrow> block_scan used (total_blocks sb) 0;
                   let s = s\<lparr>ddrive := d\<rparr>;
                   Some (case r of None \<Rightarrow> (s, 0)
                     | Some i \<Rightarrow> (s\<lparr>dsuper := sb\<lparr>free_blocks := free_blocks sb - 1\<rparr>\<rparr>, DATA_START_SECTOR + i)) })"

definition dev_flush :: "'d device \<Rightarrow> 'd dfs \<Rightarrow> 'd dfs option" where
  "dev_flush dev s =
     do { d \<leftarrow> dwrite dev SUPERBLOCK_SECTOR (copy_to 0 (superblock_bytes (dsuper s)) 24 (replicate 512 0)) (ddrive s);
          Some (s\<lparr>ddrive := d\<rparr>) }"

function dev_clear_inodes :: "'d device \<Rightarrow> nat \<Rightarrow> 'd \<Rightarrow> 'd option" where
  "dev_clear_inodes dev i d =
     (if i < 32 then do { d \<leftarrow> dwrite dev (INODE_START_SECTOR + of_nat i) (replicate 512 0) d; dev_clear_inodes dev (i + 1) d }
      else Some d)"
  by pat_completeness auto
termination by (relation "measure (\<lambda>(dev, i, d). 32 - i)") auto

definition dev_format :: "'d device \<Rightarrow> 'd dfs \<Rightarrow> 'd dfs option" where
  "dev_format dev s =
     do { s \<leftarrow> dev_flush dev (s\<lparr>dsuper := \<lparr>magic = FS_MAGIC, version = 1, total_blocks = 1024,
                 inode_start = INODE_START_SECTOR, data_start = DATA_START_SECTOR, free_blocks = 1024\<rparr>\<rparr>);
          d \<leftarrow> dev_clear_inodes dev 0 (ddrive s);
          Some (s\<lparr>ddrive := d\<rparr>) }"

definition dev_fs_init :: "'d device \<Rightarrow> 'd dfs \<Rightarrow> ('d dfs \<times> msg list) option" where
  "dev_fs_init dev s =
     do { (buf, d) \<leftarrow> dread dev SUPERBLOCK_SECTOR (ddrive s);
          let s = s\<lparr>dsuper := superblock_of (take 24 buf), ddrive := d\<rparr>;
          if magic (dsuper s) \<noteq> FS_MAGIC
          then do { s \<leftarrow> dev_format dev s;
                    Some (s, [(''FS: no AshFS found, formatting...'' @ nl, []),
                              (''FS: AshFS formatted successfully'' @ nl, [])]) }
          else Some (s, [(''FS: AshFS found, version %d, %d free blocks'' @ nl,
                          [KInt (version (dsuper s)), KInt (free_blocks (dsuper s))])]) }"

definition dev_fs_create :: "'d device \<Rightarrow> bytes \<Rightarrow> 'd dfs \<Rightarrow> ('d dfs \<times> int \<times> msg list) option" where
  "dev_fs_create dev name s =
     do { (found, d) \<leftarrow> dev_inode_find dev name (ddrive s);
          if 0 \<le> found
          then Some (s\<lparr>ddrive := d\<rparr>, -1,
                     [(''FS: file '' @ [CHR 0x27] @ ''%s'' @ [CHR 0x27] @ '' already exists'' @ nl, [KStr (Some name)])])
          else do { (index, d) \<leftarrow> dev_inode_alloc dev d;
                    if index < 0 then Some (s\<lparr>ddrive := d\<rparr>, -1, [(''FS: no free inodes'' @ nl, [])])
                    else do { let inode = inode_of (replicate 200 0);
                              let inode = inode\<lparr>inode_name := fs_strcpy (inode_name inode) name MAX_FILENAME\<rparr>;
                              let inode = inode\<lparr>inode_size := 0, inode_used := 1\<rparr>;
                              d \<leftarrow> dev_inode_write dev (nat index) inode d;
                              Some (s\<lparr>ddrive := d\<rparr>, 0,
                                    [(''FS: created '' @ [CHR 0x27] @ ''%s'' @ [CHR 0x27] @ nl, [KStr (Some name)])]) } } }"

function dev_fs_write_loop ::
    "'d device \<Rightarrow> bytes \<Rightarrow> u32 \<Rightarrow> u32 \<Rightarrow> u32 \<Rightarrow> u32 \<Rightarrow> inode_t \<Rightarrow> 'd dfs \<Rightarrow> ('d dfs \<times> inode_t \<times> bool) option" where
  "dev_fs_write_loop dev data sz blocks_needed i written inode s =
     (if i < blocks_needed
      then do { (s, block) \<leftarrow> dev_block_alloc dev s;
                if block = 0 then Some (s, inode, False)
                else let inode = inode\<lparr>inode_blocks := (inode_blocks inode)[unat i := block]\<rparr>;
                         to_write = (if sz - written > FS_BLOCK_SIZE then FS_BLOCK_SIZE else sz - written)
                     in if unat written + unat to_write \<le> length data
                        then do { d \<leftarrow> dwrite dev block
                                         (copy_to 0 (drop (unat written) data) (unat to_write) (replicate 512 0)) (ddrive s);
                                  dev_fs_write_loop dev data sz blocks_needed (i + 1) (written + to_write) inode (s\<lparr>ddrive := d\<rparr>) }
                        else None }
      else Some (s, inode, True))"
  by pat_completeness auto
termination
  by (relation "measure (\<lambda>(dev, data, sz, n, i, w, inode, s). unat n - unat i)") (auto simp: word_less_nat_alt)

definition dev_fs_write :: "'d device \<Rightarrow> bytes \<Rightarrow> bytes \<Rightarrow> u32 \<Rightarrow> 'd dfs \<Rightarrow> ('d dfs \<times> int \<times> msg list) option" where
  "dev_fs_write dev name data sz s =
     do { (index, d) \<leftarrow> dev_inode_find dev name (ddrive s);
          let s = s\<lparr>ddrive := d\<rparr>;
          if index < 0 then Some (s, -1, [not_found name])
          else do { (inode, d) \<leftarrow> dev_inode_read dev (nat index) (ddrive s);
                    let s = s\<lparr>ddrive := d\<rparr>;
                    let blocks_needed = (sz + FS_BLOCK_SIZE - 1) div FS_BLOCK_SIZE;
                    if of_nat MAX_FILE_BLOCKS < blocks_needed then Some (s, -1, [(''FS: file too large'' @ nl, [])])
                    else do { (s, inode, ok) \<leftarrow> dev_fs_write_loop dev data sz blocks_needed 0 0 inode s;
                              if \<not> ok then Some (s, -1, [(''FS: disk full'' @ nl, [])])
                              else do { d \<leftarrow> dev_inode_write dev (nat index) (inode\<lparr>inode_size := sz\<rparr>) (ddrive s);
                                        s \<leftarrow> dev_flush dev (s\<lparr>ddrive := d\<rparr>);
                                        Some (s, 0, [(''FS: wrote %d bytes to '' @ [CHR 0x27] @ ''%s'' @ [CHR 0x27] @ nl,
                                                      [KInt sz, KStr (Some name)])]) } } } }"

function dev_fs_read_loop :: "'d device \<Rightarrow> inode_t \<Rightarrow> u32 \<Rightarrow> nat \<Rightarrow> u32 \<Rightarrow> bytes \<Rightarrow> 'd \<Rightarrow> ((bytes \<times> u32) \<times> 'd) option" where
  "dev_fs_read_loop dev inode to_read i rd buf d =
     (if i < MAX_FILE_BLOCKS \<and> rd < to_read
      then let b = inode_blocks inode ! i
           in if b = 0 then Some ((buf, rd), d)
              else do { (data_buf, d) \<leftarrow> dread dev b d;
                        let chunk = (if to_read - rd > FS_BLOCK_SIZE then FS_BLOCK_SIZE else to_read - rd);
                        if unat rd + unat chunk \<le> length buf
                        then dev_fs_read_loop dev inode to_read (i + 1) (rd + chunk) (copy_to (unat rd) data_buf (unat chunk) buf) d
                        else None }
      else Some ((buf, rd), d))"
  by pat_completeness auto
termination by (relation "measure (\<lambda>(dev, inode, n, i, rd, buf, d). MAX_FILE_BLOCKS - i)") auto

definition dev_fs_read :: "'d device \<Rightarrow> bytes \<Rightarrow> bytes \<Rightarrow> u32 \<Rightarrow> 'd dfs \<Rightarrow> ('d dfs \<times> bytes \<times> int \<times> msg list) option" where
  "dev_fs_read dev name buf sz s =
     do { (index, d) \<leftarrow> dev_inode_find dev name (ddrive s);
          if index < 0 then Some (s\<lparr>ddrive := d\<rparr>, buf, -1, [not_found name])
          else do { (inode, d) \<leftarrow> dev_inode_read dev (nat index) d;
                    let to_read = (if sz < inode_size inode then sz else inode_size inode);
                    ((buf, rd), d) \<leftarrow> dev_fs_read_loop dev inode to_read 0 0 buf d;
                    Some (s\<lparr>ddrive := d\<rparr>, buf, sint rd, []) } }"

definition dev_fs_delete :: "'d device \<Rightarrow> bytes \<Rightarrow> 'd dfs \<Rightarrow> ('d dfs \<times> int \<times> msg list) option" where
  "dev_fs_delete dev name s =
     do { (index, d) \<leftarrow> dev_inode_find dev name (ddrive s);
          let s = s\<lparr>ddrive := d\<rparr>;
          if index < 0 then Some (s, -1, [not_found name])
          else do { (inode, d) \<leftarrow> dev_inode_read dev (nat index) (ddrive s);
                    let (blocks, free) = release_blocks (inode_blocks inode) (free_blocks (dsuper s));
                    let s = s\<lparr>dsuper := (dsuper s)\<lparr>free_blocks := free\<rparr>\<rparr>;
                    d \<leftarrow> dev_inode_write dev (nat index) (inode\<lparr>inode_blocks := blocks, inode_used := 0\<rparr>) d;
                    s \<leftarrow> dev_flush dev (s\<lparr>ddrive := d\<rparr>);
                    Some (s, 0, [(''FS: deleted '' @ [CHR 0x27] @ ''%s'' @ [CHR 0x27] @ nl, [KStr (Some name)])]) } }"

function dev_list_entries :: "'d device \<Rightarrow> nat \<Rightarrow> 'd \<Rightarrow> (msg list \<times> 'd) option" where
  "dev_list_entries dev i d =
     (if i < MAX_FILES
      then do { (inode, d) \<leftarrow> dev_inode_read dev i d;
                (ms, d) \<leftarrow> dev_list_entries dev (i + 1) d;
                Some ((if inode_used inode \<noteq> 0
                       then [(''  %s (%d bytes)'' @ nl, [KStr (Some (name_str inode)), KInt (inode_size inode)])] else []) @ ms, d) }
      else Some ([], d))"
  by pat_completeness auto
termination by (relation "measure (\<lambda>(dev, i, d). MAX_FILES - i)") auto

definition dev_fs_list :: "'d device \<Rightarrow> 'd dfs \<Rightarrow> ('d dfs \<times> msg list) option" where
  "dev_fs_list dev s =
     do { (entries, d) \<leftarrow> dev_list_entries dev 0 (ddrive s);
          Some (s\<lparr>ddrive := d\<rparr>,
                [(nl @ ''Files on AshFS:'' @ nl, []),
                 (''Name                             Size'' @ nl, []),
                 (''----                             ----'' @ nl, [])] @
                entries @ (if entries = [] then [(''(no files)'' @ nl, [])] else [])) }"


subsection \<open>Sequences of calls\<close>

datatype fs_call = Mount | Create bytes | Write bytes bytes u32 | Read bytes bytes u32 | Delete bytes | Listing

text \<open>A call returns the code, the buffer of a read, and the output.\<close>

type_synonym fs_reply = "int \<times> bytes \<times> msg list"

fun fs_do :: "fs_call \<Rightarrow> fs \<Rightarrow> (fs \<times> fs_reply) option" where
  "fs_do Mount f = (let (f, ms) = fs_init f in Some (f, 0, [], ms))"
| "fs_do (Create name) f = (let (f, r, ms) = fs_create name f in Some (f, r, [], ms))"
| "fs_do (Write name data sz) f = do { (f, r, ms) \<leftarrow> fs_write name data sz f; Some (f, r, [], ms) }"
| "fs_do (Read name buf sz) f = do { (buf, r, ms) \<leftarrow> fs_read name buf sz f; Some (f, r, buf, ms) }"
| "fs_do (Delete name) f = (let (f, r, ms) = fs_delete name f in Some (f, r, [], ms))"
| "fs_do Listing f = Some (f, 0, [], fs_list f)"

fun dev_do :: "'d device \<Rightarrow> fs_call \<Rightarrow> 'd dfs \<Rightarrow> ('d dfs \<times> fs_reply) option" where
  "dev_do dev Mount s = do { (s, ms) \<leftarrow> dev_fs_init dev s; Some (s, 0, [], ms) }"
| "dev_do dev (Create name) s = do { (s, r, ms) \<leftarrow> dev_fs_create dev name s; Some (s, r, [], ms) }"
| "dev_do dev (Write name data sz) s = do { (s, r, ms) \<leftarrow> dev_fs_write dev name data sz s; Some (s, r, [], ms) }"
| "dev_do dev (Read name buf sz) s = do { (s, buf, r, ms) \<leftarrow> dev_fs_read dev name buf sz s; Some (s, r, buf, ms) }"
| "dev_do dev (Delete name) s = do { (s, r, ms) \<leftarrow> dev_fs_delete dev name s; Some (s, r, [], ms) }"
| "dev_do dev Listing s = do { (s, ms) \<leftarrow> dev_fs_list dev s; Some (s, 0, [], ms) }"

fun fs_run :: "fs_call list \<Rightarrow> fs \<Rightarrow> (fs \<times> fs_reply list) option" where
  "fs_run [] f = Some (f, [])"
| "fs_run (c # cs) f = do { (f, r) \<leftarrow> fs_do c f; (f, rs) \<leftarrow> fs_run cs f; Some (f, r # rs) }"

fun dev_run :: "'d device \<Rightarrow> fs_call list \<Rightarrow> 'd dfs \<Rightarrow> ('d dfs \<times> fs_reply list) option" where
  "dev_run dev [] s = Some (s, [])"
| "dev_run dev (c # cs) s = do { (s, r) \<leftarrow> dev_do dev c s; (s, rs) \<leftarrow> dev_run dev cs s; Some (s, r # rs) }"

declare dev_inode_find_loop.simps [simp del] dev_inode_alloc_loop.simps [simp del] dev_mark_inodes.simps [simp del]
  dev_clear_inodes.simps [simp del] dev_fs_write_loop.simps [simp del] dev_fs_read_loop.simps [simp del] dev_list_entries.simps [simp del]

subsection \<open>Refinement\<close>

text \<open>
  A device seen as its map of sectors: \<open>yields\<close> is a computation that returns a value and keeps the
  sectors, \<open>mirrors\<close> relates the state here to the state of \<open>Fs\<close>.
\<close>

definition yields :: "('d \<Rightarrow> bool) \<Rightarrow> ('d \<Rightarrow> disk) \<Rightarrow> ('a \<times> 'd) option \<Rightarrow> disk \<Rightarrow> 'a \<Rightarrow> bool" where
  "yields ready sees c D x \<longleftrightarrow> (\<exists>d. c = Some (x, d) \<and> ready d \<and> sees d = D)"

definition mirrors :: "('d \<Rightarrow> bool) \<Rightarrow> ('d \<Rightarrow> disk) \<Rightarrow> 'd dfs \<Rightarrow> fs \<Rightarrow> bool" where
  "mirrors ready sees s f \<longleftrightarrow> ready (ddrive s) \<and> dsuper s = superblock f \<and> sees (ddrive s) = disk f"

lemma yieldsE: "yields R S c D x \<Longrightarrow> (\<And>d. c = Some (x, d) \<Longrightarrow> R d \<Longrightarrow> S d = D \<Longrightarrow> P) \<Longrightarrow> P"
  by (auto simp: yields_def)

lemma yields_return: "R d \<Longrightarrow> S d = D \<Longrightarrow> yields R S (Some (x, d)) D x"
  by (simp add: yields_def)

lemma yields_bind:
  "yields R S c D x \<Longrightarrow> (\<And>d. R d \<Longrightarrow> S d = D \<Longrightarrow> yields R S (f x d) D y) \<Longrightarrow> yields R S (c \<bind> (\<lambda>(x, d). f x d)) D y"
  by (auto simp: yields_def)

lemma yields_if:
  "(b \<Longrightarrow> yields R S c D x) \<Longrightarrow> (\<not> b \<Longrightarrow> yields R S c' D x') \<Longrightarrow> yields R S (if b then c else c') D (if b then x else x')"
  by simp

text \<open>The same for a computation that may leave the defined behaviour, and for one that changes the state.\<close>

definition fetches :: "('d \<Rightarrow> bool) \<Rightarrow> ('d \<Rightarrow> disk) \<Rightarrow> ('a \<times> 'd) option \<Rightarrow> disk \<Rightarrow> 'a option \<Rightarrow> bool" where
  "fetches ready sees c D r = rel_option (\<lambda>(x, d) y. x = y \<and> ready d \<and> sees d = D) c r"

definition follows :: "('d \<Rightarrow> bool) \<Rightarrow> ('d \<Rightarrow> disk) \<Rightarrow> ('d dfs \<times> 'a) option \<Rightarrow> (fs \<times> 'a) option \<Rightarrow> bool" where
  "follows ready sees = rel_option (rel_prod (mirrors ready sees) (=))"

lemma fetches_return: "R d \<Longrightarrow> S d = D \<Longrightarrow> fetches R S (Some (x, d)) D (Some x)"
  by (simp add: fetches_def)

lemma fetches_bind:
  "yields R S c D x \<Longrightarrow> (\<And>d. R d \<Longrightarrow> S d = D \<Longrightarrow> fetches R S (f x d) D r) \<Longrightarrow> fetches R S (c \<bind> (\<lambda>(x, d). f x d)) D r"
  by (auto simp: yields_def)

lemma fetches_pure:
  "(\<And>u. c = Some u \<Longrightarrow> fetches R S (f u) D (g u)) \<Longrightarrow> fetches R S (c \<bind> f) D (c \<bind> g)"
  by (cases c) (simp_all add: fetches_def)

lemma fetches_None: "fetches R S None D None"
  by (simp add: fetches_def)

lemma fetches_if:
  "(b \<Longrightarrow> fetches R S c D r) \<Longrightarrow> (\<not> b \<Longrightarrow> fetches R S c' D r') \<Longrightarrow> fetches R S (if b then c else c') D (if b then r else r')"
  by simp

lemma follows_return: "mirrors R S s f \<Longrightarrow> follows R S (Some (s, x)) (Some (f, x))"
  by (simp add: follows_def)

lemma follows_None: "follows R S None None"
  by (simp add: follows_def)

lemma follows_if:
  "(b \<Longrightarrow> follows R S c a) \<Longrightarrow> (\<not> b \<Longrightarrow> follows R S c' a') \<Longrightarrow> follows R S (if b then c else c') (if b then a else a')"
  by simp

lemma follows_yields:
  "yields R S c D x \<Longrightarrow> (\<And>d. R d \<Longrightarrow> S d = D \<Longrightarrow> follows R S (g x d) a) \<Longrightarrow> follows R S (c \<bind> (\<lambda>(x, d). g x d)) a"
  by (auto simp: yields_def)

lemma follows_fetches:
  "fetches R S c D r \<Longrightarrow> (\<And>x d. R d \<Longrightarrow> S d = D \<Longrightarrow> follows R S (g x d) (h x)) \<Longrightarrow> follows R S (c \<bind> (\<lambda>(x, d). g x d)) (r \<bind> h)"
  by (cases c; cases r) (auto simp: fetches_def follows_def)

lemma follows_bind:
  "follows R S c a \<Longrightarrow> (\<And>s f x. a = Some (f, x) \<Longrightarrow> mirrors R S s f \<Longrightarrow> follows R S (g s x) (h f x)) \<Longrightarrow>
   follows R S (c \<bind> (\<lambda>(s, x). g s x)) (a \<bind> (\<lambda>(f, x). h f x))"
  by (cases c; cases a) (auto simp: follows_def)

lemma follows_pure: "(\<And>u. c = Some u \<Longrightarrow> follows R S (g u) (h u)) \<Longrightarrow> follows R S (c \<bind> g) (c \<bind> h)"
  by (cases c) (simp_all add: follows_def)

lemma follows_save:
  "\<exists>d. c = Some d \<and> R d \<and> S d = D \<Longrightarrow> (\<And>d. R d \<Longrightarrow> S d = D \<Longrightarrow> follows R S (g d) a) \<Longrightarrow> follows R S (c \<bind> g) a"
  by auto

text \<open>Indices and inodes that the operations pass to the device are in range.\<close>

lemma inode_find_less: "inode_find name D < 32"
proof -
  have "inode_find_loop name D i < 32" for i
    by (induction name D i rule: inode_find_loop.induct) (subst inode_find_loop.simps, auto simp: Let_def MAX_FILES_def)
  then show ?thesis by (simp add: inode_find_def)
qed

lemma inode_alloc_less: "inode_alloc D < 32"
  by (cases rule: inode_alloc_cases [of D]) simp_all

lemma length_strcpy [simp]: "length (fs_strcpy dst src n) = length dst"
proof -
  have "length (fs_strcpy_loop i dst src n) = length dst" for i
    by (induction i dst src n rule: fs_strcpy_loop.induct) (subst fs_strcpy_loop.simps, simp)
  then show ?thesis by (simp add: fs_strcpy_def)
qed

lemma new_inode_ok: "inode_ok ((inode_of (replicate 200 0))\<lparr>inode_name := fs_strcpy (inode_name (inode_of (replicate 200 0))) name n, inode_size := 0, inode_used := 1\<rparr>)"
  using inode_ok_of [of "replicate 200 0"] by (simp add: inode_ok_def)

lemma write_loop_inode:
  "fs_write_loop data sz n i written x f = Some (f', x', ok) \<Longrightarrow> inode_ok x \<Longrightarrow> inode_ok x'"
proof (induction data sz n i written x f rule: fs_write_loop.induct)
  case (1 data sz n i written x f)
  show ?case
  proof (cases "i < n")
    case False
    then show ?thesis using 1(2,3) by (simp add: fs_write_loop.simps [of _ _ n])
  next
    case True
    then obtain g b where b: "block_alloc f = Some (g, b)" using 1(2) by (auto simp: fs_write_loop.simps [of _ _ n] bind_eq_Some_conv)
    have "inode_ok (x\<lparr>inode_blocks := (inode_blocks x)[unat i := b]\<rparr>)" using 1(3) by (simp add: inode_ok_def)
    then show ?thesis using 1(1) [OF True b refl _ refl refl _ refl] 1(2,3) True b
      by (auto simp: fs_write_loop.simps [of _ _ n i] Let_def split: if_splits)
  qed
qed

text \<open>
  The contract of a device: \<open>sees\<close> is the map of its sectors, \<open>ready\<close> the states in which the file
  system may use it.
\<close>

locale sector_device =
  fixes dev :: "'d device"
    and sees :: "'d \<Rightarrow> disk"
    and ready :: "'d \<Rightarrow> bool"
  assumes sectors_ok: "ready d \<Longrightarrow> disk_ok (sees d)"
    and dev_load: "ready d \<Longrightarrow> yields ready sees (dread dev lba d) (sees d) (read_sector lba (sees d))"
    and dev_save: "ready d \<Longrightarrow> length buf = 512 \<Longrightarrow>
      \<exists>d'. dwrite dev lba buf d = Some d' \<and> ready d' \<and> sees d' = write_sector lba buf (sees d)"
begin

lemma inode_read: "ready d \<Longrightarrow> yields ready sees (dev_inode_read dev i d) (sees d) (inode_read i (sees d))"
  using dev_load [of d "inode_sector i"] by (auto simp: yields_def dev_inode_read_def inode_read_def)

lemma inode_write:
  assumes "ready d" "inode_ok x" "i < 32"
  shows "\<exists>d'. dev_inode_write dev i x d = Some d' \<and> ready d' \<and> sees d' = inode_write i x (sees d)"
proof -
  obtain d1 where d1: "dread dev (inode_sector i) d = Some (read_sector (inode_sector i) (sees d), d1)" "ready d1" "sees d1 = sees d"
    using yieldsE [OF dev_load [OF assms(1)]] by metis
  have "length (copy_to (i mod INODES_PER_SECTOR * sizeof_inode_t) (inode_bytes x) sizeof_inode_t (read_sector (inode_sector i) (sees d))) = 512"
    using sectors_ok [OF assms(1)] assms(2) by (simp add: copy_to_def read_sector_def sizeof_inode_t_def INODES_PER_SECTOR_def)
  from dev_save [OF d1(2) this, of "inode_sector i"] show ?thesis using d1 by (auto simp: dev_inode_write_def inode_write_def)
qed

lemma find_loop: "ready d \<Longrightarrow> sees d = D \<Longrightarrow> yields ready sees (dev_inode_find_loop dev name i d) D (inode_find_loop name D i)"
proof (induction name D i arbitrary: d rule: inode_find_loop.induct)
  case (1 name D i)
  have rd: "yields ready sees (dev_inode_read dev i d) D (inode_read i D)" using inode_read [OF 1(2)] 1(3) by simp
  show ?case
    unfolding dev_inode_find_loop.simps [of dev name i] inode_find_loop.simps [of name D i] Let_def
    by (intro yields_if yields_bind [OF rd] 1(1) [OF _ refl] yields_return) (use 1(2,3) in simp_all)
qed

lemma alloc_loop: "ready d \<Longrightarrow> sees d = D \<Longrightarrow> yields ready sees (dev_inode_alloc_loop dev i d) D (inode_alloc_loop D i)"
proof (induction D i arbitrary: d rule: inode_alloc_loop.induct)
  case (1 D i)
  have rd: "yields ready sees (dev_inode_read dev i d) D (inode_read i D)" using inode_read [OF 1(2)] 1(3) by simp
  show ?case
    unfolding dev_inode_alloc_loop.simps [of dev i] inode_alloc_loop.simps [of D i]
    by (intro yields_if yields_bind [OF rd] 1(1) yields_return) (use 1(2,3) in simp_all)
qed

lemma mark_loop: "ready d \<Longrightarrow> sees d = D \<Longrightarrow> fetches ready sees (dev_mark_inodes dev i used d) D (mark_inodes i D used)"
proof (induction i D used arbitrary: d rule: mark_inodes.induct)
  case (1 i D used)
  have rd: "yields ready sees (dev_inode_read dev i d) D (inode_read i D)" using inode_read [OF 1(2)] 1(3) by simp
  show ?case
    unfolding dev_mark_inodes.simps [of dev i] mark_inodes.simps [of i D] Let_def
    by (intro fetches_if fetches_bind [OF rd] fetches_pure 1(1) [OF _ refl] fetches_return) (use 1(2,3) in simp_all)
qed

lemma find: "ready d \<Longrightarrow> yields ready sees (dev_inode_find dev name d) (sees d) (inode_find name (sees d))"
  by (simp add: dev_inode_find_def inode_find_def find_loop)

lemma alloc: "ready d \<Longrightarrow> yields ready sees (dev_inode_alloc dev d) (sees d) (inode_alloc (sees d))"
  by (simp add: dev_inode_alloc_def inode_alloc_def alloc_loop)

lemma block_alloc:
  assumes "mirrors ready sees s f"
  shows "follows ready sees (dev_block_alloc dev s) (block_alloc f)"
proof -
  have m: "ready (ddrive s)" "dsuper s = superblock f" "sees (ddrive s) = disk f" using assms by (simp_all add: mirrors_def)
  show ?thesis unfolding dev_block_alloc_def block_alloc_def Let_def m(2)
    by (intro follows_if follows_return assms follows_fetches [OF mark_loop [OF m(1,3)]] follows_pure)
      (use m in \<open>auto simp: follows_def mirrors_def split: option.split\<close>)
qed

lemma flush:
  assumes "mirrors ready sees s f"
  shows "\<exists>s'. dev_flush dev s = Some s' \<and> mirrors ready sees s' (superblock_flush f)"
proof -
  have m: "ready (ddrive s)" "dsuper s = superblock f" "sees (ddrive s) = disk f" using assms by (simp_all add: mirrors_def)
  have "length (copy_to 0 (superblock_bytes (dsuper s)) 24 (replicate 512 0)) = 512"
    by (simp add: copy_to_def superblock_bytes_def le32_def)
  from dev_save [OF m(1) this, of SUPERBLOCK_SECTOR] show ?thesis using m by (auto simp: dev_flush_def superblock_flush_def mirrors_def)
qed

lemma clear_loop:
  "ready d \<Longrightarrow> i \<le> 32 \<Longrightarrow> \<exists>d'. dev_clear_inodes dev i d = Some d' \<and> ready d' \<and>
     sees d' = fold (\<lambda>i. write_sector (INODE_START_SECTOR + of_nat i) (replicate 512 0)) [i..<32] (sees d)"
proof (induction "32 - i" arbitrary: i d)
  case 0
  then show ?case by (subst dev_clear_inodes.simps) simp
next
  case (Suc n)
  obtain d1 where d1: "dwrite dev (INODE_START_SECTOR + of_nat i) (replicate 512 0) d = Some d1" "ready d1"
    "sees d1 = write_sector (INODE_START_SECTOR + of_nat i) (replicate 512 0) (sees d)"
    using dev_save [OF Suc(3), of "replicate 512 0"] by auto
  have n: "n = 32 - (i + 1)" "i + 1 \<le> 32" "i < 32" using Suc(2) by simp_all
  from Suc(1) [OF n(1) d1(2) n(2)] show ?case
    using d1 n(3) by (subst dev_clear_inodes.simps) (simp add: upt_rec [of i 32])
qed

lemma format:
  assumes "ready (ddrive s)" "sees (ddrive s) = D"
  shows "\<exists>s'. dev_format dev s = Some s' \<and> mirrors ready sees s' \<lparr>superblock = formatted_sb,
    disk = fold (\<lambda>i. write_sector (INODE_START_SECTOR + of_nat i) (replicate 512 0)) [0..<32]
      (disk (superblock_flush \<lparr>superblock = formatted_sb, disk = D\<rparr>))\<rparr>"
proof -
  obtain s1 where s1: "dev_flush dev (s\<lparr>dsuper := formatted_sb\<rparr>) = Some s1" "mirrors ready sees s1 (superblock_flush \<lparr>superblock = formatted_sb, disk = D\<rparr>)"
    using flush [of "s\<lparr>dsuper := formatted_sb\<rparr>" "\<lparr>superblock = formatted_sb, disk = D\<rparr>"] assms by (auto simp: mirrors_def)
  moreover obtain d2 where "dev_clear_inodes dev 0 (ddrive s1) = Some d2" "ready d2"
    "sees d2 = fold (\<lambda>i. write_sector (INODE_START_SECTOR + of_nat i) (replicate 512 0)) [0..<32] (sees (ddrive s1))"
    using clear_loop [of "ddrive s1" 0] s1(2) by (auto simp: mirrors_def)
  ultimately show ?thesis by (simp add: dev_format_def formatted_sb_def [symmetric] mirrors_def superblock_flush_def)
qed

lemma fs_init:
  assumes "mirrors ready sees s f"
  shows "follows ready sees (dev_fs_init dev s) (Some (fs_init f))"
proof -
  have m: "ready (ddrive s)" "sees (ddrive s) = disk f" using assms by (simp_all add: mirrors_def)
  let ?buf = "read_sector SUPERBLOCK_SECTOR (disk f)"
  obtain d where d: "dread dev SUPERBLOCK_SECTOR (ddrive s) = Some (?buf, d)" "ready d" "sees d = disk f"
    using dev_load [OF m(1), of SUPERBLOCK_SECTOR] m(2) by (auto simp: yields_def)
  let ?s = "s\<lparr>dsuper := superblock_of (take 24 ?buf), ddrive := d\<rparr>"
  show ?thesis
  proof (cases "magic (superblock_of (take 24 ?buf)) = FS_MAGIC")
    case True
    then show ?thesis using d by (simp add: dev_fs_init_def fs_init_def Let_def follows_def mirrors_def)
  next
    case False
    then show ?thesis using d format [of ?s "disk f"]
      by (auto simp: dev_fs_init_def fs_init_def Let_def follows_def mirrors_def formatted_sb_def [symmetric] superblock_flush_def)
  qed
qed

lemma fs_create:
  assumes "mirrors ready sees s f"
  shows "follows ready sees (dev_fs_create dev name s) (Some (fs_create name f))"
proof -
  have m: "ready (ddrive s)" "dsuper s = superblock f" "sees (ddrive s) = disk f" using assms by (simp_all add: mirrors_def)
  let ?n = "nat (inode_alloc (disk f))"
  obtain d1 where d1: "dev_inode_find dev name (ddrive s) = Some (inode_find name (disk f), d1)" "ready d1" "sees d1 = disk f"
    using find [OF m(1), of name] m(3) by (auto simp: yields_def)
  obtain d2 where d2: "dev_inode_alloc dev d1 = Some (inode_alloc (disk f), d2)" "ready d2" "sees d2 = disk f"
    using alloc [OF d1(2)] d1(3) by (auto simp: yields_def)
  show ?thesis
  proof (cases "0 \<le> inode_find name (disk f) \<or> inode_alloc (disk f) < 0")
    case True
    then show ?thesis using d1 d2 m(2) by (auto simp: dev_fs_create_def fs_create_def Let_def follows_def mirrors_def)
  next
    case False
    have "?n < 32" using inode_alloc_less [of "disk f"] by simp
    from inode_write [OF d2(2) new_inode_ok this, of name MAX_FILENAME] show ?thesis
      using False d1 d2 m(2) by (auto simp: dev_fs_create_def fs_create_def Let_def follows_def mirrors_def)
  qed
qed

lemma write_loop:
  "mirrors ready sees s f \<Longrightarrow>
   follows ready sees (dev_fs_write_loop dev data sz n i written inode s) (fs_write_loop data sz n i written inode f)"
proof (induction data sz n i written inode f arbitrary: s rule: fs_write_loop.induct)
  case (1 data sz n i written inode f)
  let ?w = "if sz - written > FS_BLOCK_SIZE then FS_BLOCK_SIZE else sz - written"
  have save: "\<exists>d. dwrite dev b (copy_to 0 (drop (unat written) data) (unat ?w) (replicate 512 0)) (ddrive t) = Some d \<and> ready d \<and>
      sees d = write_sector b (copy_to 0 (drop (unat written) data) (unat ?w) (replicate 512 0)) (disk g)"
    if "mirrors ready sees t g" "unat written + unat ?w \<le> length data" for t g b
  proof -
    have "unat ?w \<le> 512" by (auto simp: word_less_nat_alt FS_BLOCK_SIZE_def)
    then have "length (copy_to 0 (drop (unat written) data) (unat ?w) (replicate 512 0)) = 512" using that(2) by (simp add: copy_to_def)
    then show ?thesis using dev_save [of "ddrive t"] that(1) by (simp add: mirrors_def)
  qed
  show ?case
    unfolding dev_fs_write_loop.simps [of dev data sz n i] fs_write_loop.simps [of data sz n i] Let_def
    by (intro follows_if follows_bind [OF block_alloc [OF 1(2)]] follows_save [OF save] 1(1) [OF _ _ refl _ refl refl _ refl] follows_return follows_None)
      (use 1(2) in \<open>simp_all add: mirrors_def\<close>)
qed

lemma read_loop:
  "ready d \<Longrightarrow> sees d = D \<Longrightarrow>
   fetches ready sees (dev_fs_read_loop dev inode n i rd buf d) D (fs_read_loop inode D n i rd buf)"
proof (induction inode D n i rd buf arbitrary: d rule: fs_read_loop.induct)
  case (1 inode D n i rd buf)
  have load: "yields ready sees (dread dev b d) D (read_sector b D)" for b using dev_load [OF 1(2)] 1(3) by simp
  show ?case
    unfolding dev_fs_read_loop.simps [of dev inode n i] fs_read_loop.simps [of inode D n i] Let_def
    by (intro fetches_if fetches_bind [OF load] 1(1) [OF _ refl _ refl] fetches_return fetches_None) (use 1(2,3) in simp_all)
qed

lemma fs_read:
  assumes "mirrors ready sees s f"
  shows "follows ready sees (dev_fs_read dev name buf sz s) (map_option (Pair f) (fs_read name buf sz f))"
proof -
  have m: "ready (ddrive s)" "dsuper s = superblock f" "sees (ddrive s) = disk f" using assms by (simp_all add: mirrors_def)
  let ?i = "nat (inode_find name (disk f))"
  have find: "yields ready sees (dev_inode_find dev name (ddrive s)) (disk f) (inode_find name (disk f))" using find [OF m(1)] m(3) by simp
  have load: "yields ready sees (dev_inode_read dev ?i d) (disk f) (inode_read ?i (disk f))" if "ready d" "sees d = disk f" for d
    using inode_read [OF that(1)] that(2) by simp
  have eq: "map_option (Pair f) (fs_read name buf sz f) =
    (if inode_find name (disk f) < 0 then Some (f, buf, -1, [not_found name])
     else fs_read_loop (inode_read ?i (disk f)) (disk f) (if sz < inode_size (inode_read ?i (disk f)) then sz else inode_size (inode_read ?i (disk f))) 0 0 buf
       \<bind> (\<lambda>x. Some (f, fst x, sint (snd x), [])))"
    by (auto simp: fs_read_def Let_def map_option_bind split: Option.bind_split)
  show ?thesis unfolding eq dev_fs_read_def Let_def
    by (intro follows_yields [OF find] follows_if follows_yields [OF load] follows_fetches [OF read_loop]) 
       (use m in \<open>auto simp: follows_def mirrors_def\<close>)
qed

text \<open>The end of a write or a deletion: the inode and the superblock are stored.\<close>

lemma store_inode:
  assumes "mirrors ready sees s f" "inode_ok x" "n < 32"
  shows "\<exists>d s'. dev_inode_write dev n x (ddrive s) = Some d \<and> dev_flush dev (s\<lparr>ddrive := d\<rparr>) = Some s' \<and>
    mirrors ready sees s' (superblock_flush (f\<lparr>disk := inode_write n x (disk f)\<rparr>))"
proof -
  have m: "ready (ddrive s)" "dsuper s = superblock f" "sees (ddrive s) = disk f" using assms(1) by (simp_all add: mirrors_def)
  obtain d where d: "dev_inode_write dev n x (ddrive s) = Some d" "ready d" "sees d = inode_write n x (disk f)"
    using inode_write [OF m(1) assms(2,3)] m(3) by auto
  have "mirrors ready sees (s\<lparr>ddrive := d\<rparr>) (f\<lparr>disk := inode_write n x (disk f)\<rparr>)" using d m(2) by (simp add: mirrors_def)
  from flush [OF this] show ?thesis using d(1) by blast
qed

lemma write_body:
  assumes "mirrors ready sees s f" "inode_ok x" "n < 32"
  shows "follows ready sees
      (do { (s, inode, ok) \<leftarrow> dev_fs_write_loop dev data sz N 0 0 x s;
            if \<not> ok then Some (s, -1, a)
            else do { d \<leftarrow> dev_inode_write dev n (inode\<lparr>inode_size := sz\<rparr>) (ddrive s);
                      s \<leftarrow> dev_flush dev (s\<lparr>ddrive := d\<rparr>); Some (s, 0, b) } })
      (do { (f, inode, ok) \<leftarrow> fs_write_loop data sz N 0 0 x f;
            if \<not> ok then Some (f, -1, a)
            else Some (superblock_flush (f\<lparr>disk := inode_write n (inode\<lparr>inode_size := sz\<rparr>) (disk f)\<rparr>), 0, b) })"
proof (cases "fs_write_loop data sz N 0 0 x f")
  case None
  then show ?thesis using write_loop [OF assms(1), of data sz N 0 0 x] by (simp add: follows_def)
next
  case (Some r)
  obtain g y ok where r: "r = (g, y, ok)" by (cases r)
  obtain t where t: "dev_fs_write_loop dev data sz N 0 0 x s = Some (t, y, ok)" "mirrors ready sees t g"
    using write_loop [OF assms(1), of data sz N 0 0 x] Some r by (auto simp: follows_def option_rel_Some2)
  have "inode_ok (y\<lparr>inode_size := sz\<rparr>)" using write_loop_inode [OF _ assms(2)] Some r by (simp add: inode_ok_def)
  from store_inode [OF t(2) this assms(3)] show ?thesis using Some r t by (auto simp: follows_def)
qed

lemma fs_write:
  assumes "mirrors ready sees s f"
  shows "follows ready sees (dev_fs_write dev name data sz s) (fs_write name data sz f)"
proof -
  have m: "ready (ddrive s)" "dsuper s = superblock f" "sees (ddrive s) = disk f" using assms by (simp_all add: mirrors_def)
  let ?n = "inode_find name (disk f)"
  let ?x = "inode_read (nat ?n) (disk f)"
  obtain d1 where d1: "dev_inode_find dev name (ddrive s) = Some (?n, d1)" "ready d1" "sees d1 = disk f"
    using find [OF m(1), of name] m(3) by (auto simp: yields_def)
  obtain d2 where d2: "dev_inode_read dev (nat ?n) d1 = Some (?x, d2)" "ready d2" "sees d2 = disk f"
    using inode_read [OF d1(2), of "nat ?n"] d1(3) by (auto simp: yields_def)
  have n: "nat ?n < 32" using inode_find_less [of name "disk f"] by simp
  have x: "inode_ok ?x" using inode_ok_read [OF sectors_ok [OF m(1)] n] m(3) by simp
  have m1: "mirrors ready sees (s\<lparr>ddrive := d1\<rparr>) f" "mirrors ready sees (s\<lparr>ddrive := d2\<rparr>) f"
    using d1 d2 m(2) by (simp_all add: mirrors_def)
  show ?thesis
  proof (cases "?n < 0")
    case True
    then show ?thesis using d1 m1(1) by (simp add: dev_fs_write_def fs_write_def follows_def)
  next
    case False
    have upd: "ddrive (s\<lparr>ddrive := d1\<rparr>) = d1" "s\<lparr>ddrive := d1, ddrive := d2\<rparr> = s\<lparr>ddrive := d2\<rparr>" by simp_all
    show ?thesis unfolding dev_fs_write_def fs_write_def
      by (simp only: d1(1) d2(1) False Let_def if_False bind.bind_lunit prod.case upd)
        (intro follows_if follows_return m1(2) write_body [OF m1(2) x n])
  qed
qed

lemma fs_delete:
  assumes "mirrors ready sees s f"
  shows "follows ready sees (dev_fs_delete dev name s) (Some (fs_delete name f))"
proof -
  have m: "ready (ddrive s)" "dsuper s = superblock f" "sees (ddrive s) = disk f" using assms by (simp_all add: mirrors_def)
  let ?n = "inode_find name (disk f)"
  let ?x = "inode_read (nat ?n) (disk f)"
  obtain d1 where d1: "dev_inode_find dev name (ddrive s) = Some (?n, d1)" "ready d1" "sees d1 = disk f"
    using find [OF m(1), of name] m(3) by (auto simp: yields_def)
  obtain d2 where d2: "dev_inode_read dev (nat ?n) d1 = Some (?x, d2)" "ready d2" "sees d2 = disk f"
    using inode_read [OF d1(2), of "nat ?n"] d1(3) by (auto simp: yields_def)
  show ?thesis
  proof (cases "?n < 0")
    case True
    then show ?thesis using d1 m(2) by (auto simp: dev_fs_delete_def fs_delete_def Let_def follows_def mirrors_def)
  next
    case False
    obtain bs free where b: "release_blocks (inode_blocks ?x) (free_blocks (superblock f)) = (bs, free)" by (cases "release_blocks (inode_blocks ?x) (free_blocks (superblock f))")
    let ?y = "?x\<lparr>inode_blocks := bs, inode_used := 0\<rparr>"
    have n: "nat ?n < 32" using inode_find_less [of name "disk f"] by simp
    have "inode_ok ?x" using inode_ok_read [OF sectors_ok [OF m(1)] n] m(3) by simp
    then have y: "inode_ok ?y" using b by (auto simp: inode_ok_def release_blocks_spec)
    let ?s = "s\<lparr>dsuper := (superblock f)\<lparr>free_blocks := free\<rparr>, ddrive := d2\<rparr>"
    have "mirrors ready sees ?s (f\<lparr>superblock := (superblock f)\<lparr>free_blocks := free\<rparr>\<rparr>)" using d2 by (simp add: mirrors_def)
    from store_inode [OF this y n] show ?thesis using False d1 d2 b m(2) by (auto simp: dev_fs_delete_def fs_delete_def Let_def follows_def)
  qed
qed

lemma list_loop:
  "ready d \<Longrightarrow> sees d = D \<Longrightarrow> yields ready sees (dev_list_entries dev i d) D (concat (map (list_entry D) [i..<MAX_FILES]))"
proof (induction "MAX_FILES - i" arbitrary: i d)
  case 0
  then show ?case by (subst dev_list_entries.simps) (simp add: yields_return)
next
  case (Suc n)
  obtain d1 where d1: "dev_inode_read dev i d = Some (inode_read i D, d1)" "ready d1" "sees d1 = D"
    using inode_read [OF Suc(3), of i] Suc(4) by (auto simp: yields_def)
  have n: "n = MAX_FILES - (i + 1)" "i < MAX_FILES" using Suc(2) by simp_all
  from Suc(1) [OF n(1) d1(2,3)] show ?case using d1(1) n(2)
    by (subst dev_list_entries.simps) (auto simp: yields_def upt_rec [of i MAX_FILES] list_entry_def Let_def)
qed

lemma fs_list:
  assumes "mirrors ready sees s f"
  shows "follows ready sees (dev_fs_list dev s) (Some (f, fs_list f))"
proof -
  have m: "ready (ddrive s)" "dsuper s = superblock f" "sees (ddrive s) = disk f" using assms by (simp_all add: mirrors_def)
  obtain d where "dev_list_entries dev 0 (ddrive s) = Some (concat (map (list_entry (disk f)) [0..<MAX_FILES]), d)" "ready d" "sees d = disk f"
    by (rule yieldsE [OF list_loop [OF m(1,3), of 0]])
  then show ?thesis using m(2) by (simp add: dev_fs_list_def fs_list_def Let_def follows_def mirrors_def del: concat_eq_Nil_conv)
qed

lemma call_follows:
  assumes "mirrors ready sees s f"
  shows "follows ready sees (dev_do dev c s) (fs_do c f)"
proof (cases c)
  case Mount
  then show ?thesis using fs_init [OF assms] by (auto simp: follows_def option_rel_Some2 split: prod.split)
next
  case (Create name)
  then show ?thesis using fs_create [OF assms, of name] by (auto simp: follows_def option_rel_Some2 split: prod.split)
next
  case (Write name data sz)
  then show ?thesis using fs_write [OF assms, of name data sz] by (auto simp: follows_def elim!: option.rel_cases)
next
  case (Read name buf sz)
  then show ?thesis using fs_read [OF assms, of name buf sz] by (auto simp: follows_def elim!: option.rel_cases)
next
  case (Delete name)
  then show ?thesis using fs_delete [OF assms, of name] by (auto simp: follows_def option_rel_Some2 split: prod.split)
next
  case Listing
  then show ?thesis using fs_list [OF assms] by (auto simp: follows_def option_rel_Some2)
qed

lemma run_follows: "mirrors ready sees s f \<Longrightarrow> follows ready sees (dev_run dev cs s) (fs_run cs f)"
proof (induction cs arbitrary: s f)
  case (Cons c cs)
  then show ?case by (auto intro!: follows_bind [OF call_follows] follows_bind [OF Cons.IH] follows_return)
qed (simp add: follows_return)

end

text \<open>The map of sectors that \<open>Fs\<close> computes on is such a device.\<close>

interpretation plain: sector_device plain_device "\<lambda>d. d" disk_ok
  by unfold_locales (auto simp: plain_device_def yields_def write_sector_def)

text \<open>So is the driver on every drive that follows the protocol.\<close>

definition bus_ready :: "('d \<Rightarrow> drive_view) \<Rightarrow> 'd \<Rightarrow> bool" where
  "bus_ready view d \<longleftrightarrow> phase (view d) = Idle \<and> disk_ok (sectors (view d))"

definition bus_sectors :: "('d \<Rightarrow> drive_view) \<Rightarrow> 'd \<Rightarrow> disk" where
  "bus_sectors view d = sectors (view d)"

locale ata_bus =
  fixes io :: "'d ports"
    and view :: "'d \<Rightarrow> drive_view"
  assumes drive: "ata_drive io view"
begin

end

sublocale ata_bus \<subseteq> sector_device "ata_device io" "bus_sectors view" "bus_ready view"
proof unfold_locales
  fix d lba
  assume d: "bus_ready view d"
  then show "disk_ok (bus_sectors view d)" by (simp add: bus_ready_def bus_sectors_def)
  show "yields (bus_ready view) (bus_sectors view) (dread (ata_device io) lba d) (bus_sectors view d) (read_sector lba (bus_sectors view d))"
    using ata_read_sector_refines [OF drive, of d lba] d by (auto simp: yields_def ata_device_def bus_ready_def bus_sectors_def)
next
  fix d buf lba
  assume d: "bus_ready view d" "length (buf :: bytes) = 512"
  then show "\<exists>d'. dwrite (ata_device io) lba buf d = Some d' \<and> bus_ready view d' \<and>
      bus_sectors view d' = write_sector lba buf (bus_sectors view d)"
    using ata_write_sector_refines [OF drive, of d buf lba] by (auto simp: ata_device_def bus_ready_def bus_sectors_def write_sector_def)
qed

context ata_bus
begin

lemma calls_follow:
  assumes "phase (view d) = Idle" "disk_ok (sectors (view d))"
  shows "follows (bus_ready view) (bus_sectors view) (dev_run (ata_device io) cs \<lparr>dsuper = sb, ddrive = d\<rparr>)
    (fs_run cs \<lparr>superblock = sb, disk = sectors (view d)\<rparr>)"
  using assms by (intro run_follows) (simp add: mirrors_def bus_ready_def bus_sectors_def)

end

interpretation ref_bus: ata_bus ref_drive fst
  by unfold_locales (rule ref_drive_ok)

subsection \<open>Properties\<close>


text \<open>A drive that holds one empty file; it is written and read back through the driver.\<close>

definition hello_drive :: "drive_view \<times> nat" where
  "hello_drive = ((fst ref_disk)\<lparr>sectors := disk fs_hello\<rparr>, 5)"


end
