(* ===== verification/Spec2Isabelle.thy ===== *)
theory Spec2Isabelle
  imports Userlib Session Fsdrive
begin

text \<open>
  \<^bold>\<open>AshOS\<close> is a small 32-bit x86 kernel: it boots from GRUB, drives the VGA text screen, a serial
  port, the keyboard and an ATA disk, manages memory, processes and a file system of its own,
  offers system calls, loads ELF programs into ring 3 and runs a shell. This library models its
  C code and proves what makes each part, and their composition, correct.

  \<^bold>\<open>How the parts interact.\<close> \<open>kernel_main\<close> brings the parts up in a fixed order and then idles.
  Everything else happens in interrupts: the timer calls the scheduler, the keyboard calls the
  shell with a character, interrupt 128 calls the system call handler. Shell and system calls
  use the file system, the heap, the program loader and the console; the heap and the loader
  use the frame allocator and the page tables; the file system uses the disk driver; every
  part prints through \<open>kprintf\<close>, which writes to the terminal and the serial port.

  \<^bold>\<open>Theories\<close> (sources under \<open>src/\<close>).
  \<^item> \<open>Prelude\<close>: machine integers as words, the collection \<open>const_defs\<close> of the constants, shared lemmas.
  \<^item> \<open>Terminal\<close>: the screen of \<open>kernel/kernel.c\<close> as 2000 cells with cursor and colour.
  \<^item> \<open>Kprintf\<close>: \<open>drivers/serial.c\<close> (a status function stands for the UART) and \<open>kernel/kprintf.c\<close>.
  \<^item> \<open>Pmm\<close>: \<open>kernel/pmm.c\<close>, the bitmap of page frames.
  \<^item> \<open>Vmm\<close>: \<open>kernel/vmm.c\<close>, the page directory, page tables in physical memory and the processor's walk.
  \<^item> \<open>Heap\<close>: \<open>kernel/heap.c\<close>, headers and payload in one store of words.
  \<^item> \<open>Diskfmt\<close>, \<open>Fs\<close>, \<open>FsInv\<close>: \<open>include/fs.h\<close> and \<open>kernel/fs.c\<close>, the on-disk format byte for byte,
    the operations, and their invariant.
  \<^item> \<open>Mkdisk\<close>: \<open>tools/mkdisk.c\<close>, the host tool that copies a file onto a disk image.
  \<^item> \<open>Ata\<close>: \<open>drivers/ata.c\<close> over arbitrary port functions.
  \<^item> \<open>Fsdrive\<close>: \<open>kernel/fs.c\<close> once more, every sector access a call of the driver.
  \<^item> \<open>Process\<close>: \<open>kernel/process.c\<close> and \<open>process.s\<close>, the list of processes, stacks and the switch.
  \<^item> \<open>Machine\<close>: the record \<open>kernel\<close> of all states, and the byte accesses through pointers.
  \<^item> \<open>Syscall\<close>: \<open>kernel/syscall.c\<close>. \<open>Elf\<close>: \<open>kernel/elf.c\<close>. \<open>Descriptors\<close>: \<open>gdt.c\<close>, \<open>idt.c\<close> (tables and
    controllers), \<open>tss.c\<close>, \<open>usermode.c\<close>. \<open>Shell\<close>: \<open>kernel/shell.c\<close>. \<open>Keyboard\<close>: \<open>drivers/keyboard.c\<close>.
  \<^item> \<open>Kernel\<close>: \<open>kernel_main\<close> of \<open>kernel.c\<close>, \<open>isr_handler\<close> and \<open>irq_handler\<close> of \<open>idt.c\<close>.
    \<open>System\<close>: the steps of the whole machine. \<open>Session\<close>: typed lines, from the disk image to ring 3.
    \<open>Userlib\<close>: \<open>user/libash.h\<close> and the programs.

  \<^bold>\<open>Conventions.\<close> A definition has the name of the C function. Static variables are the fields
  of a record that a function takes and returns; \<open>None\<close> is a fault or undefined behaviour the
  code does not guard against (an access outside an array or an unmapped page, a null pointer)
  or a loop that does not end. Loops that may not end are partial functions on options (the
  polling loops, the walks along the heap and the process list, \<open>strlen\<close> of a program); the
  others have termination proofs. The only number chosen is the bound \<open>2 ^ 32\<close> of \<open>string_at\<close>, the
  read of a C string: a string without a terminator in the whole address space wraps around
  for ever. Output is a list of formats with arguments that \<open>say\<close> hands to \<open>kprintf\<close>; it is
  printed where the code prints. Integers are words of their C width and wrap. The heap window
  is a store of words indexed by virtual address; other addresses go through the page walk to
  physical memory. \<open>control\<close> and \<open>irq_end\<close> tell how a handler ends: it returns, halts, enters ring
  3, or goes on in another process.

  \<^bold>\<open>Interfaces.\<close> \<open>frame_allocator\<close> (frames, \<open>Pmm\<close>), \<open>block_allocator\<close> (heap blocks, \<open>Heap\<close>),
  \<open>named_files\<close> (files by name, \<open>Fs\<close>) and \<open>byte_region\<close> (a buffer in the heap or in mapped pages,
  \<open>Machine\<close>) are locales with the laws their clients rely on, interpreted on the model;
  \<open>invariant_system\<close> is the transition system whose reachable states keep an invariant. The
  drive is a parameter: \<open>ata_drive\<close> states the documented PIO protocol, \<open>ref_drive\<close> satisfies it.
  \<open>sector_device\<close> (\<open>Fsdrive\<close>) is what the file system needs of a drive: sectors that read as they were
  written. The map of sectors provides it, and so does the driver on every bus that follows
  the protocol (\<open>ata_bus\<close>, a sublocale).

  \<^bold>\<open>What is shown.\<close>
  \<^item> Memory: the frame allocator and \<open>kmalloc\<close>/\<open>kfree\<close> refine first fit over sets of frames and lists of
    blocks, keep the contents of other blocks and always return; \<open>vmm_map\<close> changes the
    translation of exactly one page; \<open>heap_init\<close> backs the heap with distinct frames.
  \<^item> Files: create, write, read and delete act on the map from names to contents; what is written is
    read back, also after a remount; the invariant survives a full disk; files of more than one
    block are corrupted by \<open>fs_write\<close>, while an image made by \<open>mkdisk\<close> is read correctly.
  \<^item> Disk: on every drive that follows the protocol the driver reads and writes the sectors of
    the file system's disk, and any sequence of file system calls over the driver gives the results,
    the output and the sectors of the same calls over the map of sectors.
  \<^item> Processes: the scheduler is round robin and fair, an exited process is not resumed, a new one
    starts at its entry point on a fresh stack.
  \<^item> System calls, loader, shell, keyboard, programs: opening and reading a file delivers its bytes;
    no call breaks the invariant but a read into a bad address; an executable is placed in memory exactly or
    refused; a command line returns to the prompt with all invariants unless it overruns a
    buffer, which is characterised; typed keys arrive as the text typed; \<open>hello.c\<close> prints its text
    and \<open>readfile.c\<close> the file it reads.
  \<^item> The kernel: boot establishes all invariants; they hold after any sequence of interrupts,
    system calls and started programs, and every further interrupt is served and acknowledged;
    Enter on a \<open>run\<close> line starts the program. Two sessions put the parts together: a file made,
    written and shown from the keyboard, and an executable that goes from the host over \<open>mkdisk\<close>, the
    boot, the keyboard, the shell and the loader to ring 3.

  \<^bold>\<open>Not modelled.\<close> The assembly of \<open>boot.s\<close>, \<open>gdt.s\<close> and \<open>idt.s\<close> (entry addresses and saved registers are
  parameters), the build files, and the interleaving of interrupts with boot or with one
  another: a handler runs as one step, as the gates clear the interrupt flag. The text \<open>mkdisk\<close>
  prints is left out. In the state of the whole kernel the file system works on the map of sectors, which
  \<open>Fsdrive\<close> shows the driver to implement. There is no translation cache: a walk always sees
  the tables as they are, and the page directory is a list of its own beside the physical
  memory that holds the page tables. The steps of the machine are those of
  the kernel: the instructions of a program between two system calls are not modelled, and the
  steps leave out a read into memory that holds page tables or is not mapped, and an open or a
  \<open>run\<close> without memory for the buffer, which the code does not guard against.
\<close>

end
